(* ===== verification/Prelude.thy ===== *)
theory Prelude
  imports Main "HOL-Library.Word"
begin

text \<open>
  Shared ground of the development: the names of the machine types, the outcome type of a C++
  call (a value, undefined behaviour, a call that never comes back, a process exit), checked
  reads and writes of arrays, the two shapes of counting loops the sources use
  (\<^verbatim>\<open>for(uint8_t i=0; i < n; ++i)\<close> with a small constant bound and
  \<^verbatim>\<open>for(uint32_t i=0; i < n; ++i)\<close> with a 64 bit bound, which wraps),
  \<^verbatim>\<open>unordered_map::operator[]\<close>, and the generic lemmas the components use.
\<close>

unbundle bit_operations_syntax

named_theorems cpp_simps \<open>evaluation of outcomes, checked accesses and loops\<close>

subsection \<open>Machine types\<close>

type_synonym bytes = "char list"
type_synonym u8 = "8 word"
type_synonym u32 = "32 word"
type_synonym u64 = "64 word"
type_synonym sfd = int

subsection \<open>Outcomes of a C++ call\<close>

text \<open>
  \<open>Undef\<close> is an access outside an object (undefined behaviour), \<open>Diverge\<close> a loop that never
  ends, \<open>Exit n\<close> a call of \<^verbatim>\<open>exit(n)\<close>.
\<close>

datatype 'a cpp = Ret 'a | Undef | Diverge | Exit nat

fun cpp_bind :: "'a cpp \<Rightarrow> ('a \<Rightarrow> 'b cpp) \<Rightarrow> 'b cpp" where
  "cpp_bind (Ret x) f = f x"
| "cpp_bind Undef f = Undef"
| "cpp_bind Diverge f = Diverge"
| "cpp_bind (Exit n) f = Exit n"

definition rd_at :: "'a list \<Rightarrow> nat \<Rightarrow> 'a cpp" where
  "rd_at xs i = (if i < length xs then Ret (xs ! i) else Undef)"

definition wr_at :: "'a list \<Rightarrow> nat \<Rightarrow> 'a \<Rightarrow> 'a list cpp" where
  "wr_at xs i v = (if i < length xs then Ret (xs[i := v]) else Undef)"

subsection \<open>Counting loops\<close>

text \<open>\<open>for_each xs body s\<close>: the body for each element in turn, stopping at an outcome that is no value.\<close>

fun for_each :: "'a list \<Rightarrow> ('a \<Rightarrow> 's \<Rightarrow> 's cpp) \<Rightarrow> 's \<Rightarrow> 's cpp" where
  "for_each [] body s = Ret s"
| "for_each (x # xs) body s = cpp_bind (body x s) (for_each xs body)"

text \<open>
  The loop \<^verbatim>\<open>for(uint32_t i=..; i < n; ++i)\<close> against a bound of type \<^verbatim>\<open>size_t\<close>: the counter
  wraps at \<open>2 ^ 32\<close>, so the loop may run for ever (\<open>None\<close>).
\<close>

partial_function (option) for_u32_from ::
  "nat \<Rightarrow> (nat \<Rightarrow> 's \<Rightarrow> 's cpp) \<Rightarrow> u32 \<Rightarrow> 's \<Rightarrow> 's cpp option" where
  "for_u32_from n body i s =
     (if unat i < n
      then (case body (unat i) s of
              Ret s' \<Rightarrow> for_u32_from n body (i + 1) s'
            | Undef \<Rightarrow> Some Undef
            | Diverge \<Rightarrow> None
            | Exit c \<Rightarrow> Some (Exit c))
      else Some (Ret s))"

definition for_u32 :: "nat \<Rightarrow> (nat \<Rightarrow> 's \<Rightarrow> 's cpp) \<Rightarrow> 's \<Rightarrow> 's cpp" where
  "for_u32 n body s = (case for_u32_from n body 0 s of None \<Rightarrow> Diverge | Some r \<Rightarrow> r)"

subsection \<open>Maps\<close>

text \<open>\<^verbatim>\<open>m[k]\<close> of an \<^verbatim>\<open>unordered_map\<close> inserts a value-initialised element when the key is missing.\<close>

definition map_at :: "('k \<rightharpoonup> 'v) \<Rightarrow> 'v \<Rightarrow> 'k \<Rightarrow> 'v" where
  "map_at m d k = (case m k of None \<Rightarrow> d | Some v \<Rightarrow> v)"

text \<open>\<^verbatim>\<open>m.emplace(k, v)\<close> keeps the element that is already there.\<close>

definition map_emplace :: "'k \<Rightarrow> 'v \<Rightarrow> ('k \<rightharpoonup> 'v) \<Rightarrow> ('k \<rightharpoonup> 'v)" where
  "map_emplace k v m = (if m k = None then m(k \<mapsto> v) else m)"

definition map_erase :: "'k \<Rightarrow> ('k \<rightharpoonup> 'v) \<Rightarrow> ('k \<rightharpoonup> 'v)" where
  "map_erase k m = m(k := None)"

subsection \<open>Lemmas: outcomes and checked accesses\<close>

lemma rd_at_in [simp, cpp_simps]: "i < length xs \<Longrightarrow> rd_at xs i = Ret (xs ! i)"
  by (simp add: rd_at_def)

lemma rd_at_out [simp, cpp_simps]: "length xs \<le> i \<Longrightarrow> rd_at xs i = Undef"
  by (simp add: rd_at_def)

lemma wr_at_in [simp, cpp_simps]: "i < length xs \<Longrightarrow> wr_at xs i v = Ret (xs[i := v])"
  by (simp add: wr_at_def)

lemma wr_at_out [simp, cpp_simps]: "length xs \<le> i \<Longrightarrow> wr_at xs i v = Undef"
  by (simp add: wr_at_def)

lemma cpp_bind_Ret_iff: "cpp_bind m f = Ret y \<longleftrightarrow> (\<exists>x. m = Ret x \<and> f x = Ret y)"
  by (cases m) auto

lemma cpp_bind_Ret_right [simp]: "cpp_bind m Ret = m"
  by (cases m) auto

lemma cpp_bind_assoc: "cpp_bind (cpp_bind m f) g = cpp_bind m (\<lambda>x. cpp_bind (f x) g)"
  by (cases m) auto

lemma cpp_bind_branch:
  "cpp_bind (if b then m else n) f = (if b then cpp_bind m f else cpp_bind n f)"
  "cpp_bind (case_sum g h x) f = case_sum (\<lambda>a. cpp_bind (g a) f) (\<lambda>b. cpp_bind (h b) f) x"
  "cpp_bind (case_option m k y) f = case_option (cpp_bind m f) (\<lambda>a. cpp_bind (k a) f) y"
  by (simp_all split: sum.splits option.splits)

subsection \<open>Lemmas: loops\<close>

lemma for_each_append: "for_each (xs @ ys) body s = cpp_bind (for_each xs body s) (for_each ys body)"
proof (induction xs arbitrary: s)
  case (Cons x xs)
  then show ?case by (cases "body x s") auto
qed simp

lemma for_each_single: "for_each [x] body = body x"
proof
  show "for_each [x] body s = body x s" for s by (cases "body x s") simp_all
qed

lemma for_each_pure:
  "(\<And>x s. x \<in> set xs \<Longrightarrow> body x s = Ret (f x s)) \<Longrightarrow> for_each xs body s = Ret (fold f xs s)"
  by (induction xs arbitrary: s) auto

lemma for_each_map: "for_each (map g xs) body s = for_each xs (\<lambda>x. body (g x)) s"
proof (induction xs arbitrary: s)
  case (Cons x xs)
  then show ?case by (cases "body (g x) s") auto
qed simp

lemma for_each_inv:
  assumes "for_each xs body s = Ret s'" and "P s"
    and "\<And>x s s'. x \<in> set xs \<Longrightarrow> P s \<Longrightarrow> body x s = Ret s' \<Longrightarrow> P s'"
  shows "P s'"
  using assms
proof (induction xs arbitrary: s)
  case (Cons x xs)
  then obtain t where "body x s = Ret t" "for_each xs body t = Ret s'" by (auto simp: cpp_bind_Ret_iff)
  with Cons show ?case by (metis list.set_intros)
qed simp

lemma for_each_total:
  assumes "P s" and "\<And>x s. x \<in> set xs \<Longrightarrow> P s \<Longrightarrow> \<exists>s'. body x s = Ret s' \<and> P s'"
  shows "\<exists>s'. for_each xs body s = Ret s' \<and> P s'"
  using assms
proof (induction xs arbitrary: s)
  case (Cons x xs)
  then obtain t where "body x s = Ret t" "P t" by force
  with Cons show ?case by auto
qed simp

text \<open>An invariant indexed by the number of iterations done, for loops over \<open>[a..<b]\<close>.\<close>

lemma for_each_checked:
  assumes "P s" and "\<And>x s. x \<in> set xs \<Longrightarrow> P s \<Longrightarrow> if ok x then \<exists>s'. body x s = Ret s' \<and> P s' else body x s = Undef"
  shows "if \<forall>x \<in> set xs. ok x then \<exists>s'. for_each xs body s = Ret s' \<and> P s' else for_each xs body s = Undef"
  using assms
proof (induction xs arbitrary: s)
  case (Cons x xs)
  show ?case
  proof (cases "ok x")
    case True
    then obtain t where "body x s = Ret t" "P t" using Cons.prems by (metis list.set_intros(1))
    with True Cons.IH [of t] Cons.prems(2) show ?thesis by auto
  next
    case False
    then have "body x s = Undef" using Cons.prems by (metis list.set_intros(1))
    with False show ?thesis by simp
  qed
qed simp

lemma for_each_upt_inv:
  assumes "a \<le> b" and "P a s"
    and "\<And>i s. a \<le> i \<Longrightarrow> i < b \<Longrightarrow> P i s \<Longrightarrow> \<exists>s'. body i s = Ret s' \<and> P (Suc i) s'"
  shows "\<exists>s'. for_each [a..<b] body s = Ret s' \<and> P b s'"
  using assms
proof (induction "b - a" arbitrary: a s)
  case 0
  then show ?case by simp
next
  case (Suc n)
  then have ab: "a < b" by simp
  with Suc.prems obtain t where t: "body a s = Ret t" "P (Suc a) t" by blast
  have "\<exists>s'. for_each [Suc a..<b] body t = Ret s' \<and> P b s'"
    using Suc.hyps(1) [of "Suc a" t] Suc.hyps(2) Suc.prems(3) ab t(2) by fastforce
  with t ab show ?case by (simp add: upt_conv_Cons)
qed

lemma unat_Suc_u32: "unat i < n \<Longrightarrow> n < 2 ^ 32 \<Longrightarrow> unat (i + 1 :: u32) = Suc (unat i)"
  by (simp add: unat_word_ariths)

lemma for_u32_from_bounded:
  "n < 2 ^ 32 \<Longrightarrow>
   (case for_u32_from n body i s of None \<Rightarrow> Diverge | Some r \<Rightarrow> r) = for_each [unat i..<n] body s"
proof (induction "n - unat i" arbitrary: i s)
  case 0
  then show ?case by (simp add: for_u32_from.simps)
next
  case (Suc k)
  then have lt: "unat i < n" by simp
  then have i': "unat (i + 1) = Suc (unat i)" using Suc.prems by (rule unat_Suc_u32)
  have k: "k = n - unat (i + 1)" using Suc.hyps(2) i' by simp
  show ?case
  proof (cases "body (unat i) s")
    case (Ret s')
    have "(case for_u32_from n body (i + 1) s' of None \<Rightarrow> Diverge | Some r \<Rightarrow> r) =
        for_each [Suc (unat i)..<n] body s'"
      using Suc.hyps(1) [OF k Suc.prems] by (simp only: i')
    with Ret lt show ?thesis
      by (subst for_u32_from.simps) (simp add: upt_conv_Cons)
  qed (use lt in \<open>simp_all add: for_u32_from.simps upt_conv_Cons\<close>)
qed

lemma for_u32_bounded: "n < 2 ^ 32 \<Longrightarrow> for_u32 n body s = for_each [0..<n] body s"
  using for_u32_from_bounded [of n body 0 s] by (simp add: for_u32_def)

lemma for_u32_from_inv:
  assumes ret: "for_u32_from n body i s = Some r" and "Q s"
    and "\<And>i s s'. i < n \<Longrightarrow> Q s \<Longrightarrow> body i s = Ret s' \<Longrightarrow> Q s'"
  shows "\<forall>s'. r = Ret s' \<longrightarrow> Q s'"
proof -
  let ?kept = "\<lambda>n (body :: nat \<Rightarrow> 'a \<Rightarrow> 'a cpp). \<forall>i s s'. i < n \<longrightarrow> Q s \<longrightarrow> body i s = Ret s' \<longrightarrow> Q s'"
  have "?kept n body \<longrightarrow> Q s \<longrightarrow> (\<forall>s'. r = Ret s' \<longrightarrow> Q s')"
  proof (rule for_u32_from.raw_induct
      [where P = "\<lambda>n body i s r. ?kept n body \<longrightarrow> Q s \<longrightarrow> (\<forall>s'. r = Ret s' \<longrightarrow> Q s')", OF _ ret])
    fix f n and body :: "nat \<Rightarrow> 'a \<Rightarrow> 'a cpp" and i :: u32 and s r
    assume IH: "\<And>n body i s r. f n body i s = Some r \<Longrightarrow> ?kept n body \<longrightarrow> Q s \<longrightarrow> (\<forall>s'. r = Ret s' \<longrightarrow> Q s')"
      and eq: "(if unat i < n
        then case body (unat i) s of Ret s' \<Rightarrow> f n body (i + 1) s' | Undef \<Rightarrow> Some Undef
          | Diverge \<Rightarrow> None | Exit c \<Rightarrow> Some (Exit c)
        else Some (Ret s)) = Some r"
    show "?kept n body \<longrightarrow> Q s \<longrightarrow> (\<forall>s'. r = Ret s' \<longrightarrow> Q s')"
    proof (intro impI)
      assume kept: "?kept n body" and Q: "Q s"
      show "\<forall>s'. r = Ret s' \<longrightarrow> Q s'"
      proof (cases "unat i < n")
        case True
        then show ?thesis
        proof (cases "body (unat i) s")
          case (Ret s1)
          then have "Q s1" using kept Q True by blast
          moreover have "f n body (i + 1) s1 = Some r" using eq True Ret by simp
          ultimately show ?thesis using IH kept by blast
        qed (use eq True in auto)
      qed (use eq Q in auto)
    qed
  qed
  then show ?thesis using assms(2,3) by blast
qed

lemma for_u32_inv:
  assumes "for_u32 n body s = Ret s'" and "Q s"
    and "\<And>i s s'. i < n \<Longrightarrow> Q s \<Longrightarrow> body i s = Ret s' \<Longrightarrow> Q s'"
  shows "Q s'"
proof -
  have "for_u32_from n body 0 s = Some (Ret s')"
    using assms(1) by (auto simp: for_u32_def split: option.splits)
  then have "\<forall>t. Ret s' = Ret t \<longrightarrow> Q t"
    by (rule for_u32_from_inv [where Q = Q]) (use assms(2,3) in auto)
  then show ?thesis by blast
qed

text \<open>With a bound of \<open>2 ^ 32\<close> or more the counter can never reach it.\<close>

lemma for_u32_from_never_done:
  assumes ret: "for_u32_from n body i s = Some r" and n: "2 ^ 32 \<le> n"
    and total: "\<And>i s. \<exists>s'. body i s = Ret s'"
  shows False
proof -
  have "n < 2 ^ 32 \<or> (\<exists>i s. \<forall>s'. body i s \<noteq> Ret s')"
  proof (rule for_u32_from.raw_induct
      [where P = "\<lambda>n body i s r. n < 2 ^ 32 \<or> (\<exists>i s. \<forall>s'. body i s \<noteq> Ret s')", OF _ ret])
    fix f n and body :: "nat \<Rightarrow> 'a \<Rightarrow> 'a cpp" and i :: u32 and s r
    assume IH: "\<And>n body i s r. f n body i s = Some r \<Longrightarrow>
        n < 2 ^ 32 \<or> (\<exists>i s. \<forall>s'. body i s \<noteq> Ret s')"
      and eq: "(if unat i < n
        then case body (unat i) s of Ret s' \<Rightarrow> f n body (i + 1) s' | Undef \<Rightarrow> Some Undef
          | Diverge \<Rightarrow> None | Exit c \<Rightarrow> Some (Exit c)
        else Some (Ret s)) = Some r"
    have "unat i < 2 ^ 32" using unsigned_less [of i] by simp
    then have "unat i < n \<or> n < 2 ^ 32" by linarith
    show "n < 2 ^ 32 \<or> (\<exists>i s. \<forall>s'. body i s \<noteq> Ret s')"
    proof (cases "\<exists>s'. body (unat i) s = Ret s'")
      case True
      with eq \<open>unat i < n \<or> n < 2 ^ 32\<close> show ?thesis using IH by (auto split: if_splits)
    next
      case False
      then show ?thesis by blast
    qed
  qed
  with n total show False by (metis not_less)
qed

lemma for_u32_diverges:
  assumes "2 ^ 32 \<le> n" and "\<And>i s. \<exists>s'. body i s = Ret s'"
  shows "for_u32 n body s = Diverge"
proof (cases "for_u32_from n body 0 s")
  case (Some r)
  then show ?thesis using for_u32_from_never_done [OF Some assms] by blast
qed (simp add: for_u32_def)

subsection \<open>Lemmas: lists\<close>

lemma take_Suc_snoc: "i < length xs \<Longrightarrow> take (Suc i) xs = take i xs @ [xs ! i]"
  by (rule take_Suc_conv_app_nth)

lemma fold_snoc_nth: "n \<le> length xs \<Longrightarrow> fold (\<lambda>i ys. ys @ [xs ! i]) [0..<n] ys = ys @ take n xs"
  by (induction n) (simp_all add: take_Suc_snoc)

lemma upt_split: "m < n \<Longrightarrow> [0..<n] = [0..<m] @ m # [Suc m..<n]"
  using upt_add_eq_append [of 0 m "n - m"] by (simp add: upt_conv_Cons)

lemma unat_of_nat_u32_mod: "unat (of_nat n :: u32) = n mod 2 ^ 32"
  by (simp add: unsigned_of_nat take_bit_eq_mod)

lemma unat_of_nat_u32: "n < 2 ^ 32 \<Longrightarrow> unat (of_nat n :: u32) = n"
  by (simp add: unsigned_of_nat take_bit_nat_eq_self)

lemma unat_of_nat_u64: "n < 2 ^ 64 \<Longrightarrow> unat (of_nat n :: u64) = n"
  by (simp add: unsigned_of_nat take_bit_nat_eq_self)

subsection \<open>Lemmas: maps\<close>

lemma map_at_upd [simp]: "map_at (m(k \<mapsto> v)) d k' = (if k' = k then v else map_at m d k')"
  by (simp add: map_at_def)

lemma map_at_None [simp]: "m k = None \<Longrightarrow> map_at m d k = d"
  by (simp add: map_at_def)

lemma map_at_Some [simp]: "m k = Some v \<Longrightarrow> map_at m d k = v"
  by (simp add: map_at_def)

lemma map_emplace_same [simp]: "map_emplace k v m k = Some (case m k of None \<Rightarrow> v | Some w \<Rightarrow> w)"
  by (auto simp: map_emplace_def)

lemma map_emplace_other [simp]: "k' \<noteq> k \<Longrightarrow> map_emplace k v m k' = m k'"
  by (simp add: map_emplace_def)

lemma map_at_emplace [simp]: "map_at (map_emplace k d m) d k' = map_at m d k'"
  by (simp add: map_at_def map_emplace_def)

lemma map_emplace_upd [simp]: "(map_emplace k v m)(k \<mapsto> w) = m(k \<mapsto> w)"
  by (simp add: map_emplace_def)

lemma dom_map_emplace [simp]: "dom (map_emplace k v m) = insert k (dom m)"
  by (auto simp: map_emplace_def)

lemma map_erase_apply [simp]: "map_erase k m k' = (if k' = k then None else m k')"
  by (simp add: map_erase_def)

lemma dom_map_erase [simp]: "dom (map_erase k m) = dom m - {k}"
  by (auto simp: map_erase_def)

lemma fold_map_erase: "fold map_erase ks m k = (if k \<in> set ks then None else m k)"
  by (induction ks arbitrary: m) auto

end
