(* ===== verification/Buffers.thy ===== *)
theory Buffers
  imports Prelude
begin

text \<open>
  \<^verbatim>\<open>BufferedReader\<close> (\<^verbatim>\<open>buffered_reader.cpp\<close>) cuts a byte stream into frames at a delimiter and
  hands each frame to a callback; \<^verbatim>\<open>BufferedWriter\<close> (\<^verbatim>\<open>buffered_writer.cpp\<close>) is the byte queue in
  front of a socket. The callback of a reader acts on a state the reader does not own, so it is an
  argument of \<open>br_read\<close>; the constructor fixes it once, and each owner passes the same one.
  A pair \<^verbatim>\<open>(const char *data, size_t size)\<close> is the list of the \<open>size\<close> bytes it spans.
  The locale \<open>byte_queue\<close> is what the socket code relies on of a writer.
\<close>

subsection \<open>BufferedReader\<close>

record BufferedReader =
  br_buffer :: bytes
  br_del :: char

definition br_new :: "char \<Rightarrow> BufferedReader" where
  "br_new del = \<lparr>br_buffer = [], br_del = del\<rparr>"

definition br_byte ::
  "(bytes \<Rightarrow> 's \<Rightarrow> 's cpp) \<Rightarrow> char \<Rightarrow> BufferedReader \<times> 's \<Rightarrow> (BufferedReader \<times> 's) cpp" where
  "br_byte call_back c rs =
     (case rs of (r, s) \<Rightarrow>
        if c \<noteq> br_del r then Ret (r\<lparr>br_buffer := br_buffer r @ [c]\<rparr>, s)
        else cpp_bind (call_back (br_buffer r) s) (\<lambda>s'. Ret (r\<lparr>br_buffer := []\<rparr>, s')))"

definition br_read ::
  "(bytes \<Rightarrow> 's \<Rightarrow> 's cpp) \<Rightarrow> bytes \<Rightarrow> BufferedReader \<times> 's \<Rightarrow> (BufferedReader \<times> 's) cpp" where
  "br_read call_back data rs = for_each data (br_byte call_back) rs"

text \<open>Specification: the complete frames of a stream and the bytes after the last delimiter.\<close>

fun split_frames :: "char \<Rightarrow> bytes \<Rightarrow> bytes \<Rightarrow> bytes list \<times> bytes" where
  "split_frames d acc [] = ([], acc)"
| "split_frames d acc (c # cs) =
     (if c = d then (let (fs, r) = split_frames d [] cs in (acc # fs, r))
      else split_frames d (acc @ [c]) cs)"

definition frame_stream :: "char \<Rightarrow> bytes list \<Rightarrow> bytes" where
  "frame_stream d fs = concat (map (\<lambda>f. f @ [d]) fs)"

subsection \<open>BufferedWriter\<close>

record BufferedWriter =
  bw_buffer :: bytes

definition bw_new :: BufferedWriter where
  "bw_new = \<lparr>bw_buffer = []\<rparr>"

definition bw_write :: "bytes \<Rightarrow> BufferedWriter \<Rightarrow> BufferedWriter cpp" where
  "bw_write msg_frame w =
     for_u32 (length msg_frame) (\<lambda>i w. Ret (w\<lparr>bw_buffer := bw_buffer w @ [msg_frame ! i]\<rparr>)) w"

definition bw_iread :: "nat \<Rightarrow> BufferedWriter \<Rightarrow> bytes \<Rightarrow> bytes cpp" where
  "bw_iread n w r_buffer =
     for_u32 n (\<lambda>i rb. cpp_bind (rd_at (bw_buffer w) i) (wr_at rb i)) r_buffer"

definition bw_clear :: "nat \<Rightarrow> BufferedWriter \<Rightarrow> BufferedWriter cpp" where
  "bw_clear n w =
     (if n \<le> length (bw_buffer w) then Ret (w\<lparr>bw_buffer := drop n (bw_buffer w)\<rparr>) else Undef)"

definition bw_size :: "BufferedWriter \<Rightarrow> nat" where
  "bw_size w = length (bw_buffer w)"

subsection \<open>Frames of a stream\<close>

lemma frame_stream_simps [simp]:
  "frame_stream d [] = []"
  "frame_stream d (f # fs) = f @ d # frame_stream d fs"
  by (simp_all add: frame_stream_def)

lemma split_frames_clean: "d \<notin> set f \<Longrightarrow> split_frames d acc (f @ cs) = split_frames d (acc @ f) cs"
  by (induction f arbitrary: acc) auto

lemma split_frames_stream:
  "(\<forall>f \<in> set fs. d \<notin> set f) \<Longrightarrow> d \<notin> set r \<Longrightarrow>
   split_frames d [] (frame_stream d fs @ r) = (fs, r)"
proof (induction fs)
  case Nil
  then show ?case using split_frames_clean [of d r "[]" "[]"] by simp
next
  case (Cons f fs)
  then show ?case by (simp add: split_frames_clean)
qed

lemma split_frames_sound:
  "split_frames d acc cs = (fs, r) \<Longrightarrow> d \<notin> set acc \<Longrightarrow>
   acc @ cs = frame_stream d fs @ r \<and> (\<forall>f \<in> set fs. d \<notin> set f) \<and> d \<notin> set r"
  by (induction d acc cs arbitrary: fs r rule: split_frames.induct)
    (auto split: if_splits prod.splits)

lemma length_frame_stream: "f \<in> set fs \<Longrightarrow> length f \<le> length (frame_stream d fs)"
  by (induction fs) auto

lemma split_frames_length:
  assumes "split_frames d acc cs = (fs, r)" and "d \<notin> set acc" and "f \<in> set fs"
  shows "length f \<le> length acc + length cs"
proof -
  have "acc @ cs = frame_stream d fs @ r" using split_frames_sound [OF assms(1,2)] by simp
  then have "length acc + length cs = length (frame_stream d fs) + length r"
    by (metis length_append)
  with length_frame_stream [OF assms(3), of d] show ?thesis by simp
qed

subsection \<open>The reader computes the frames\<close>

lemma br_read_Nil [simp]: "br_read cb [] rs = Ret rs"
  by (simp add: br_read_def)

lemma br_read_append: "br_read cb (xs @ ys) rs = cpp_bind (br_read cb xs rs) (br_read cb ys)"
proof -
  have "for_each ys (br_byte cb) = br_read cb ys" by (rule ext) (simp add: br_read_def)
  then show ?thesis by (simp add: br_read_def for_each_append)
qed

lemma br_read_chunks: "for_each chunks (br_read cb) rs = br_read cb (concat chunks) rs"
proof (induction chunks arbitrary: rs)
  case (Cons c cs)
  then have "for_each cs (br_read cb) = br_read cb (concat cs)" by (intro ext)
  then show ?case by (simp add: br_read_append)
qed simp

lemma br_read_frames:
  "br_read cb data (r, s) =
     (let (fs, rest) = split_frames (br_del r) (br_buffer r) data
      in cpp_bind (for_each fs cb s) (\<lambda>s'. Ret (r\<lparr>br_buffer := rest\<rparr>, s')))"
proof (induction data arbitrary: r s)
  case (Cons c cs)
  show ?case
  proof (cases "c = br_del r")
    case True
    obtain fs rest where fr: "split_frames (br_del r) [] cs = (fs, rest)" by fastforce
    from True have "br_read cb (c # cs) (r, s) =
        cpp_bind (cb (br_buffer r) s) (\<lambda>s'. br_read cb cs (r\<lparr>br_buffer := []\<rparr>, s'))"
      by (simp add: br_read_def br_byte_def cpp_bind_assoc)
    also have "\<dots> = cpp_bind (cb (br_buffer r) s)
        (\<lambda>s'. cpp_bind (for_each fs cb s') (\<lambda>s'. Ret (r\<lparr>br_buffer := rest\<rparr>, s')))"
      by (simp add: Cons.IH fr)
    finally show ?thesis using True fr by (simp add: cpp_bind_assoc)
  next
    case False
    then have "br_read cb (c # cs) (r, s) = br_read cb cs (r\<lparr>br_buffer := br_buffer r @ [c]\<rparr>, s)"
      by (simp add: br_read_def br_byte_def)
    with False show ?thesis by (simp add: Cons.IH)
  qed
qed simp

definition reader_ok :: "char \<Rightarrow> BufferedReader \<Rightarrow> bool" where
  "reader_ok d r \<longleftrightarrow> br_del r = d \<and> d \<notin> set (br_buffer r)"

lemma reader_ok_new [simp]: "reader_ok d (br_new d)"
  by (simp add: reader_ok_def br_new_def)

lemma br_read_inv:
  assumes "br_read cb data (r, s) = Ret (r', s')" and "reader_ok d r" and "P s"
    and "\<And>f s s'. P s \<Longrightarrow> cb f s = Ret s' \<Longrightarrow> P s'"
  shows "reader_ok d r' \<and> P s'"
proof -
  let ?Q = "\<lambda>(r, s). reader_ok d r \<and> P s"
  have "?Q (r', s')"
  proof (rule for_each_inv [of data "br_byte cb" "(r, s)" "(r', s')" ?Q])
    show "for_each data (br_byte cb) (r, s) = Ret (r', s')" using assms(1) by (simp add: br_read_def)
    show "?Q rs'" if "?Q rs" "br_byte cb c rs = Ret rs'" for c rs rs'
      using that assms(4)
      by (auto simp: br_byte_def reader_ok_def cpp_bind_Ret_iff split: prod.splits if_splits)
  qed (use assms in simp)
  then show ?thesis by simp
qed

subsection \<open>The contract of a byte queue\<close>

locale byte_queue =
  fixes contents :: "'q \<Rightarrow> bytes"
    and put :: "bytes \<Rightarrow> 'q \<Rightarrow> 'q cpp"
    and peek :: "nat \<Rightarrow> 'q \<Rightarrow> bytes \<Rightarrow> bytes cpp"
    and discard :: "nat \<Rightarrow> 'q \<Rightarrow> 'q cpp"
    and len :: "'q \<Rightarrow> nat"
  assumes put_contents:
      "length xs < 2 ^ 32 \<Longrightarrow> \<exists>q'. put xs q = Ret q' \<and> contents q' = contents q @ xs"
    and peek_contents:
      "n < 2 ^ 32 \<Longrightarrow> n \<le> length (contents q) \<Longrightarrow> length rb = n \<Longrightarrow>
       peek n q rb = Ret (take n (contents q))"
    and discard_contents:
      "n \<le> length (contents q) \<Longrightarrow> \<exists>q'. discard n q = Ret q' \<and> contents q' = drop n (contents q)"
    and len_contents: "len q = length (contents q)"
begin

text \<open>What is peeked and then discarded is exactly the front of the queue.\<close>

lemma peek_discard:
  assumes "n < 2 ^ 32" and "n \<le> len q" and "length rb = n"
  shows "\<exists>xs q'. peek n q rb = Ret xs \<and> discard n q = Ret q' \<and> contents q = xs @ contents q'
           \<and> length xs = n"
proof -
  obtain q' where "discard n q = Ret q'" "contents q' = drop n (contents q)"
    using discard_contents [of n q] assms by (auto simp: len_contents)
  then show ?thesis using peek_contents [of n q rb] assms by (simp add: len_contents)
qed

text \<open>Queues are first in, first out: what was put last comes after everything put before.\<close>

lemma put_put:
  assumes "length xs < 2 ^ 32" and "length ys < 2 ^ 32"
  shows "\<exists>q'. cpp_bind (put xs q) (put ys) = Ret q' \<and> contents q' = contents q @ xs @ ys"
proof -
  obtain q1 where q1: "put xs q = Ret q1" "contents q1 = contents q @ xs"
    using put_contents [OF assms(1), of q] by blast
  then show ?thesis using put_contents [OF assms(2), of q1] by auto
qed

lemma put_len: "length xs < 2 ^ 32 \<Longrightarrow> \<exists>q'. put xs q = Ret q' \<and> len q' = len q + length xs"
  using put_contents [of xs q] by (auto simp: len_contents)

end

subsection \<open>The writer meets the contract\<close>

lemma bw_write_ok:
  assumes "length xs < 2 ^ 32"
  shows "bw_write xs w = Ret (w\<lparr>bw_buffer := bw_buffer w @ xs\<rparr>)"
proof -
  have "for_u32 (length xs) (\<lambda>i w. Ret (w\<lparr>bw_buffer := bw_buffer w @ [xs ! i]\<rparr>)) w =
      Ret (fold (\<lambda>i w. w\<lparr>bw_buffer := bw_buffer w @ [xs ! i]\<rparr>) [0..<length xs] w)"
    using assms by (simp add: for_u32_bounded for_each_pure)
  moreover have "n \<le> length xs \<Longrightarrow>
      fold (\<lambda>i w. w\<lparr>bw_buffer := bw_buffer w @ [xs ! i]\<rparr>) [0..<n] w =
      w\<lparr>bw_buffer := bw_buffer w @ take n xs\<rparr>" for n
    by (induction n) (simp_all add: take_Suc_snoc)
  ultimately show ?thesis by (simp add: bw_write_def)
qed

lemma bw_iread_ok:
  assumes "n < 2 ^ 32" "n \<le> length (bw_buffer w)" "n \<le> length rb"
  shows "bw_iread n w rb = Ret (take n (bw_buffer w) @ drop n rb)"
proof -
  let ?P = "\<lambda>i ys. ys = take i (bw_buffer w) @ drop i rb"
  have "\<exists>ys. for_each [0..<n] (\<lambda>i rb. cpp_bind (rd_at (bw_buffer w) i) (wr_at rb i)) rb = Ret ys
      \<and> ?P n ys"
  proof (rule for_each_upt_inv)
    fix i ys
    assume "i < n" "?P i ys"
    moreover from this assms have "drop i rb = rb ! i # drop (Suc i) rb"
      by (simp add: Cons_nth_drop_Suc)
    ultimately show "\<exists>zs. cpp_bind (rd_at (bw_buffer w) i) (wr_at ys i) = Ret zs \<and> ?P (Suc i) zs"
      using assms by (simp add: take_Suc_snoc list_update_append)
  qed simp_all
  with assms show ?thesis by (simp add: bw_iread_def for_u32_bounded)
qed

interpretation bwq: byte_queue bw_buffer bw_write bw_iread bw_clear bw_size
  by unfold_locales (auto simp: bw_write_ok bw_iread_ok bw_clear_def bw_size_def)

lemma bw_new_empty [simp]: "bw_buffer bw_new = []"
  by (simp add: bw_new_def)

lemma bw_clear_ok:
  "n \<le> length (bw_buffer w) \<Longrightarrow> bw_clear n w = Ret (w\<lparr>bw_buffer := drop n (bw_buffer w)\<rparr>)"
  by (simp add: bw_clear_def)

subsection \<open>Properties\<close>

text \<open>
  C15: a \<^verbatim>\<open>BufferedReader\<close> may be fed its stream in any chunks. Whatever the chunks, the reader calls
  the callback once for each complete frame of the bytes it already held followed by the
  concatenated chunks, in order, stops early only where a callback does, and keeps exactly the
  bytes after the last delimiter; the frames and the kept bytes are free of the delimiter and put
  together again they are the stream.
\<close>

theorem reader_delivers_frames:
  assumes "br_del r \<notin> set (br_buffer r)"
  shows "\<exists>fs rest. br_buffer r @ concat chunks = frame_stream (br_del r) fs @ rest
     \<and> (\<forall>f \<in> set fs. br_del r \<notin> set f) \<and> br_del r \<notin> set rest
     \<and> for_each chunks (br_read cb) (r, s) =
         cpp_bind (for_each fs cb s) (\<lambda>s'. Ret (r\<lparr>br_buffer := rest\<rparr>, s'))"
proof -
  obtain fs rest where fr: "split_frames (br_del r) (br_buffer r) (concat chunks) = (fs, rest)"
    by fastforce
  from split_frames_sound [OF fr assms] fr show ?thesis
    by (intro exI [of _ fs] exI [of _ rest]) (simp add: br_read_chunks br_read_frames)
qed

theorem reader_delivers_frames_witness:
  "\<exists>fs rest. ''ab'' @ concat [''c|d'', ''|e''] = frame_stream CHR ''|'' fs @ rest
     \<and> (\<forall>f \<in> set fs. CHR ''|'' \<notin> set f) \<and> CHR ''|'' \<notin> set rest
     \<and> for_each [''c|d'', ''|e''] (br_read (\<lambda>f log. Ret (log @ [f])))
         (\<lparr>br_buffer = ''ab'', br_del = CHR ''|''\<rparr>, []) =
         cpp_bind (for_each fs (\<lambda>f log. Ret (log @ [f])) [])
           (\<lambda>s'. Ret (\<lparr>br_buffer = rest, br_del = CHR ''|''\<rparr>, s'))"
  using reader_delivers_frames [of "\<lparr>br_buffer = ''ab'', br_del = CHR ''|''\<rparr>"
      "[''c|d'', ''|e'']" "\<lambda>f log. Ret (log @ [f])" "[]"] by simp

text \<open>
  \<^verbatim>\<open>BufferedWriter::write\<close> appends the whole message, unless it has \<open>2 ^ 32\<close> bytes or more: then
  the 32 bit loop counter wraps and the call never returns.
\<close>

lemma bw_write_result:
  "bw_write msg w = (if length msg < 2 ^ 32 then Ret (w\<lparr>bw_buffer := bw_buffer w @ msg\<rparr>) else Diverge)"
proof (cases "length msg < 2 ^ 32")
  case False
  then show ?thesis by (simp add: bw_write_def for_u32_diverges)
qed (simp add: bw_write_ok)

text \<open>
  \<^verbatim>\<open>BufferedWriter\<close> is a queue. After a \<^verbatim>\<open>write\<close>, reading \<open>n\<close> bytes with \<^verbatim>\<open>iread\<close> and
  removing them with \<^verbatim>\<open>clear\<close> is defined for every \<open>n\<close> up to \<^verbatim>\<open>size()\<close>, and what was read
  followed by what is left is the old contents followed by what was written.
\<close>

lemma bw_fifo:
  assumes "length msg < 2 ^ 32" and "n \<le> bw_size w + length msg" and "n < 2 ^ 32" and "length rb = n"
  shows "\<exists>w1 xs w2. bw_write msg w = Ret w1 \<and> bw_iread n w1 rb = Ret xs \<and> bw_clear n w1 = Ret w2
     \<and> length xs = n \<and> xs @ bw_buffer w2 = bw_buffer w @ msg"
proof -
  obtain w1 where w1: "bw_write msg w = Ret w1" "bw_buffer w1 = bw_buffer w @ msg"
    using bwq.put_contents [OF assms(1)] by blast
  then have "n \<le> bw_size w1" using assms(2) by (simp add: bw_size_def)
  from bwq.peek_discard [OF assms(3) this assms(4)] w1 show ?thesis by auto
qed

end
