(* ===== verification/Exec.thy ===== *)
theory Exec
  imports Buffers
begin

text \<open>
  \<^verbatim>\<open>Utils::exec\<close> (\<^verbatim>\<open>utils.cpp\<close>): run a command, read its output with \<^verbatim>\<open>fgets\<close> in pieces of at most 127
  bytes and collect the lines with a \<^verbatim>\<open>BufferedReader\<close>. The command is a parameter: whether
  \<^verbatim>\<open>popen\<close> succeeded and the bytes the pipe delivers.
\<close>

subsection \<open>Definitions\<close>

definition NL :: char where
  "NL = CHR 0x0A"

text \<open>
  \<^verbatim>\<open>fgets\<close> with room for \<open>k\<close> bytes: the bytes stored, the rest of the stream, and whether the end of
  the stream was met.
\<close>

fun fgets_take :: "nat \<Rightarrow> bytes \<Rightarrow> bytes \<times> bytes \<times> bool" where
  "fgets_take 0 s = ([], s, False)"
| "fgets_take (Suc k) [] = ([], [], True)"
| "fgets_take (Suc k) (c # cs) =
     (if c = NL then ([c], cs, False)
      else (case fgets_take k cs of (x, r, e) \<Rightarrow> (c # x, r, e)))"

lemma fgets_take_append: "fgets_take k s = (x, r, e) \<Longrightarrow> s = x @ r"
  by (induction k s arbitrary: x r e rule: fgets_take.induct) (auto split: if_splits prod.splits)

lemma fgets_take_eof: "fgets_take k s = (x, r, True) \<Longrightarrow> r = []"
  by (induction k s arbitrary: x r rule: fgets_take.induct) (auto split: if_splits prod.splits)

lemma fgets_take_progress: "0 < k \<Longrightarrow> fgets_take k s = (x, r, False) \<Longrightarrow> length r < length s"
  using fgets_take_append [of k s x r False]
  by (cases k; cases s) (auto split: if_splits prod.splits)

lemma fgets_127_progress: "(x, r, False) = fgets_take 127 s \<Longrightarrow> length r < length s"
  by (rule fgets_take_progress [of 127 s x r]) simp_all

text \<open>\<^verbatim>\<open>r_lines.push_back(...)\<close>, the callback of the reader.\<close>

definition push_line :: "bytes \<Rightarrow> bytes list \<Rightarrow> bytes list cpp" where
  "push_line line r_lines = Ret (r_lines @ [line])"

text \<open>
  The loop \<^verbatim>\<open>while(!feof(...))\<close>: when \<^verbatim>\<open>fgets\<close> stored something, its length up to the first zero byte
  is computed and the piece given to the reader.
\<close>

function exec_loop :: "bytes \<Rightarrow> BufferedReader \<times> bytes list \<Rightarrow> (BufferedReader \<times> bytes list) cpp" where
  "exec_loop s st =
     (case fgets_take 127 s of (x, r, e) \<Rightarrow>
        cpp_bind (if x = [] then Ret st else br_read push_line (takeWhile (\<lambda>c. c \<noteq> CHR 0x00) x) st)
          (\<lambda>st'. if e then Ret st' else exec_loop r st'))"
  by pat_completeness auto
termination
  by (relation "measure (\<lambda>(s, st). length s)")
    (auto dest: fgets_127_progress)

declare exec_loop.simps [simp del]

text \<open>
  When \<^verbatim>\<open>popen\<close> fails the error is logged, and then the \<^verbatim>\<open>shared_ptr\<close>, which owns the null pointer, calls
  \<^verbatim>\<open>pclose(NULL)\<close> as it goes out of scope.
\<close>

definition exec :: "bool \<Rightarrow> bytes \<Rightarrow> bytes list cpp" where
  "exec popen_ok output =
     (if \<not> popen_ok then Undef
      else cpp_bind (exec_loop output (br_new NL, [])) (\<lambda>(br, r_lines). Ret r_lines))"

subsection \<open>The pieces are the output\<close>

lemma exec_loop_reads: "CHR 0x00 \<notin> set s \<Longrightarrow> exec_loop s st = br_read push_line s st"
proof (induction "length s" arbitrary: s st rule: less_induct)
  case less
  obtain x r e where f: "fgets_take 127 s = (x, r, e)" by (metis prod_cases3)
  then have s: "s = x @ r" by (rule fgets_take_append)
  with less.prems have tw: "takeWhile (\<lambda>c. c \<noteq> CHR 0x00) x = x" and r0: "CHR 0x00 \<notin> set r"
    by (auto simp: takeWhile_eq_all_conv)
  have eq: "exec_loop s st =
      cpp_bind (br_read push_line x st) (\<lambda>st'. if e then Ret st' else exec_loop r st')"
    by (subst exec_loop.simps) (simp add: f tw)
  show ?case
  proof (cases e)
    case True
    with f have "r = []" by (auto dest: fgets_take_eof)
    with True s show ?thesis unfolding eq by simp
  next
    case False
    with f have "length r < length s" by (auto dest: fgets_take_progress [rotated])
    then have "exec_loop r = br_read push_line r" using less.hyps r0 by blast
    with False s show ?thesis unfolding eq by (simp add: br_read_append)
  qed
qed

lemma push_lines: "for_each fs push_line ls = Ret (ls @ fs)"
  by (induction fs arbitrary: ls) (simp_all add: push_line_def)

subsection \<open>Properties\<close>

text \<open>
  C33: \<^verbatim>\<open>exec\<close> returns exactly the lines of the command's output, however long they are. Output without
  zero bytes is a sequence of lines, each ended by a newline, and a rest without newline; the lines
  are returned in order, and the rest (a last line without newline) is not.
\<close>

theorem exec_returns_lines:
  assumes "CHR 0x00 \<notin> set (frame_stream NL ls @ rest)"
    and "\<forall>l \<in> set ls. NL \<notin> set l" and "NL \<notin> set rest"
  shows "exec True (frame_stream NL ls @ rest) = Ret ls"
proof -
  have "split_frames NL [] (frame_stream NL ls @ rest) = (ls, rest)"
    using assms(2,3) by (rule split_frames_stream)
  then show ?thesis
    using assms(1) by (simp add: exec_def exec_loop_reads br_read_frames br_new_def push_lines)
qed

theorem exec_returns_lines_witness:
  "exec True (''hello'' @ NL # ''world'' @ NL # ''lost'') = Ret [''hello'', ''world'']"
  using exec_returns_lines [of "[''hello'', ''world'']" "''lost''"] by (simp add: NL_def)

end
