(* ===== verification/Compare.thy ===== *)
theory Compare
  imports Prelude
begin

text \<open>
  The two overloads of \<^verbatim>\<open>Utils::compare\<close> (\<^verbatim>\<open>utils.cpp\<close>) on IEEE 754 numbers. A finite number is an
  integer, in units of the least positive number of its format (\<open>2 ^ (- 149)\<close> for \<^verbatim>\<open>float\<close>,
  \<open>2 ^ (- 1074)\<close> for \<^verbatim>\<open>double\<close>), so the difference of two finite numbers is exact until it is
  rounded, to nearest with ties to even. The two zeros are one number: no comparison tells them
  apart. \<^verbatim>\<open>std::abs\<close> is the floating point overload.
\<close>

subsection \<open>Floating point numbers\<close>

datatype fl = NaN | NInf | Fin int | PInf

record fl_format =
  precision :: nat
  range_bits :: nat

definition binary32 :: fl_format where
  "binary32 = \<lparr>precision = 24, range_bits = 277\<rparr>"

definition binary64 :: fl_format where
  "binary64 = \<lparr>precision = 53, range_bits = 2098\<rparr>"

fun bits :: "nat \<Rightarrow> nat" where
  "bits n = (if n = 0 then 0 else Suc (bits (n div 2)))"

declare bits.simps [simp del]

text \<open>The integer nearest to \<open>n / 2 ^ k\<close>, the even one of two.\<close>

definition nearest_even :: "nat \<Rightarrow> nat \<Rightarrow> nat" where
  "nearest_even n k =
     (let q = n div 2 ^ k; r = n mod 2 ^ k
      in if 2 * r < 2 ^ k \<or> 2 * r = 2 ^ k \<and> even q then q else Suc q)"

definition round_mag :: "fl_format \<Rightarrow> nat \<Rightarrow> nat" where
  "round_mag f n = (let k = bits n - precision f in nearest_even n k * 2 ^ k)"

definition round_fl :: "fl_format \<Rightarrow> int \<Rightarrow> fl" where
  "round_fl f n =
     (let m = round_mag f (nat \<bar>n\<bar>)
      in if m < 2 ^ range_bits f then Fin (sgn n * int m) else if n < 0 then NInf else PInf)"

text \<open>Subtraction, absolute value and \<open><\<close> of C++.\<close>

fun fl_sub :: "fl_format \<Rightarrow> fl \<Rightarrow> fl \<Rightarrow> fl" where
  "fl_sub f (Fin a) (Fin b) = round_fl f (a - b)"
| "fl_sub f NaN y = NaN"
| "fl_sub f x NaN = NaN"
| "fl_sub f PInf PInf = NaN"
| "fl_sub f NInf NInf = NaN"
| "fl_sub f PInf y = PInf"
| "fl_sub f NInf y = NInf"
| "fl_sub f (Fin a) PInf = NInf"
| "fl_sub f (Fin a) NInf = PInf"

fun fl_abs :: "fl \<Rightarrow> fl" where
  "fl_abs (Fin a) = Fin \<bar>a\<bar>"
| "fl_abs NInf = PInf"
| "fl_abs x = x"

fun fl_less :: "fl \<Rightarrow> fl \<Rightarrow> bool" where
  "fl_less (Fin a) (Fin b) = (a < b)"
| "fl_less NInf (Fin b) = True"
| "fl_less NInf PInf = True"
| "fl_less (Fin a) PInf = True"
| "fl_less x y = False"

text \<open>The operators of C++ on these numbers.\<close>

instantiation fl :: "{ord, abs}"
begin

definition less_fl_def [simp]: "a < b \<longleftrightarrow> fl_less a b"
definition less_eq_fl_def [simp]: "a \<le> b \<longleftrightarrow> fl_less a b \<or> a = b \<and> a \<noteq> NaN"
definition abs_fl_def [simp]: "\<bar>a\<bar> = fl_abs a"

instance ..

end

text \<open>The numbers of a format: a significand of at most \<^term>\<open>precision f\<close> bits, and no overflow.\<close>

fun in_format :: "fl_format \<Rightarrow> fl \<Rightarrow> bool" where
  "in_format f (Fin a) = (2 ^ (bits (nat \<bar>a\<bar>) - precision f) dvd a \<and> \<bar>a\<bar> < 2 ^ range_bits f)"
| "in_format f x = True"

subsection \<open>The comparisons\<close>

text \<open>The value of the literal \<^verbatim>\<open>0.0000001\<close> as a \<^verbatim>\<open>float\<close>, and of \<^verbatim>\<open>0.0000000000000001\<close> as a \<^verbatim>\<open>double\<close>.\<close>

definition eps_float :: int where
  "eps_float = 14073749 * 2 ^ 102"

definition eps_double :: int where
  "eps_double = 8112963841460668 * 2 ^ 968"

definition compare_float :: "fl \<Rightarrow> fl \<Rightarrow> int" where
  "compare_float a b =
     (let epsilon = Fin eps_float
      in if \<bar>fl_sub binary32 a b\<bar> > epsilon
         then if a < b then - 1 else 1
         else 0)"

definition compare_double :: "fl \<Rightarrow> fl \<Rightarrow> int" where
  "compare_double a b =
     (let epsilon = Fin eps_double
      in if \<bar>fl_sub binary64 a b\<bar> > epsilon
         then if a < b then - 1 else 1
         else 0)"

text \<open>Both literals are rounded to the nearest number of their format.\<close>

lemma eps_float_nearest: "2 * \<bar>eps_float * 10 ^ 7 - 2 ^ 149\<bar> \<le> 2 ^ 102 * 10 ^ 7"
  by (simp add: eps_float_def)

lemma eps_double_nearest: "2 * \<bar>eps_double * 10 ^ 16 - 2 ^ 1074\<bar> \<le> 2 ^ 968 * 10 ^ 16"
  by (simp add: eps_double_def)

subsection \<open>Rounding\<close>

lemma pow2_between: "(2 :: nat) ^ a \<le> n \<Longrightarrow> n < 2 ^ b \<Longrightarrow> a < b"
  by (rule power_less_imp_less_exp [of 2]) (simp, erule (1) le_less_trans)

lemma bits_bounds: "0 < n \<Longrightarrow> 2 ^ (bits n - 1) \<le> n \<and> n < 2 ^ bits n"
proof (induction n rule: bits.induct)
  case (1 n)
  show ?case
  proof (cases "n = 1")
    case True
    then show ?thesis by (simp add: bits.simps)
  next
    case False
    with 1 have "2 ^ (bits (n div 2) - 1) \<le> n div 2" "n div 2 < 2 ^ bits (n div 2)" by auto
    moreover obtain b where "bits (n div 2) = Suc b" using 1(2) False by (simp add: bits.simps [of "n div 2"])
    ultimately show ?thesis using 1(2) by (auto simp: bits.simps [of n])
  qed
qed

lemma bits_eq: "2 ^ j \<le> n \<Longrightarrow> n < 2 ^ Suc j \<Longrightarrow> bits n = Suc j"
proof -
  assume n: "2 ^ j \<le> n" "n < 2 ^ Suc j"
  then have "0 < n" by (cases n) auto
  then have b: "2 ^ (bits n - 1) \<le> n" "n < 2 ^ bits n" using bits_bounds by blast+
  from pow2_between [OF n(1) b(2)] pow2_between [OF b(1) n(2)] show ?thesis by simp
qed

lemma nearest_even_bounds:
  "a * 2 ^ k \<le> n \<Longrightarrow> a \<le> nearest_even n k"
  "n \<le> b * 2 ^ k \<Longrightarrow> nearest_even n k \<le> b"
proof -
  assume "a * 2 ^ k \<le> n"
  then have "a \<le> n div 2 ^ k" by (simp add: less_eq_div_iff_mult_less_eq)
  then show "a \<le> nearest_even n k" by (simp add: nearest_even_def Let_def)
next
  assume n: "n \<le> b * 2 ^ k"
  show "nearest_even n k \<le> b"
  proof (cases "n = b * 2 ^ k")
    case False
    then have "n div 2 ^ k < b" using n by (simp add: div_less_iff_less_mult)
    then show ?thesis by (simp add: nearest_even_def Let_def)
  qed (simp add: nearest_even_def)
qed

lemma round_binade:
  assumes "2 ^ j \<le> n" and "n < 2 ^ Suc j" and "0 < precision f"
  shows "2 ^ j \<le> round_mag f n \<and> round_mag f n \<le> 2 ^ Suc j"
proof -
  let ?k = "Suc j - precision f"
  have j: "(2 :: nat) ^ j = 2 ^ (j - ?k) * 2 ^ ?k" using assms(3) by (simp flip: power_add)
  have "2 ^ (j - ?k) \<le> nearest_even n ?k" using nearest_even_bounds(1) assms(1) j by metis
  moreover have "nearest_even n ?k \<le> 2 * 2 ^ (j - ?k)"
    using nearest_even_bounds(2) [of n "2 * 2 ^ (j - ?k)" ?k] assms(2) j by simp
  ultimately have "2 ^ (j - ?k) * 2 ^ ?k \<le> nearest_even n ?k * 2 ^ ?k
      \<and> nearest_even n ?k * 2 ^ ?k \<le> 2 * 2 ^ (j - ?k) * 2 ^ ?k" using mult_le_mono1 by blast
  moreover have "round_mag f n = nearest_even n ?k * 2 ^ ?k" using bits_eq [OF assms(1,2)] by (simp add: round_mag_def Let_def)
  ultimately show ?thesis by (simp only: j power_Suc mult.assoc)
qed

lemma binade: "0 < n \<Longrightarrow> \<exists>i. bits n = Suc i \<and> 2 ^ i \<le> n \<and> n < 2 ^ Suc i"
proof -
  assume "0 < n"
  with bits_bounds [OF this] show ?thesis by (cases "bits n") auto
qed

lemma round_below:
  assumes "n < 2 ^ j" and "0 < precision f"
  shows "round_mag f n \<le> 2 ^ j"
proof (cases "n = 0")
  case False
  then obtain i where i: "2 ^ i \<le> n" "n < 2 ^ Suc i" using binade by blast
  from pow2_between [OF i(1) assms(1)] have "(2 :: nat) ^ Suc i \<le> 2 ^ j" by (intro power_increasing) auto
  with round_binade [OF i assms(2)] show ?thesis by (blast intro: order_trans)
qed (simp add: round_mag_def nearest_even_def)

lemma round_above:
  assumes "2 ^ j \<le> n" and "0 < precision f"
  shows "2 ^ j \<le> round_mag f n"
proof -
  have "0 < n" using assms(1) by (cases n) auto
  then obtain i where i: "2 ^ i \<le> n" "n < 2 ^ Suc i" using binade by blast
  from pow2_between [OF assms(1) i(2)] have "(2 :: nat) ^ j \<le> 2 ^ i" by (intro power_increasing) auto
  with round_binade [OF i assms(2)] show ?thesis by (blast intro: order_trans)
qed

lemma nearest_even_exceeds:
  "m < nearest_even n (Suc h) \<longleftrightarrow> m * 2 ^ Suc h + 2 ^ h < n \<or> odd m \<and> n = m * 2 ^ Suc h + 2 ^ h"
proof -
  let ?q = "n div 2 ^ Suc h" and ?r = "n mod 2 ^ Suc h" and ?e = "m * 2 ^ Suc h"
  have n: "n = ?q * 2 ^ Suc h + ?r" "?r < 2 ^ Suc h" by (simp_all add: div_mult_mod_eq)
  have half: "(2 :: nat) ^ Suc h = 2 * 2 ^ h" "0 < (2 :: nat) ^ h" by simp_all
  have "m < nearest_even n (Suc h) \<longleftrightarrow> m < ?q \<or> m = ?q \<and> (2 ^ h < ?r \<or> ?r = 2 ^ h \<and> odd m)"
    by (auto simp: nearest_even_def Let_def half(1) less_Suc_eq)
  also have "\<dots> \<longleftrightarrow> ?e + 2 ^ h < n \<or> odd m \<and> n = ?e + 2 ^ h"
  proof (cases m ?q rule: linorder_cases)
    case less
    then have "Suc m * 2 ^ Suc h \<le> ?q * 2 ^ Suc h" by (intro mult_le_mono1) simp
    then have "?e + 2 ^ Suc h \<le> n" using n(1) by simp
    with less half show ?thesis by linarith
  next
    case greater
    then have "Suc ?q * 2 ^ Suc h \<le> ?e" by (intro mult_le_mono1) simp
    then have "n < ?e" using n unfolding mult_Suc by linarith
    with greater show ?thesis by linarith
  next
    case equal
    then have "n = ?e + ?r" using n(1) by simp
    with equal show ?thesis by auto
  qed
  finally show ?thesis .
qed

text \<open>When a rounded number exceeds the number \<open>m * 2 ^ Suc h\<close> of the format.\<close>

lemma round_exceeds:
  assumes p: "precision f = Suc p" and m: "2 ^ p \<le> m" "m < 2 ^ Suc p"
  shows "m * 2 ^ Suc h < round_mag f n \<longleftrightarrow> m * 2 ^ Suc h + 2 ^ h < n \<or> odd m \<and> n = m * 2 ^ Suc h + 2 ^ h"
proof -
  let ?j = "p + Suc h" and ?e = "m * 2 ^ Suc h"
  have lo: "2 ^ ?j \<le> ?e" using m(1) by (simp add: power_add)
  have "Suc m * 2 ^ Suc h \<le> 2 ^ Suc p * 2 ^ Suc h" using m(2) by (intro mult_le_mono1) simp
  then have hi: "?e + 2 ^ Suc h \<le> 2 ^ Suc ?j" by (simp add: power_add)
  have half: "(2 :: nat) ^ Suc h = 2 * 2 ^ h" "0 < (2 :: nat) ^ h" by simp_all
  consider "n < 2 ^ ?j" | "2 ^ ?j \<le> n" "n < 2 ^ Suc ?j" | "2 ^ Suc ?j \<le> n" by linarith
  then show ?thesis
  proof cases
    case 1
    with round_below [OF 1, of f] p lo show ?thesis by linarith
  next
    case 2
    have "round_mag f n = nearest_even n (Suc h) * 2 ^ Suc h" using bits_eq [OF 2] p by (simp add: round_mag_def)
    then have "?e < round_mag f n \<longleftrightarrow> m < nearest_even n (Suc h)" by simp
    then show ?thesis by (simp only: nearest_even_exceeds)
  next
    case 3
    with round_above [OF 3, of f] p hi half show ?thesis by linarith
  qed
qed

subsection \<open>What the comparisons decide\<close>

lemma sgn_parts: "sgn (n :: int) * int (nat \<bar>n\<bar>) = n" "\<bar>sgn n * int m\<bar> = (if n = 0 then 0 else int m)"
  by (auto simp: sgn_if abs_mult)

text \<open>The test \<open>std::abs(a - b) > epsilon\<close> on finite numbers.\<close>

lemma sub_exceeds:
  assumes "int e < 2 ^ range_bits f"
  shows "fl_less (Fin (int e)) (fl_abs (fl_sub f (Fin a) (Fin b))) \<longleftrightarrow> e < round_mag f (nat \<bar>a - b\<bar>)"
proof -
  have "round_mag f 0 = 0" by (simp add: round_mag_def nearest_even_def)
  moreover have "e < m" if "\<not> m < 2 ^ range_bits f" for m
    using that assms by (metis leI less_le_trans of_nat_less_iff of_nat_numeral of_nat_power)
  ultimately show ?thesis by (auto simp: round_fl_def Let_def sgn_parts)
qed

lemma compare_float_finite:
  "compare_float (Fin a) (Fin b) = (if \<bar>a - b\<bar> < eps_float + 2 ^ 101 then 0 else sgn (a - b))"
proof -
  let ?e = "14073749 * 2 ^ Suc 101 :: nat"
  have "int ?e < 2 ^ range_bits binary32" by (simp add: binary32_def)
  then have "fl_less (Fin (int ?e)) (fl_abs (fl_sub binary32 (Fin a) (Fin b))) \<longleftrightarrow> ?e < round_mag binary32 (nat \<bar>a - b\<bar>)"
    by (rule sub_exceeds)
  also have "\<dots> \<longleftrightarrow> ?e + 2 ^ 101 < nat \<bar>a - b\<bar> \<or> odd (14073749 :: nat) \<and> nat \<bar>a - b\<bar> = ?e + 2 ^ 101"
    by (rule round_exceeds [where p = 23]) (simp_all add: binary32_def)
  also have "\<dots> \<longleftrightarrow> \<not> \<bar>a - b\<bar> < eps_float + 2 ^ 101" by (auto simp: eps_float_def)
  finally show ?thesis by (auto simp: compare_float_def eps_float_def sgn_if)
qed

lemma compare_double_finite:
  "compare_double (Fin a) (Fin b) = (if \<bar>a - b\<bar> \<le> eps_double + 2 ^ 967 then 0 else sgn (a - b))"
proof -
  let ?e = "8112963841460668 * 2 ^ Suc 967 :: nat"
  have "int ?e < 2 ^ range_bits binary64" by (simp add: binary64_def)
  then have "fl_less (Fin (int ?e)) (fl_abs (fl_sub binary64 (Fin a) (Fin b))) \<longleftrightarrow> ?e < round_mag binary64 (nat \<bar>a - b\<bar>)"
    by (rule sub_exceeds)
  also have "\<dots> \<longleftrightarrow> ?e + 2 ^ 967 < nat \<bar>a - b\<bar> \<or> odd (8112963841460668 :: nat) \<and> nat \<bar>a - b\<bar> = ?e + 2 ^ 967"
    by (rule round_exceeds [where p = 52]) (simp_all add: binary64_def)
  also have "\<dots> \<longleftrightarrow> \<not> \<bar>a - b\<bar> \<le> eps_double + 2 ^ 967" by (auto simp: eps_double_def)
  finally show ?thesis by (auto simp: compare_double_def eps_double_def sgn_if)
qed

lemma fl_sub_swap: "fl_abs (fl_sub f b a) = fl_abs (fl_sub f a b)"
  by (cases a; cases b) (auto simp: round_fl_def Let_def sgn_parts abs_minus_commute)

lemma round_fl_0 [simp]: "round_fl f 0 = Fin 0"
  by (simp add: round_fl_def round_mag_def nearest_even_def)

lemma less_or_close:
  assumes "fl_less (Fin e) (fl_abs (fl_sub f a b))" and "0 \<le> e"
  shows "fl_less b a \<longleftrightarrow> \<not> fl_less a b"
proof -
  have "\<not> (fl_less a b \<and> fl_less b a)" by (cases a; cases b) auto
  moreover have "fl_less a b \<or> fl_less b a \<or> fl_sub f a b = NaN \<or> fl_sub f a b = Fin 0"
    by (cases a; cases b) (auto simp: not_less dest: order_antisym)
  ultimately show ?thesis using assms by auto
qed

lemma compare_swap:
  assumes "0 \<le> e"
  shows "(if fl_less (Fin e) (fl_abs (fl_sub f y x)) then if fl_less y x then - 1 else 1 else 0) =
    - (if fl_less (Fin e) (fl_abs (fl_sub f x y)) then if fl_less x y then - 1 else 1 else (0 :: int))"
proof (cases "fl_less (Fin e) (fl_abs (fl_sub f x y))")
  case True
  with less_or_close [OF True assms] show ?thesis by (simp add: fl_sub_swap [of f y x])
qed (simp add: fl_sub_swap [of f y x])

lemma eps_pos: "0 \<le> eps_float" "0 \<le> eps_double"
  by (simp_all add: eps_float_def eps_double_def)

text \<open>
  C29: what the two overloads of \<^verbatim>\<open>compare\<close> decide. On finite numbers the result is the sign of the exact
  difference, except that a difference of at most epsilon and half a unit in its last place gives
  0; the tie of \<^verbatim>\<open>float\<close> goes up because the significand of its epsilon is odd. A NaN compares
  equal to everything. Swapping the arguments negates the result, also for infinities.
\<close>

theorem compare_result:
  "compare_float (Fin a) (Fin b) = (if \<bar>a - b\<bar> < eps_float + 2 ^ 101 then 0 else sgn (a - b))
   \<and> compare_double (Fin a) (Fin b) = (if \<bar>a - b\<bar> \<le> eps_double + 2 ^ 967 then 0 else sgn (a - b))
   \<and> compare_float NaN y = 0 \<and> compare_float x NaN = 0 \<and> compare_double NaN y = 0 \<and> compare_double x NaN = 0
   \<and> compare_float y x = - compare_float x y \<and> compare_double y x = - compare_double x y"
proof -
  have "compare_float NaN y = 0" "compare_float x NaN = 0" "compare_double NaN y = 0" "compare_double x NaN = 0"
    by (cases x; simp add: compare_float_def compare_double_def)+
  moreover have "compare_float y x = - compare_float x y" "compare_double y x = - compare_double x y"
    unfolding compare_float_def compare_double_def Let_def less_fl_def abs_fl_def
    by (rule compare_swap [OF eps_pos(1)], rule compare_swap [OF eps_pos(2)])
  ultimately show ?thesis by (simp add: compare_float_finite compare_double_finite)
qed

text \<open>The exact order of the numbers, and numbers of magnitude at least \<open>u\<close>.\<close>

definition fl_cmp :: "fl \<Rightarrow> fl \<Rightarrow> int" where
  "fl_cmp a b = (if fl_less a b then - 1 else if fl_less b a then 1 else 0)"

fun at_least :: "int \<Rightarrow> fl \<Rightarrow> bool" where
  "at_least u (Fin a) = (u \<le> \<bar>a\<bar>)"
| "at_least u NaN = False"
| "at_least u x = True"

text \<open>Numbers of magnitude at least \<open>2 ^ j\<close> are multiples of \<open>2 ^ d\<close>, so they differ by that or not at all.\<close>

lemma format_grid:
  assumes "in_format f (Fin a)" and "at_least (2 ^ j) (Fin a)" and "d + precision f \<le> Suc j"
  shows "2 ^ d dvd a"
proof -
  have "(2 :: nat) ^ j \<le> nat \<bar>a\<bar>" using assms(2) by (simp add: le_nat_iff)
  moreover from this have "0 < nat \<bar>a\<bar>" by (cases "nat \<bar>a\<bar>") auto
  ultimately have "j < bits (nat \<bar>a\<bar>)" using bits_bounds pow2_between by blast
  then have "(2 :: int) ^ d dvd 2 ^ (bits (nat \<bar>a\<bar>) - precision f)" using assms(3) by (intro le_imp_power_dvd) simp
  then show ?thesis using assms(1) by (auto intro: dvd_trans)
qed

lemma grid_differ:
  assumes "in_format f (Fin a)" "at_least (2 ^ j) (Fin a)" "in_format f (Fin b)" "at_least (2 ^ j) (Fin b)"
    and "d + precision f \<le> Suc j" and "a \<noteq> b"
  shows "2 ^ d \<le> \<bar>a - b\<bar>"
proof -
  have "2 ^ d dvd a - b" using format_grid assms by (intro dvd_diff) blast+
  then show ?thesis using assms(6) zdvd_imp_le [of "2 ^ d" "\<bar>a - b\<bar>"] by auto
qed

lemma grid32: "126 + precision binary32 \<le> Suc 149"
  and grid64: "1021 + precision binary64 \<le> Suc 1073"
  by (simp_all add: binary32_def binary64_def)

text \<open>
  C30: away from zero the tolerance of \<^verbatim>\<open>compare\<close> has no effect. On numbers of magnitude at least 1 for
  \<^verbatim>\<open>float\<close> and at least a half for \<^verbatim>\<open>double\<close>, infinities included, both overloads are the exact
  order: neighbouring numbers are never equal.
\<close>

theorem compare_exact:
  "(in_format binary32 a \<longrightarrow> in_format binary32 b \<longrightarrow> at_least (2 ^ 149) a \<longrightarrow> at_least (2 ^ 149) b \<longrightarrow>
      compare_float a b = fl_cmp a b)
   \<and> (in_format binary64 a \<longrightarrow> in_format binary64 b \<longrightarrow> at_least (2 ^ 1073) a \<longrightarrow> at_least (2 ^ 1073) b \<longrightarrow>
      compare_double a b = fl_cmp a b)"
proof -
  define tf td gf gd :: int where "tf = eps_float + 2 ^ 101" and "td = eps_double + 2 ^ 967"
    and "gf = 2 ^ 126" and "gd = 2 ^ 1021"
  then have less: "tf < gf" "td < gd" "0 < tf" "0 < td" by (simp_all add: eps_float_def eps_double_def)
  have float: "compare_float (Fin m) (Fin n) = (if \<bar>m - n\<bar> < tf then 0 else sgn (m - n))"
    and double: "compare_double (Fin m) (Fin n) = (if \<bar>m - n\<bar> \<le> td then 0 else sgn (m - n))" for m n
    by (simp_all only: compare_float_finite compare_double_finite tf_def td_def)
  have "compare_float a b = fl_cmp a b"
    if fmt: "in_format binary32 a" "in_format binary32 b" "at_least (2 ^ 149) a" "at_least (2 ^ 149) b"
  proof (cases "\<exists>m n. a = Fin m \<and> b = Fin n")
    case True
    then obtain m n where mn: "a = Fin m" "b = Fin n" by blast
    have "m = n \<or> gf \<le> \<bar>m - n\<bar>"
      using grid_differ [OF fmt(1,3,2,4) [unfolded mn], of 126] unfolding gf_def by (auto simp only: grid32)
    then show ?thesis using less mn by (auto simp: float fl_cmp_def sgn_if)
  next
    case False
    moreover have "a \<noteq> NaN" "b \<noteq> NaN" using fmt(3,4) at_least.simps(2) by blast+
    ultimately show ?thesis by (cases a; cases b; simp add: compare_float_def fl_cmp_def)
  qed
  moreover have "compare_double a b = fl_cmp a b"
    if fmt: "in_format binary64 a" "in_format binary64 b" "at_least (2 ^ 1073) a" "at_least (2 ^ 1073) b"
  proof (cases "\<exists>m n. a = Fin m \<and> b = Fin n")
    case True
    then obtain m n where mn: "a = Fin m" "b = Fin n" by blast
    have "m = n \<or> gd \<le> \<bar>m - n\<bar>"
      using grid_differ [OF fmt(1,3,2,4) [unfolded mn], of 1021] unfolding gd_def by (auto simp only: grid64)
    then show ?thesis using less mn by (auto simp: double fl_cmp_def sgn_if)
  next
    case False
    moreover have "a \<noteq> NaN" "b \<noteq> NaN" using fmt(3,4) at_least.simps(2) by blast+
    ultimately show ?thesis by (cases a; cases b; simp add: compare_double_def fl_cmp_def)
  qed
  ultimately show ?thesis by blast
qed

text \<open>1 and the next \<^verbatim>\<open>float\<close> after it, and 1 and the \<^verbatim>\<open>double\<close> just below it.\<close>

theorem compare_exact_witness:
  "compare_float (Fin (2 ^ 149)) (Fin (2 ^ 149 + 2 ^ 126)) = - 1
   \<and> compare_double (Fin (2 ^ 1074)) (Fin (2 ^ 1074 - 2 ^ 1021)) = 1"
proof -
  have "bits (2 ^ 149) = 150" "bits (2 ^ 149 + 2 ^ 126) = 150" "bits (2 ^ 1074) = 1075" "bits (2 ^ 1074 - 2 ^ 1021) = 1074"
    using bits_eq [of 149 "2 ^ 149"] bits_eq [of 149 "2 ^ 149 + 2 ^ 126"] bits_eq [of 1074 "2 ^ 1074"]
      bits_eq [of 1073 "2 ^ 1074 - 2 ^ 1021"] by simp_all
  then show ?thesis
    using compare_exact [of "Fin (2 ^ 149)" "Fin (2 ^ 149 + 2 ^ 126)"]
      compare_exact [of "Fin (2 ^ 1074)" "Fin (2 ^ 1074 - 2 ^ 1021)"]
    by (simp add: binary32_def binary64_def fl_cmp_def)
qed

end
