(* ===== verification/Transition.thy ===== *)
theory Transition
  imports Main
begin

text \<open>
  Labelled step relations: finite runs, and the three contracts the components use of a step
  relation. \<open>step_inv\<close>: an invariant holds at the start and is kept by every step, so it holds in
  every reachable state. \<open>step_measure\<close>: internal steps decrease a measure, so runs of internal
  steps are bounded. \<open>step_refine\<close>: every step is a step of an abstract relation under its label, or
  hidden and without effect there, so every run is a run of the abstraction.
\<close>

inductive run :: "('s \<Rightarrow> 'e \<Rightarrow> 's \<Rightarrow> bool) \<Rightarrow> 's \<Rightarrow> 'e list \<Rightarrow> 's \<Rightarrow> bool" for step where
  run_nil: "run step s [] s"
| run_cons: "step s e t \<Longrightarrow> run step t es u \<Longrightarrow> run step s (e # es) u"

inductive_simps run_Nil_iff [simp]: "run step s [] t"
inductive_simps run_Cons_iff: "run step s (e # es) u"

lemma run_append: "run step s es t \<Longrightarrow> run step t fs u \<Longrightarrow> run step s (es @ fs) u"
  by (induction rule: run.induct) (auto intro: run.intros)

lemma run_snoc: "run step s es t \<Longrightarrow> step t e u \<Longrightarrow> run step s (es @ [e]) u"
  by (rule run_append) (auto intro: run.intros)

lemma run_ex_append: "\<exists>es. run step s es t \<Longrightarrow> \<exists>es. run step t es u \<Longrightarrow> \<exists>es. run step s es u"
  by (blast intro: run_append)

lemma run_ex_cons: "step s e t \<Longrightarrow> \<exists>es. run step t es u \<Longrightarrow> \<exists>es. run step s es u"
  by (blast intro: run_cons)

lemma run_ex_snoc: "\<exists>es. run step s es t \<Longrightarrow> step t e u \<Longrightarrow> \<exists>es. run step s es u"
  by (blast intro: run_snoc)

definition reach :: "('s \<Rightarrow> bool) \<Rightarrow> ('s \<Rightarrow> 'e \<Rightarrow> 's \<Rightarrow> bool) \<Rightarrow> 's \<Rightarrow> bool" where
  "reach init step t \<longleftrightarrow> (\<exists>s es. init s \<and> run step s es t)"

lemma reach_init: "init s \<Longrightarrow> reach init step s"
  unfolding reach_def by (blast intro: run_nil)

lemma reach_step: "reach init step s \<Longrightarrow> step s e t \<Longrightarrow> reach init step t"
  by (auto simp: reach_def intro: run_snoc)

lemma reach_run: "reach init step s \<Longrightarrow> run step s es t \<Longrightarrow> reach init step t"
  by (auto simp: reach_def intro: run_append)

subsection \<open>Invariants\<close>

locale step_inv =
  fixes step :: "'s \<Rightarrow> 'e \<Rightarrow> 's \<Rightarrow> bool"
    and init :: "'s \<Rightarrow> bool"
    and inv :: "'s \<Rightarrow> bool"
  assumes inv_init: "init s \<Longrightarrow> inv s"
    and inv_step: "inv s \<Longrightarrow> step s e t \<Longrightarrow> inv t"
begin

lemma inv_run: "run step s es t \<Longrightarrow> inv s \<Longrightarrow> inv t"
  by (induction rule: run.induct) (auto intro: inv_step)

lemma inv_reach: "reach init step s \<Longrightarrow> inv s"
  by (auto simp: reach_def dest: inv_init inv_run)

end

subsection \<open>Bounded runs of internal steps\<close>

locale step_measure = step_inv +
  fixes internal :: "'e \<Rightarrow> bool"
    and weight :: "'s \<Rightarrow> nat"
  assumes weight_step: "inv s \<Longrightarrow> step s e t \<Longrightarrow> internal e \<Longrightarrow> weight t < weight s"
begin

lemma internal_run_bounded:
  "run step s es t \<Longrightarrow> inv s \<Longrightarrow> (\<forall>e \<in> set es. internal e) \<Longrightarrow> length es + weight t \<le> weight s"
proof (induction rule: run.induct)
  case (run_cons s e t es u)
  then have "weight t < weight s" by (auto intro: weight_step)
  moreover have "length es + weight u \<le> weight t"
    using run_cons by (auto intro: inv_step)
  ultimately show ?case by simp
qed simp

text \<open>Every state can be run to one where no internal step is left.\<close>

lemma internal_run_to_rest:
  "inv s \<Longrightarrow> \<exists>es t. run step s es t \<and> (\<forall>e \<in> set es. internal e) \<and> \<not> (\<exists>e u. step t e u \<and> internal e)"
proof (induction "weight s" arbitrary: s rule: less_induct)
  case less
  show ?case
  proof (cases "\<exists>e u. step s e u \<and> internal e")
    case True
    then obtain e u where e: "step s e u" "internal e" by blast
    then obtain es t where "run step u es t" "\<forall>e \<in> set es. internal e"
      "\<not> (\<exists>e u. step t e u \<and> internal e)"
      using less.hyps [of u] weight_step inv_step less.prems by blast
    with e show ?thesis by (intro exI [of _ "e # es"] exI [of _ t]) (auto intro: run.intros)
  next
    case False
    then show ?thesis by (auto intro!: exI [of _ "[]"])
  qed
qed

end

subsection \<open>Refinement\<close>

locale step_refine = step_inv +
  fixes astep :: "'a \<Rightarrow> 'l \<Rightarrow> 'a \<Rightarrow> bool"
    and abs :: "'s \<Rightarrow> 'a"
    and label :: "'e \<Rightarrow> 'l option"
  assumes visible: "inv s \<Longrightarrow> step s e t \<Longrightarrow> label e = Some l \<Longrightarrow> astep (abs s) l (abs t)"
    and hidden: "inv s \<Longrightarrow> step s e t \<Longrightarrow> label e = None \<Longrightarrow> abs t = abs s"
begin

lemma run_refines:
  "run step s es t \<Longrightarrow> inv s \<Longrightarrow> run astep (abs s) (List.map_filter label es) (abs t)"
proof (induction rule: run.induct)
  case (run_nil s)
  then show ?case by (simp add: map_filter_simps)
next
  case (run_cons s e t es u)
  then have "run astep (abs t) (List.map_filter label es) (abs u)" by (auto intro: inv_step)
  with run_cons visible [of s e t] hidden [of s e t] show ?case
    by (cases "label e") (auto simp: map_filter_simps intro: run.intros)
qed

end

end
