(* ===== verification/Thread_Pool.thy ===== *)
theory Thread_Pool
  imports Prelude Transition "HOL-Library.Multiset"
begin

text \<open>
  \<^verbatim>\<open>ThreadPool\<close> (\<^verbatim>\<open>thread_pool.cpp\<close>) as a labelled step relation over the program points of the
  callers of \<^verbatim>\<open>add_work\<close> (producers) and of the detached \<^verbatim>\<open>do_work\<close> threads (workers), the mutex, the
  two condition variables and the queue. A step is one action of one thread between two
  synchronisation points; \<^verbatim>\<open>wait\<close> releases the mutex and blocks in one step, \<^verbatim>\<open>notify_one\<close> wakes one
  waiting thread if there is one, and a waiting thread may wake spuriously. The fields \<open>pushed\<close>,
  \<open>popped\<close> and \<open>finished\<close> are the history of the work, no step depends on them.
\<close>

subsection \<open>State\<close>

datatype 'w ppc =
    P_Idle            \<comment> \<open>not inside \<^verbatim>\<open>add_work\<close>\<close>
  | P_Lock 'w         \<comment> \<open>at the acquisition of \<^verbatim>\<open>lck\<close>, on entry or on wake up\<close>
  | P_Crit 'w         \<comment> \<open>holds the mutex, at the test of the while loop\<close>
  | P_Wait 'w         \<comment> \<open>blocked in \<^verbatim>\<open>p_cv.wait(lck)\<close>\<close>
  | P_Notify          \<comment> \<open>pushed and unlocked, before \<^verbatim>\<open>c_cv.notify_one()\<close>\<close>

datatype 'w wpc =
    W_Lock            \<comment> \<open>at the acquisition of \<^verbatim>\<open>lck\<close>\<close>
  | W_Crit            \<comment> \<open>holds the mutex, at the test of the inner while loop\<close>
  | W_Wait            \<comment> \<open>blocked in \<^verbatim>\<open>c_cv.wait(lck)\<close>\<close>
  | W_Notify 'w       \<comment> \<open>dequeued and unlocked, before \<^verbatim>\<open>p_cv.notify_one()\<close>\<close>
  | W_Run 'w          \<comment> \<open>in \<^verbatim>\<open>work()\<close>\<close>

datatype owner = Producer nat | Worker nat

record 'w pool =
  w_queue :: "'w list"
  p_size :: u32
  mutex :: "owner option"
  producers :: "'w ppc list"
  workers :: "'w wpc list"
  pushed :: "'w list"
  popped :: "'w list"
  finished :: "'w list"

subsection \<open>Operations\<close>

definition build_worker_threads :: "'w pool \<Rightarrow> 'w pool" where
  "build_worker_threads p = p\<lparr>workers := workers p @ replicate (unat (p_size p)) W_Lock\<rparr>"

text \<open>The constructor, with \<open>m\<close> threads that may call \<^verbatim>\<open>add_work\<close>.\<close>

definition tp_new :: "u32 \<Rightarrow> nat \<Rightarrow> 'w pool" where
  "tp_new n m = build_worker_threads
     \<lparr>w_queue = [], p_size = n, mutex = None, producers = replicate m P_Idle, workers = [],
      pushed = [], popped = [], finished = []\<rparr>"

text \<open>The body of \<^verbatim>\<open>add_work\<close> under the lock: wait while the queue is full, else push and unlock.\<close>

definition add_work_crit :: "nat \<Rightarrow> 'w \<Rightarrow> 'w pool \<Rightarrow> 'w pool" where
  "add_work_crit i w p =
     (if length (w_queue p) = unat (p_size p)
      then p\<lparr>mutex := None, producers := (producers p)[i := P_Wait w]\<rparr>
      else p\<lparr>w_queue := w_queue p @ [w], mutex := None, producers := (producers p)[i := P_Notify],
             pushed := pushed p @ [w]\<rparr>)"

text \<open>The body of \<^verbatim>\<open>do_work\<close> under the lock: wait while the queue is empty, else dequeue and unlock.\<close>

definition do_work_crit :: "nat \<Rightarrow> 'w pool \<Rightarrow> 'w pool" where
  "do_work_crit j p =
     (case w_queue p of
        [] \<Rightarrow> p\<lparr>mutex := None, workers := (workers p)[j := W_Wait]\<rparr>
      | work # rest \<Rightarrow> p\<lparr>w_queue := rest, mutex := None, workers := (workers p)[j := W_Notify work],
                       popped := popped p @ [work]\<rparr>)"

datatype 'w tp_event =
    Call nat 'w       \<comment> \<open>a thread enters \<^verbatim>\<open>add_work\<close>\<close>
  | Spurious          \<comment> \<open>a wake up without notification\<close>
  | Push 'w
  | Pop 'w
  | Tau

fun is_P_Wait :: "'w ppc \<Rightarrow> bool" where
  "is_P_Wait (P_Wait w) = True"
| "is_P_Wait _ = False"

inductive tp_step :: "'w pool \<Rightarrow> 'w tp_event \<Rightarrow> 'w pool \<Rightarrow> bool" where
  call: "i < length (producers p) \<Longrightarrow> producers p ! i = P_Idle \<Longrightarrow>
    tp_step p (Call i w) (p\<lparr>producers := (producers p)[i := P_Lock w]\<rparr>)"
| p_acquire: "i < length (producers p) \<Longrightarrow> producers p ! i = P_Lock w \<Longrightarrow> mutex p = None \<Longrightarrow>
    tp_step p Tau (p\<lparr>mutex := Some (Producer i), producers := (producers p)[i := P_Crit w]\<rparr>)"
| p_wait: "i < length (producers p) \<Longrightarrow> producers p ! i = P_Crit w \<Longrightarrow>
    length (w_queue p) = unat (p_size p) \<Longrightarrow> tp_step p Tau (add_work_crit i w p)"
| p_push: "i < length (producers p) \<Longrightarrow> producers p ! i = P_Crit w \<Longrightarrow>
    length (w_queue p) \<noteq> unat (p_size p) \<Longrightarrow> tp_step p (Push w) (add_work_crit i w p)"
| p_notify_one: "i < length (producers p) \<Longrightarrow> producers p ! i = P_Notify \<Longrightarrow>
    j < length (workers p) \<Longrightarrow> workers p ! j = W_Wait \<Longrightarrow>
    tp_step p Tau (p\<lparr>producers := (producers p)[i := P_Idle], workers := (workers p)[j := W_Lock]\<rparr>)"
| p_notify_none: "i < length (producers p) \<Longrightarrow> producers p ! i = P_Notify \<Longrightarrow>
    W_Wait \<notin> set (workers p) \<Longrightarrow> tp_step p Tau (p\<lparr>producers := (producers p)[i := P_Idle]\<rparr>)"
| p_spurious: "i < length (producers p) \<Longrightarrow> producers p ! i = P_Wait w \<Longrightarrow>
    tp_step p Spurious (p\<lparr>producers := (producers p)[i := P_Lock w]\<rparr>)"
| w_acquire: "j < length (workers p) \<Longrightarrow> workers p ! j = W_Lock \<Longrightarrow> mutex p = None \<Longrightarrow>
    tp_step p Tau (p\<lparr>mutex := Some (Worker j), workers := (workers p)[j := W_Crit]\<rparr>)"
| w_wait: "j < length (workers p) \<Longrightarrow> workers p ! j = W_Crit \<Longrightarrow> w_queue p = [] \<Longrightarrow>
    tp_step p Tau (do_work_crit j p)"
| w_pop: "j < length (workers p) \<Longrightarrow> workers p ! j = W_Crit \<Longrightarrow> w_queue p = x # xs \<Longrightarrow>
    tp_step p (Pop x) (do_work_crit j p)"
| w_notify_one: "j < length (workers p) \<Longrightarrow> workers p ! j = W_Notify x \<Longrightarrow>
    i < length (producers p) \<Longrightarrow> producers p ! i = P_Wait w \<Longrightarrow>
    tp_step p Tau (p\<lparr>workers := (workers p)[j := W_Run x], producers := (producers p)[i := P_Lock w]\<rparr>)"
| w_notify_none: "j < length (workers p) \<Longrightarrow> workers p ! j = W_Notify x \<Longrightarrow>
    \<not> (\<exists>q \<in> set (producers p). is_P_Wait q) \<Longrightarrow>
    tp_step p Tau (p\<lparr>workers := (workers p)[j := W_Run x]\<rparr>)"
| w_spurious: "j < length (workers p) \<Longrightarrow> workers p ! j = W_Wait \<Longrightarrow>
    tp_step p Spurious (p\<lparr>workers := (workers p)[j := W_Lock]\<rparr>)"
| w_done: "j < length (workers p) \<Longrightarrow> workers p ! j = W_Run x \<Longrightarrow>
    tp_step p Tau (p\<lparr>workers := (workers p)[j := W_Lock], finished := finished p @ [x]\<rparr>)"

definition tp_init :: "'w pool \<Rightarrow> bool" where
  "tp_init p \<longleftrightarrow> (\<exists>n m. p = tp_new n m)"

fun internal_ev :: "'w tp_event \<Rightarrow> bool" where
  "internal_ev (Call i w) = False"
| "internal_ev Spurious = False"
| "internal_ev _ = True"

text \<open>The abstraction: a FIFO queue of bounded length.\<close>

datatype 'w bq_event = Enq 'w | Deq 'w

inductive bq_step :: "nat \<times> 'w list \<Rightarrow> 'w bq_event \<Rightarrow> nat \<times> 'w list \<Rightarrow> bool" where
  bq_enq: "length q < n \<Longrightarrow> bq_step (n, q) (Enq w) (n, q @ [w])"
| bq_deq: "bq_step (n, w # q) (Deq w) (n, q)"

fun bq_label :: "'w tp_event \<Rightarrow> 'w bq_event option" where
  "bq_label (Push w) = Some (Enq w)"
| "bq_label (Pop w) = Some (Deq w)"
| "bq_label _ = None"

subsection \<open>Sums over the threads\<close>

text \<open>One lemma for every count below: changing one element changes a sum by that element.\<close>

lemma sum_list_update_add:
  fixes f :: "'a \<Rightarrow> 'b::comm_monoid_add"
  shows "i < length xs \<Longrightarrow>
    sum_list (map f (xs[i := x])) + f (xs ! i) = sum_list (map f xs) + f x"
proof (induction xs arbitrary: i)
  case (Cons y ys)
  show ?case
  proof (cases i)
    case (Suc k)
    then show ?thesis using Cons by (simp add: add.assoc)
  qed (simp add: ac_simps)
qed simp

definition tally :: "('a \<Rightarrow> int) \<Rightarrow> 'a list \<Rightarrow> int" where
  "tally f xs = sum_list (map f xs)"

lemma tally_update [simp]: "i < length xs \<Longrightarrow> tally f (xs[i := x]) = tally f xs + f x - f (xs ! i)"
  using sum_list_update_add [of i xs f x] by (simp add: tally_def)

lemma tally_nonneg: "(\<And>x. 0 \<le> f x) \<Longrightarrow> 0 \<le> tally f xs"
  unfolding tally_def by (induction xs) auto

lemma tally_zero: "(\<And>x. x \<in> set xs \<Longrightarrow> f x = 0) \<Longrightarrow> tally f xs = 0"
  unfolding tally_def by (induction xs) auto

lemma in_set_updateD: "x \<in> set (xs[i := y]) \<Longrightarrow> x = y \<or> x \<in> set xs"
  using set_update_subset_insert [of xs i y] by blast

fun p_busy :: "'w ppc \<Rightarrow> int" where
  "p_busy (P_Lock w) = 1"
| "p_busy (P_Crit w) = 1"
| "p_busy _ = 0"

fun p_ntf :: "'w ppc \<Rightarrow> int" where
  "p_ntf P_Notify = 1"
| "p_ntf _ = 0"

fun w_busy :: "'w wpc \<Rightarrow> int" where
  "w_busy W_Lock = 1"
| "w_busy W_Crit = 1"
| "w_busy _ = 0"

fun w_ntf :: "'w wpc \<Rightarrow> int" where
  "w_ntf (W_Notify x) = 1"
| "w_ntf _ = 0"

fun held :: "'w wpc \<Rightarrow> 'w multiset" where
  "held (W_Notify x) = {#x#}"
| "held (W_Run x) = {#x#}"
| "held _ = {#}"

fun is_P_Crit :: "'w ppc \<Rightarrow> bool" where
  "is_P_Crit (P_Crit w) = True"
| "is_P_Crit _ = False"

definition in_hand :: "'w wpc list \<Rightarrow> 'w multiset" where
  "in_hand ws = sum_list (map held ws)"

lemma in_hand_update:
  "j < length ws \<Longrightarrow> in_hand (ws[j := x]) + held (ws ! j) = in_hand ws + held x"
  unfolding in_hand_def by (rule sum_list_update_add)

subsection \<open>The invariant\<close>

text \<open>The mutex is held exactly by the thread in its critical section.\<close>

definition lock_ok :: "'w pool \<Rightarrow> bool" where
  "lock_ok p \<longleftrightarrow>
     (\<forall>i < length (producers p). is_P_Crit (producers p ! i) \<longleftrightarrow> mutex p = Some (Producer i)) \<and>
     (\<forall>j < length (workers p). workers p ! j = W_Crit \<longleftrightarrow> mutex p = Some (Worker j)) \<and>
     (\<forall>i. mutex p = Some (Producer i) \<longrightarrow> i < length (producers p)) \<and>
     (\<forall>j. mutex p = Some (Worker j) \<longrightarrow> j < length (workers p))"

definition size_ok :: "'w pool \<Rightarrow> bool" where
  "size_ok p \<longleftrightarrow> length (w_queue p) \<le> unat (p_size p) \<and> length (workers p) = unat (p_size p)"

definition history_ok :: "'w pool \<Rightarrow> bool" where
  "history_ok p \<longleftrightarrow> pushed p = popped p @ w_queue p \<and>
     mset (popped p) = mset (finished p) + in_hand (workers p)"

text \<open>
  No wake up is lost: while a worker waits, every queued element has a producer that still has to
  notify or a worker on its way to the queue; while a producer waits, every free place has a worker
  that still has to notify or a producer on its way.
\<close>

definition wakeup_ok :: "'w pool \<Rightarrow> bool" where
  "wakeup_ok p \<longleftrightarrow>
     (W_Wait \<in> set (workers p) \<longrightarrow>
        int (length (w_queue p)) \<le> tally p_ntf (producers p) + tally w_busy (workers p)) \<and>
     ((\<exists>q \<in> set (producers p). is_P_Wait q) \<longrightarrow>
        int (unat (p_size p)) \<le>
          int (length (w_queue p)) + tally w_ntf (workers p) + tally p_busy (producers p))"

definition tp_inv :: "'w pool \<Rightarrow> bool" where
  "tp_inv p \<longleftrightarrow> lock_ok p \<and> size_ok p \<and> history_ok p \<and> wakeup_ok p"

lemmas tp_crit_defs = add_work_crit_def do_work_crit_def

lemma lock_ok_step: "tp_step p e p' \<Longrightarrow> lock_ok p \<Longrightarrow> lock_ok p'"
  by (induction rule: tp_step.induct)
    (auto simp: lock_ok_def tp_crit_defs nth_list_update split: if_splits)

lemma size_ok_step: "tp_step p e p' \<Longrightarrow> size_ok p \<Longrightarrow> size_ok p'"
  by (induction rule: tp_step.induct) (auto simp: size_ok_def tp_crit_defs)

lemma history_ok_step: "tp_step p e p' \<Longrightarrow> history_ok p \<Longrightarrow> history_ok p'"
proof (induction rule: tp_step.induct)
  case (w_wait j p)
  then show ?case using in_hand_update [of j "workers p" W_Wait]
    by (simp add: history_ok_def tp_crit_defs)
next
  case (w_pop j p x xs)
  then show ?case using in_hand_update [of j "workers p" "W_Notify x"]
    by (simp add: history_ok_def tp_crit_defs)
next
  case (w_done j p x)
  then show ?case using in_hand_update [of j "workers p" W_Lock]
    by (simp add: history_ok_def)
next
  case (p_notify_one i p j)
  then show ?case using in_hand_update [of j "workers p" W_Lock] by (simp add: history_ok_def)
next
  case (w_acquire j p)
  then show ?case using in_hand_update [of j "workers p" W_Crit] by (simp add: history_ok_def)
next
  case (w_notify_one j p x i w)
  then show ?case using in_hand_update [of j "workers p" "W_Run x"] by (simp add: history_ok_def)
next
  case (w_notify_none j p x)
  then show ?case using in_hand_update [of j "workers p" "W_Run x"] by (simp add: history_ok_def)
next
  case (w_spurious j p)
  then show ?case using in_hand_update [of j "workers p" W_Lock] by (simp add: history_ok_def)
qed (simp_all add: history_ok_def tp_crit_defs)

lemma tally_indicators_nonneg [simp]:
  fixes ps :: "'a ppc list" and ws :: "'b wpc list"
  shows "0 \<le> tally p_ntf ps" "0 \<le> tally p_busy ps" "0 \<le> tally w_busy ws" "0 \<le> tally w_ntf ws"
proof -
  have "0 \<le> p_ntf x" "0 \<le> p_busy x" for x :: "'a ppc" by (cases x; simp)+
  then show "0 \<le> tally p_ntf ps" "0 \<le> tally p_busy ps" by (simp_all add: tally_nonneg)
  have "0 \<le> w_busy x" "0 \<le> w_ntf x" for x :: "'b wpc" by (cases x; simp)+
  then show "0 \<le> tally w_busy ws" "0 \<le> tally w_ntf ws" by (simp_all add: tally_nonneg)
qed

lemma wakeup_ok_step: "tp_step p e p' \<Longrightarrow> wakeup_ok p \<Longrightarrow> wakeup_ok p'"
proof (induction rule: tp_step.induct)
  case (p_wait i p w)
  then show ?case
    using tally_indicators_nonneg(2) [of "(producers p)[i := P_Wait w]"]
      tally_indicators_nonneg(4) [of "workers p"]
    by (simp add: wakeup_ok_def tp_crit_defs)
next
  case (w_wait j p)
  then show ?case
    using tally_indicators_nonneg(3) [of "(workers p)[j := W_Wait]"]
      tally_indicators_nonneg(1) [of "producers p"]
    by (simp add: wakeup_ok_def tp_crit_defs)
qed (auto simp: wakeup_ok_def tp_crit_defs dest!: in_set_updateD)

lemma tp_inv_step: "tp_inv p \<Longrightarrow> tp_step p e p' \<Longrightarrow> tp_inv p'"
  by (auto simp: tp_inv_def intro: lock_ok_step size_ok_step history_ok_step wakeup_ok_step)

lemma tp_inv_new: "tp_inv (tp_new n m)"
proof -
  have "in_hand (replicate k W_Lock) = {#}" for k by (induction k) (simp_all add: in_hand_def)
  then show ?thesis
    by (auto simp: tp_inv_def lock_ok_def size_ok_def history_ok_def wakeup_ok_def tp_new_def
        build_worker_threads_def)
qed

interpretation tp: step_inv tp_step tp_init tp_inv
  by unfold_locales (auto simp: tp_init_def tp_inv_new intro: tp_inv_step)

subsection \<open>Progress and quiescence\<close>

definition at_rest :: "'w pool \<Rightarrow> bool" where
  "at_rest p \<longleftrightarrow> \<not> (\<exists>e p'. tp_step p e p' \<and> internal_ev e)"

lemma at_restD: "at_rest p \<Longrightarrow> tp_step p e p' \<Longrightarrow> internal_ev e \<Longrightarrow> False"
  by (auto simp: at_rest_def)

lemma at_rest_mutex:
  assumes "at_rest p" and "lock_ok p"
  shows "mutex p = None"
proof (cases "mutex p")
  case (Some ow)
  show ?thesis
  proof (cases ow)
    case (Producer i)
    with Some assms(2) have i: "i < length (producers p)" "is_P_Crit (producers p ! i)"
      by (auto simp: lock_ok_def)
    then obtain w where "producers p ! i = P_Crit w" by (cases "producers p ! i") auto
    with i assms(1) show ?thesis using at_restD p_wait p_push internal_ev.simps by metis
  next
    case (Worker j)
    with Some assms(2) have j: "j < length (workers p)" "workers p ! j = W_Crit"
      by (auto simp: lock_ok_def)
    with assms(1) show ?thesis
      using at_restD w_wait w_pop internal_ev.simps by (metis list.exhaust)
  qed
qed simp

lemma at_rest_worker:
  assumes "at_rest p" and "lock_ok p" and "x \<in> set (workers p)"
  shows "x = W_Wait"
proof -
  obtain j where j: "j < length (workers p)" "workers p ! j = x"
    using assms(3) by (auto simp: in_set_conv_nth)
  note m = at_rest_mutex [OF assms(1,2)]
  show ?thesis
  proof (cases x)
    case W_Lock
    with j m show ?thesis using at_restD [OF assms(1)] w_acquire internal_ev.simps by metis
  next
    case W_Crit
    with j assms(2) m show ?thesis by (auto simp: lock_ok_def)
  next
    case (W_Notify y)
    have "\<exists>p'. tp_step p Tau p'"
    proof (cases "\<exists>q \<in> set (producers p). is_P_Wait q")
      case True
      then obtain i where "i < length (producers p)" "is_P_Wait (producers p ! i)"
        by (auto simp: in_set_conv_nth)
      then obtain w where "i < length (producers p)" "producers p ! i = P_Wait w"
        by (cases "producers p ! i") auto
      with W_Notify j show ?thesis using w_notify_one by metis
    next
      case False
      with W_Notify j show ?thesis using w_notify_none by metis
    qed
    then show ?thesis using assms(1) by (force simp: at_rest_def)
  next
    case (W_Run y)
    with j show ?thesis using at_restD [OF assms(1)] w_done internal_ev.simps by metis
  qed simp
qed

lemma at_rest_producer:
  assumes "at_rest p" and "lock_ok p" and "x \<in> set (producers p)"
  shows "x = P_Idle \<or> is_P_Wait x"
proof -
  obtain i where i: "i < length (producers p)" "producers p ! i = x"
    using assms(3) by (auto simp: in_set_conv_nth)
  note m = at_rest_mutex [OF assms(1,2)]
  show ?thesis
  proof (cases x)
    case (P_Lock w)
    with i m show ?thesis using at_restD [OF assms(1)] p_acquire internal_ev.simps by metis
  next
    case (P_Crit w)
    with i assms(2) m show ?thesis by (auto simp: lock_ok_def)
  next
    case P_Notify
    have "\<exists>p'. tp_step p Tau p'"
    proof (cases "W_Wait \<in> set (workers p)")
      case True
      then obtain j where "j < length (workers p)" "workers p ! j = W_Wait"
        by (auto simp: in_set_conv_nth)
      with P_Notify i show ?thesis using p_notify_one by metis
    next
      case False
      with P_Notify i show ?thesis using p_notify_none by metis
    qed
    then show ?thesis using assms(1) by (force simp: at_rest_def)
  qed simp_all
qed

lemma in_hand_waiting: "\<forall>x \<in> set ws. x = W_Wait \<Longrightarrow> in_hand ws = {#}"
  unfolding in_hand_def by (induction ws) auto

text \<open>A pool with at least one thread is only at rest when all work is done and nobody waits for room.\<close>

lemma at_rest_all_done:
  assumes inv: "tp_inv p" and rest: "at_rest p" and n: "p_size p \<noteq> 0"
  shows "w_queue p = [] \<and> (\<forall>q \<in> set (producers p). q = P_Idle) \<and> (\<forall>x \<in> set (workers p). x = W_Wait)
    \<and> popped p = pushed p \<and> mset (finished p) = mset (pushed p)"
proof -
  have parts: "lock_ok p" "size_ok p" "history_ok p" "wakeup_ok p" using inv by (auto simp: tp_inv_def)
  have ws: "x = W_Wait" if "x \<in> set (workers p)" for x
    using at_rest_worker [OF rest parts(1)] that .
  have ps: "q = P_Idle \<or> is_P_Wait q" if "q \<in> set (producers p)" for q
    using at_rest_producer [OF rest parts(1)] that .
  have "0 < unat (p_size p)" using n by (simp add: unat_gt_0)
  then have "workers p \<noteq> []" using parts(2) by (auto simp: size_ok_def)
  then have wait: "W_Wait \<in> set (workers p)" using ws by (cases "workers p") auto
  have zero: "tally w_busy (workers p) = 0" "tally w_ntf (workers p) = 0"
    "tally p_ntf (producers p) = 0" "tally p_busy (producers p) = 0"
    using ws ps by (intro tally_zero; fastforce elim: is_P_Wait.elims)+
  with parts(4) wait have q: "w_queue p = []" by (simp add: wakeup_ok_def)
  have "\<not> (\<exists>q \<in> set (producers p). is_P_Wait q)"
    using parts(4) zero q n by (auto simp: wakeup_ok_def unsigned_eq_0_iff)
  moreover have "in_hand (workers p) = {#}"
    using ws by (intro in_hand_waiting) auto
  ultimately show ?thesis using q ws ps parts(3) by (auto simp: history_ok_def)
qed


subsection \<open>Runs without new calls and spurious wake ups are finite\<close>

fun p_weight :: "'w ppc \<Rightarrow> int" where
  "p_weight P_Idle = 0"
| "p_weight P_Notify = 3"
| "p_weight (P_Wait w) = 9"
| "p_weight (P_Crit w) = 10"
| "p_weight (P_Lock w) = 11"

fun w_weight :: "'w wpc \<Rightarrow> int" where
  "w_weight W_Wait = 0"
| "w_weight W_Crit = 1"
| "w_weight W_Lock = 2"
| "w_weight (W_Run x) = 3"
| "w_weight (W_Notify x) = 6"

definition tp_weight :: "'w pool \<Rightarrow> int" where
  "tp_weight p = tally p_weight (producers p) + tally w_weight (workers p) + 6 * int (length (w_queue p))"

lemma tp_weight_nonneg: "0 \<le> tp_weight p"
proof -
  have "0 \<le> p_weight x" for x :: "'a ppc" by (cases x) auto
  moreover have "0 \<le> w_weight x" for x :: "'a wpc" by (cases x) auto
  ultimately show ?thesis by (simp add: tp_weight_def tally_nonneg)
qed

lemma tp_weight_step: "tp_step p e p' \<Longrightarrow> internal_ev e \<Longrightarrow> tp_weight p' < tp_weight p"
  by (induction rule: tp_step.induct) (auto simp: tp_weight_def tp_crit_defs)

interpretation tpm: step_measure tp_step tp_init tp_inv internal_ev "\<lambda>p. nat (tp_weight p)"
proof
  fix p p' :: "'w pool" and e
  assume "tp_step p e p'" and "internal_ev e"
  then show "nat (tp_weight p') < nat (tp_weight p)"
    using tp_weight_step [of p e p'] tp_weight_nonneg [of p'] by linarith
qed

definition tp_abs :: "'w pool \<Rightarrow> nat \<times> 'w list" where
  "tp_abs p = (unat (p_size p), w_queue p)"

lemma tp_step_size: "tp_step p e p' \<Longrightarrow> p_size p' = p_size p"
  by (induction rule: tp_step.induct) (auto simp: tp_crit_defs split: list.splits)

lemma tp_run_size: "run tp_step p es p' \<Longrightarrow> p_size p' = p_size p"
  by (induction rule: run.induct) (auto dest: tp_step_size)

lemma tp_step_size_0:
  "tp_step p e p' \<Longrightarrow> size_ok p \<Longrightarrow> p_size p = 0 \<Longrightarrow> pushed p' = pushed p \<and> popped p' = popped p"
  by (induction rule: tp_step.induct) (auto simp: tp_crit_defs size_ok_def)

lemma tp_run_size_0:
  "run tp_step p es p' \<Longrightarrow> tp_inv p \<Longrightarrow> p_size p = 0 \<Longrightarrow> pushed p' = pushed p \<and> popped p' = popped p"
proof (induction rule: run.induct)
  case (run_cons p e p1 es p')
  then have "tp_inv p1" "p_size p1 = 0" "pushed p1 = pushed p \<and> popped p1 = popped p"
    using tp_inv_step [OF run_cons.prems(1) run_cons.hyps(1)] tp_step_size [OF run_cons.hyps(1)]
      tp_step_size_0 [OF run_cons.hyps(1)] by (simp_all add: tp_inv_def)
  with run_cons.IH show ?case by simp
qed simp

lemma tp_step_visible:
  "tp_step p e p' \<Longrightarrow> size_ok p \<Longrightarrow> bq_label e = Some l \<Longrightarrow> bq_step (tp_abs p) l (tp_abs p')"
  by (induction rule: tp_step.induct)
    (auto simp: tp_abs_def size_ok_def tp_crit_defs intro: bq_step.intros)

lemma tp_step_hidden: "tp_step p e p' \<Longrightarrow> bq_label e = None \<Longrightarrow> tp_abs p' = tp_abs p"
  by (induction rule: tp_step.induct) (auto simp: tp_abs_def tp_crit_defs)

interpretation tpr: step_refine tp_step tp_init tp_inv bq_step tp_abs bq_label
  by unfold_locales (auto simp: tp_inv_def intro: tp_step_visible tp_step_hidden)

subsection \<open>An example run\<close>

definition demo_pool :: "nat pool" where
  "demo_pool = \<lparr>w_queue = [7], p_size = 1, mutex = None, producers = [P_Notify], workers = [W_Lock],
     pushed = [7], popped = [], finished = []\<rparr>"

lemma demo_run: "run tp_step (tp_new 1 1) [Call 0 7, Tau, Push 7] demo_pool"
proof -
  let ?p = "\<lambda>pc mx. \<lparr>w_queue = [], p_size = 1, mutex = mx, producers = [pc], workers = [W_Lock],
     pushed = [], popped = [], finished = []\<rparr> :: nat pool"
  have "tp_step (?p P_Idle None) (Call 0 7) (?p (P_Lock 7) None)"
    using call [of 0 "?p P_Idle None" 7] by simp
  moreover have "tp_step (?p (P_Lock 7) None) Tau (?p (P_Crit 7) (Some (Producer 0)))"
    using p_acquire [of 0 "?p (P_Lock 7) None" 7] by simp
  moreover have "tp_step (?p (P_Crit 7) (Some (Producer 0))) (Push 7) demo_pool"
    using p_push [of 0 "?p (P_Crit 7) (Some (Producer 0))" 7]
    by (simp add: add_work_crit_def demo_pool_def)
  moreover have "tp_new 1 1 = ?p P_Idle None" by (simp add: tp_new_def build_worker_threads_def)
  ultimately show ?thesis by (auto intro!: run.intros)
qed

lemma demo_reach: "reach tp_init tp_step demo_pool"
  unfolding reach_def tp_init_def using demo_run by blast

subsection \<open>Properties\<close>

text \<open>
  In every reachable state of a pool the queue holds at most \<^verbatim>\<open>p_size\<close> elements, and at most one
  thread, producer or worker, is inside a critical section.
\<close>

lemma pool_bounded_exclusive:
  assumes "reach tp_init tp_step p"
  shows "length (w_queue p) \<le> unat (p_size p)
    \<and> (\<forall>i i'. i < length (producers p) \<longrightarrow> i' < length (producers p) \<longrightarrow>
         is_P_Crit (producers p ! i) \<longrightarrow> is_P_Crit (producers p ! i') \<longrightarrow> i = i')
    \<and> (\<forall>j j'. j < length (workers p) \<longrightarrow> j' < length (workers p) \<longrightarrow>
         workers p ! j = W_Crit \<longrightarrow> workers p ! j' = W_Crit \<longrightarrow> j = j')
    \<and> (\<forall>i j. i < length (producers p) \<longrightarrow> j < length (workers p) \<longrightarrow>
         \<not> (is_P_Crit (producers p ! i) \<and> workers p ! j = W_Crit))"
proof -
  have "size_ok p" and "lock_ok p" using tp.inv_reach [OF assms] by (auto simp: tp_inv_def)
  then show ?thesis by (auto simp: size_ok_def lock_ok_def)
qed

text \<open>
  Work is neither lost, duplicated nor reordered. In every reachable state the elements dequeued
  so far followed by the queue are the elements pushed, in the order of the pushes, and the
  elements dequeued are those that finished together with those a worker is carrying or running.
\<close>

lemma pool_fifo_exactly_once:
  assumes "reach tp_init tp_step p"
  shows "pushed p = popped p @ w_queue p \<and> mset (popped p) = mset (finished p) + in_hand (workers p)"
  using tp.inv_reach [OF assms] by (simp add: tp_inv_def history_ok_def)

text \<open>
  C2: no lost wake up and no deadlock. In every reachable state of a pool with at least one thread in
  which work is queued, some caller is inside \<^verbatim>\<open>add_work\<close>, or some worker is not blocked on the empty
  queue, some thread can take a step that is neither a new call nor a spurious wake up.
\<close>

theorem pool_never_stuck:
  assumes "reach tp_init tp_step p" and "p_size p \<noteq> 0"
    and "w_queue p \<noteq> [] \<or> (\<exists>q \<in> set (producers p). q \<noteq> P_Idle) \<or> (\<exists>x \<in> set (workers p). x \<noteq> W_Wait)"
  shows "\<exists>e p'. tp_step p e p' \<and> internal_ev e"
  using at_rest_all_done [of p] tp.inv_reach [OF assms(1)] assms(2,3) by (auto simp: at_rest_def)

theorem pool_never_stuck_witness: "\<exists>e p'. tp_step demo_pool e p' \<and> internal_ev e"
  by (rule pool_never_stuck [OF demo_reach]) (simp_all add: demo_pool_def)

text \<open>
  C3: all submitted work is executed. From a reachable state of a pool with at least one thread,
  every run without new calls and spurious wake ups is at most as long as the weight of the state,
  such a run to a state without further steps exists, and whenever such a run ends in a state
  without further steps, the queue is empty, all calls of \<^verbatim>\<open>add_work\<close> have returned and exactly the
  pushed elements have been executed.
\<close>

theorem pool_completes:
  assumes "reach tp_init tp_step p" and "p_size p \<noteq> 0"
  shows "(\<forall>es p'. run tp_step p es p' \<and> (\<forall>e \<in> set es. internal_ev e) \<longrightarrow>
        length es \<le> nat (tp_weight p) \<and>
        (at_rest p' \<longrightarrow> w_queue p' = [] \<and> (\<forall>q \<in> set (producers p'). q = P_Idle) \<and>
           mset (finished p') = mset (pushed p')))
    \<and> (\<exists>es p'. run tp_step p es p' \<and> (\<forall>e \<in> set es. internal_ev e) \<and> at_rest p')"
proof -
  have inv: "tp_inv p" by (rule tp.inv_reach [OF assms(1)])
  have size: "p_size p' \<noteq> 0" if "run tp_step p es p'" for es p'
    using tp_run_size [OF that] assms(2) by simp
  have "\<exists>es p'. run tp_step p es p' \<and> (\<forall>e \<in> set es. internal_ev e) \<and> at_rest p'"
    using tpm.internal_run_to_rest [OF inv] by (simp add: at_rest_def)
  moreover have "length es \<le> nat (tp_weight p) \<and> (at_rest p' \<longrightarrow> w_queue p' = [] \<and>
      (\<forall>q \<in> set (producers p'). q = P_Idle) \<and> mset (finished p') = mset (pushed p'))"
    if "run tp_step p es p'" "\<forall>e \<in> set es. internal_ev e" for es p'
    using tpm.internal_run_bounded [OF that(1) inv that(2)] size [OF that(1)]
      at_rest_all_done [OF tp.inv_run [OF that(1) inv]] by auto
  ultimately show ?thesis by blast
qed

theorem pool_completes_witness:
  "\<exists>es p'. run tp_step demo_pool es p' \<and> (\<forall>e \<in> set es. internal_ev e) \<and> at_rest p'"
  using pool_completes [OF demo_reach] by (auto simp: demo_pool_def)

text \<open>
  C14: refinement. Every run of a new pool of size \<open>n\<close>, with only pushes and pops observed, is a run of
  a FIFO queue of at most \<open>n\<close> elements.
\<close>

theorem pool_refines_bounded_queue:
  assumes "run tp_step (tp_new n m) es p"
  shows "run bq_step (unat n, []) (List.map_filter bq_label es) (unat n, w_queue p)"
proof -
  have "run bq_step (tp_abs (tp_new n m)) (List.map_filter bq_label es) (tp_abs p)"
    using assms tp_inv_new by (rule tpr.run_refines)
  then show ?thesis using tp_run_size [OF assms]
    by (simp add: tp_abs_def tp_new_def build_worker_threads_def)
qed

theorem pool_refines_bounded_queue_witness:
  "run bq_step (1, []) [Enq 7] (1, [7 :: nat])"
  using pool_refines_bounded_queue [OF demo_run] by (simp add: demo_pool_def map_filter_simps)

text \<open>
  A pool built with size 0 (\<^verbatim>\<open>std::thread::hardware_concurrency()\<close> may return 0) accepts no work:
  in no reachable state has any call of \<^verbatim>\<open>add_work\<close> pushed its work.
\<close>

lemma pool_size_0_accepts_nothing:
  assumes "run tp_step (tp_new 0 m) es p"
  shows "pushed p = [] \<and> popped p = []"
  using tp_run_size_0 [OF assms tp_inv_new] by (simp add: tp_new_def build_worker_threads_def)

end
