(* ===== verification/Frames.thy ===== *)
theory Frames
  imports Buffers
begin

text \<open>
  The message frames of \<^verbatim>\<open>socket_utils.cpp\<close>: 37 bytes of uuid string, the message, one end of
  transmission byte. \<open>pack_frame_ptr\<close> and \<open>pack_frame_vec\<close> are the two overloads of
  \<^verbatim>\<open>pack_frame\<close>, \<open>unpack_frame\<close> its inverse; \<open>make_frame\<close> is the sequence both
  \<^verbatim>\<open>send_msg\<close> methods use to size and fill the buffer. The locale \<open>frame_codec\<close> is what a stream
  of frames needs of an encoder and a decoder; it is interpreted on \<open>make_frame\<close> and
  \<open>unpack_frame\<close>.
\<close>

subsection \<open>Packing and unpacking\<close>

definition EOT :: char where
  "EOT = CHR 0x04"

text \<open>\<^verbatim>\<open>result[r_i++] = src[i];\<close> with the 32 bit index \<^verbatim>\<open>r_i\<close>.\<close>

definition copy_byte :: "bytes \<Rightarrow> nat \<Rightarrow> u32 \<times> bytes \<Rightarrow> (u32 \<times> bytes) cpp" where
  "copy_byte src i st =
     (case st of (r_i, result) \<Rightarrow>
        cpp_bind (rd_at src i) (\<lambda>v.
        cpp_bind (wr_at result (unat r_i) v) (\<lambda>result'. Ret (r_i + 1, result'))))"

definition pack_frame_ptr :: "bytes \<Rightarrow> bytes \<Rightarrow> nat \<Rightarrow> bytes \<Rightarrow> bytes cpp" where
  "pack_frame_ptr uid msg msg_size result =
     cpp_bind (for_each [0..<37] (copy_byte uid) (0, result)) (\<lambda>st.
     cpp_bind (for_u32 msg_size (copy_byte msg) st) (\<lambda>(r_i, result').
       wr_at result' (unat r_i) EOT))"

definition pack_frame_vec :: "bytes \<Rightarrow> bytes \<Rightarrow> bytes \<Rightarrow> bytes cpp" where
  "pack_frame_vec uid msg result =
     cpp_bind (for_each [0..<37] (copy_byte uid) (0, result)) (\<lambda>st.
     cpp_bind (for_u32 (length msg) (copy_byte msg) st) (\<lambda>(r_i, result').
       wr_at result' (unat r_i) EOT))"

text \<open>The bound \<^verbatim>\<open>msg_size-1\<close> is computed in \<^verbatim>\<open>size_t\<close>, where it wraps at 0.\<close>

definition unpack_byte :: "bytes \<Rightarrow> nat \<Rightarrow> bytes \<times> bytes \<Rightarrow> (bytes \<times> bytes) cpp" where
  "unpack_byte msg i st =
     (case st of (uuid_v, msg_v) \<Rightarrow>
        cpp_bind (rd_at msg i) (\<lambda>c.
          if i < 37 then Ret (uuid_v @ [c], msg_v) else Ret (uuid_v, msg_v @ [c])))"

definition unpack_frame :: "bytes \<Rightarrow> nat \<Rightarrow> bytes \<times> bytes \<Rightarrow> (bytes \<times> bytes) cpp" where
  "unpack_frame msg msg_size st =
     for_u32 (unat ((of_nat msg_size :: u64) - 1)) (unpack_byte msg) st"

text \<open>
  \<^verbatim>\<open>uint32_t mfs = 37+msg_v.size()+1; char msg_frame[mfs]; pack_frame(...)\<close>; the bytes of a
  fresh array are indeterminate, \<open>junk\<close> stands for them.
\<close>

definition frame_size :: "nat \<Rightarrow> u32" where
  "frame_size msg_size = of_nat (37 + msg_size + 1)"

definition make_frame :: "char \<Rightarrow> bytes \<times> bytes \<Rightarrow> bytes cpp" where
  "make_frame junk um =
     (case um of (uuid_v, msg_v) \<Rightarrow>
        pack_frame_vec uuid_v msg_v (replicate (unat (frame_size (length msg_v))) junk))"

text \<open>The callback of a reader puts the delimiter back and unpacks.\<close>

definition decode_frame :: "bytes \<Rightarrow> (bytes \<times> bytes) cpp" where
  "decode_frame frame = unpack_frame frame (length frame) ([], [])"

definition encode_all :: "('m \<Rightarrow> bytes cpp) \<Rightarrow> 'm list \<Rightarrow> bytes cpp" where
  "encode_all enc ms = for_each ms (\<lambda>m acc. cpp_bind (enc m) (\<lambda>f. Ret (acc @ f))) []"

definition valid_msg :: "bytes \<times> bytes \<Rightarrow> bool" where
  "valid_msg um = (case um of (uuid_v, msg_v) \<Rightarrow>
     length uuid_v = 37 \<and> EOT \<notin> set uuid_v \<and> EOT \<notin> set msg_v \<and> length msg_v + 38 < 2 ^ 32)"

subsection \<open>Copying\<close>

text \<open>Copying \<open>n\<close> bytes of \<open>src\<close> to position \<open>k\<close> of the result.\<close>

lemma copy_bytes:
  assumes "n \<le> length src" and "k + n \<le> length res" and "k + n < 2 ^ 32"
  shows "for_each [0..<n] (copy_byte src) (of_nat k, res) =
      Ret (of_nat (k + n), take k res @ take n src @ drop (k + n) res)"
proof -
  let ?P = "\<lambda>i st. st = (of_nat (k + i) :: u32, take k res @ take i src @ drop (k + i) res)"
  have "\<exists>st. for_each [0..<n] (copy_byte src) (of_nat k, res) = Ret st \<and> ?P n st"
  proof (rule for_each_upt_inv)
    fix i st
    assume i: "i < n" "?P i st"
    have "unat (of_nat (k + i) :: u32) = k + i"
      using i assms by (intro unat_of_nat_u32) simp
    moreover have "drop (k + i) res = res ! (k + i) # drop (Suc (k + i)) res"
      using i assms by (simp add: Cons_nth_drop_Suc)
    ultimately show "\<exists>st'. copy_byte src i st = Ret st' \<and> ?P (Suc i) st'"
      using i assms by (simp add: copy_byte_def take_Suc_snoc list_update_append ac_simps)
  qed simp_all
  then show ?thesis by simp
qed

lemma copy_bytes_undef:
  assumes "length src < n \<or> length res < k + n" and "k \<le> length res" and "length res < 2 ^ 32"
  shows "for_each [0..<n] (copy_byte src) (of_nat k, res) = Undef"
proof -
  define m where "m = min (length src) (length res - k)"
  have m: "m < n" "m \<le> length src" "k + m \<le> length res" "m = length src \<or> k + m = length res"
    using assms by (auto simp: m_def)
  have "for_each [0..<m] (copy_byte src) (of_nat k, res) =
      Ret (of_nat (k + m), take k res @ take m src @ drop (k + m) res)"
    using m assms by (intro copy_bytes) simp_all
  moreover have "unat (of_nat (k + m) :: u32) = k + m"
    using m assms by (intro unat_of_nat_u32) simp
  moreover have "length (take k res @ take m src @ drop (k + m) res) = length res"
    using m by simp
  ultimately show ?thesis
    using m(2-4) by (auto simp add: upt_split [OF m(1)] for_each_append copy_byte_def rd_at_def wr_at_def simp del: of_nat_add)
qed

subsection \<open>Packing\<close>

lemma pack_frame_overloads: "pack_frame_vec uid msg res = pack_frame_ptr uid msg (length msg) res"
  by (simp add: pack_frame_vec_def pack_frame_ptr_def)

lemma pack_frame_ok:
  assumes "37 \<le> length uid" and "length msg + 38 < 2 ^ 32" and "length res = length msg + 38"
  shows "pack_frame_vec uid msg res = Ret (take 37 uid @ msg @ [EOT])"
proof -
  have u: "for_each [0..<37] (copy_byte uid) (0, res) = Ret (37, take 37 uid @ drop 37 res)"
    using copy_bytes [of 37 uid 0 res] assms by simp
  have "for_each [0..<length msg] (copy_byte msg) (37, take 37 uid @ drop 37 res) =
      Ret (of_nat (37 + length msg), take 37 uid @ msg @ drop (37 + length msg) res)"
    using copy_bytes [of "length msg" msg 37 "take 37 uid @ drop 37 res"] assms by (simp add: add.commute)
  then have m: "for_u32 (length msg) (copy_byte msg) (37, take 37 uid @ drop 37 res) =
      Ret (of_nat (37 + length msg), take 37 uid @ msg @ drop (37 + length msg) res)"
    using assms by (simp add: for_u32_bounded)
  have "unat (of_nat (37 + length msg) :: u32) = 37 + length msg"
    using assms by (intro unat_of_nat_u32) simp
  moreover obtain x where "drop (37 + length msg) res = [x]"
    using assms(3) length_Suc_conv [of "drop (37 + length msg) res" 0] by auto
  ultimately show ?thesis
    using assms by (simp add: pack_frame_vec_def u m list_update_append del: of_nat_add)
qed

lemma pack_frame_undef:
  assumes "length uid < 37 \<or> length res < length msg + 37" and "length msg < 2 ^ 32"
    and "length res < 2 ^ 32"
  shows "pack_frame_vec uid msg res = Undef"
proof (cases "length uid < 37 \<or> length res < 37")
  case True
  then show ?thesis
    using copy_bytes_undef [of uid 37 res 0] assms by (simp add: pack_frame_vec_def)
next
  case False
  then have u: "for_each [0..<37] (copy_byte uid) (0, res) = Ret (37, take 37 uid @ drop 37 res)"
    using copy_bytes [of 37 uid 0 res] by simp
  have "for_each [0..<length msg] (copy_byte msg) (37, take 37 uid @ drop 37 res) = Undef"
    using copy_bytes_undef [of msg "length msg" "take 37 uid @ drop 37 res" 37] False assms by auto
  then show ?thesis using assms by (simp add: pack_frame_vec_def u for_u32_bounded)
qed

subsection \<open>Unpacking\<close>

lemma unpack_bytes:
  assumes "n \<le> length msg"
  shows "for_each [0..<n] (unpack_byte msg) ([], []) = Ret (take 37 (take n msg), drop 37 (take n msg))"
proof -
  let ?P = "\<lambda>i st. st = (take 37 (take i msg), drop 37 (take i msg))"
  have "\<exists>st. for_each [0..<n] (unpack_byte msg) ([], []) = Ret st \<and> ?P n st"
  proof (rule for_each_upt_inv)
    fix i st
    assume "i < n" "?P i st"
    with assms show "\<exists>st'. unpack_byte msg i st = Ret st' \<and> ?P (Suc i) st'"
      by (cases "i < 37") (simp_all add: unpack_byte_def take_Suc_snoc)
  qed simp_all
  then show ?thesis by simp
qed

lemma decode_frame_ok:
  assumes "length f < 2 ^ 32"
  shows "decode_frame (f @ [c]) = Ret (take 37 f, drop 37 f)"
proof -
  have "(of_nat (Suc (length f)) :: u64) - 1 = of_nat (length f)" by simp
  moreover have "unat (of_nat (length f) :: u64) = length f"
    using assms by (intro unat_of_nat_u64) simp
  ultimately show ?thesis
    using unpack_bytes [of "length f" "f @ [c]"] assms
    by (simp add: decode_frame_def unpack_frame_def for_u32_bounded)
qed

text \<open>The two parts of a frame without its delimiter.\<close>

definition frame_parts :: "bytes \<Rightarrow> bytes \<times> bytes" where
  "frame_parts f = (take 37 f, drop 37 f)"

lemma decode_frame_parts: "length f < 2 ^ 32 \<Longrightarrow> decode_frame (f @ [c]) = Ret (frame_parts f)"
  by (simp add: decode_frame_ok frame_parts_def)

lemma unpack_empty_undef: "unpack_frame [] 0 st = Undef"
proof -
  have "for_u32_from n (unpack_byte []) 0 st = Some Undef" if "0 < n" for n
    using that by (simp add: for_u32_from.simps unpack_byte_def split: prod.splits)
  moreover have "0 < unat (- 1 :: u64)" by (simp add: unat_gt_0)
  ultimately show ?thesis by (simp add: unpack_frame_def for_u32_def)
qed

subsection \<open>The contract of a codec, and streams of frames\<close>

text \<open>
  \<open>encode m\<close> is a body and the delimiter, the body is free of the delimiter, and decoding it gives
  \<open>m\<close> back.
\<close>

locale frame_codec =
  fixes valid :: "'m \<Rightarrow> bool"
    and encode :: "'m \<Rightarrow> bytes cpp"
    and decode :: "bytes \<Rightarrow> 'm cpp"
    and del :: char
  assumes encode_shape:
    "valid m \<Longrightarrow> \<exists>body. encode m = Ret (body @ [del]) \<and> del \<notin> set body \<and> decode (body @ [del]) = Ret m"
begin

lemma encode_all_append:
  "for_each ms (\<lambda>m acc. cpp_bind (encode m) (\<lambda>f. Ret (acc @ f))) acc =
   cpp_bind (encode_all encode ms) (\<lambda>x. Ret (acc @ x))"
proof (induction ms arbitrary: acc)
  case Nil
  then show ?case by (simp add: encode_all_def)
next
  case (Cons m ms)
  show ?case
  proof (cases "encode m")
    case (Ret f)
    then show ?thesis
      using Cons.IH [of "acc @ f"] Cons.IH [of f]
      by (simp add: encode_all_def cpp_bind_assoc)
  qed (simp_all add: encode_all_def)
qed

lemma encode_all_frames:
  assumes "\<forall>m \<in> set ms. valid m"
  shows "\<exists>fs. encode_all encode ms = Ret (frame_stream del fs) \<and> (\<forall>f \<in> set fs. del \<notin> set f)
    \<and> list_all2 (\<lambda>f m. decode (f @ [del]) = Ret m) fs ms"
  using assms
proof (induction ms)
  case Nil
  then show ?case by (auto simp: encode_all_def)
next
  case (Cons m ms)
  then obtain fs where fs: "encode_all encode ms = Ret (frame_stream del fs)"
    "\<forall>f \<in> set fs. del \<notin> set f" "list_all2 (\<lambda>f m. decode (f @ [del]) = Ret m) fs ms" by auto
  obtain body where body: "encode m = Ret (body @ [del])" "del \<notin> set body"
    "decode (body @ [del]) = Ret m" using encode_shape Cons.prems by auto
  have "encode_all encode (m # ms) = Ret (frame_stream del (body # fs))"
    using encode_all_append [of ms "body @ [del]"] body fs(1) by (simp add: encode_all_def)
  with fs body show ?case by (intro exI [of _ "body # fs"]) simp
qed

lemma decode_each:
  "list_all2 (\<lambda>f m. decode (f @ [del]) = Ret m) fs ms \<Longrightarrow>
   for_each fs (\<lambda>f s. cpp_bind (decode (f @ [del])) (\<lambda>m. k m s)) s = for_each ms k s"
proof (induction fs arbitrary: ms s)
  case (Cons f fs)
  then obtain m ms' where ms: "ms = m # ms'" and d: "decode (f @ [del]) = Ret m"
    and l: "list_all2 (\<lambda>f m. decode (f @ [del]) = Ret m) fs ms'"
    by (auto simp: list_all2_Cons1)
  then show ?case using Cons.IH [OF l] by (cases "k m s") simp_all
qed simp

text \<open>
  A reader with the delimiter of the codec, fed the encodings of \<open>ms\<close> in any chunks, calls \<open>k\<close> for
  exactly the messages \<open>ms\<close>, in order, and is left empty.
\<close>

lemma read_encoded:
  assumes "\<forall>m \<in> set ms. valid m" and "encode_all encode ms = Ret (concat chunks)"
  shows "for_each chunks (br_read (\<lambda>f s. cpp_bind (decode (f @ [del])) (\<lambda>m. k m s))) (br_new del, s) =
    cpp_bind (for_each ms k s) (\<lambda>s'. Ret (br_new del, s'))"
proof -
  obtain fs where fs: "encode_all encode ms = Ret (frame_stream del fs)"
    "\<forall>f \<in> set fs. del \<notin> set f" "list_all2 (\<lambda>f m. decode (f @ [del]) = Ret m) fs ms"
    using encode_all_frames [OF assms(1)] by blast
  then have "concat chunks = frame_stream del fs" using assms(2) by simp
  moreover have "split_frames del [] (frame_stream del fs) = (fs, [])"
    using split_frames_stream [of fs del "[]"] fs(2) by simp
  ultimately show ?thesis
    by (simp add: br_read_chunks br_read_frames br_new_def decode_each [OF fs(3)])
qed

end

lemma make_frame_ok:
  assumes "37 \<le> length uid" and "length msg + 38 < 2 ^ 32"
  shows "make_frame junk (uid, msg) = Ret (take 37 uid @ msg @ [EOT])"
proof -
  have "unat (frame_size (length msg)) = length msg + 38"
    using unat_of_nat_u32 [of "37 + length msg + 1"] assms(2) by (simp add: frame_size_def)
  then show ?thesis using assms by (simp add: make_frame_def pack_frame_ok)
qed

lemma make_frame_undef:
  assumes "length uid < 37 \<or> 2 ^ 32 \<le> length msg + 38" and "length msg < 2 ^ 32"
  shows "make_frame junk (uid, msg) = Undef"
proof -
  have "unat (frame_size (length msg)) = (length msg + 38) mod 2 ^ 32"
    unfolding frame_size_def unat_of_nat_u32_mod by (rule arg_cong) simp
  then have "unat (frame_size (length msg)) < 2 ^ 32"
    and "2 ^ 32 \<le> length msg + 38 \<Longrightarrow> unat (frame_size (length msg)) < length msg + 37"
    using assms(2) by (auto simp: mod_less_divisor le_mod_geq)
  then show ?thesis using assms by (auto simp: make_frame_def intro!: pack_frame_undef)
qed

interpretation frames: frame_codec valid_msg "make_frame junk" decode_frame EOT
proof
  fix um
  assume v: "valid_msg um"
  obtain uid msg where um: "um = (uid, msg)" by fastforce
  with v have "length uid = 37" "length msg + 38 < 2 ^ 32" "EOT \<notin> set (uid @ msg)"
    by (auto simp: valid_msg_def)
  then show "\<exists>body. make_frame junk um = Ret (body @ [EOT]) \<and> EOT \<notin> set body \<and>
      decode_frame (body @ [EOT]) = Ret um"
    using um by (intro exI [of _ "uid @ msg"]) (simp add: make_frame_ok decode_frame_ok del: append_assoc)
qed

subsection \<open>Properties\<close>

text \<open>
  \<^verbatim>\<open>unpack_frame\<close> inverts \<^verbatim>\<open>pack_frame\<close>: the frame that \<^verbatim>\<open>send_msg\<close> builds for a 37 byte uuid
  and a message of less than \<open>2 ^ 32 - 38\<close> bytes (any bytes) unpacks to that uuid and message.
\<close>

lemma frame_roundtrip:
  assumes "length uid = 37" and "length msg + 38 < 2 ^ 32"
  shows "cpp_bind (make_frame junk (uid, msg)) decode_frame = Ret (uid, msg)"
proof -
  have "decode_frame ((uid @ msg) @ [EOT]) = Ret (uid, msg)"
    using assms by (subst decode_frame_ok) simp_all
  then show ?thesis using assms by (simp add: make_frame_ok)
qed

text \<open>
  C10: framing on a stream. The frames of any messages, written one after the other and received in
  any chunks by a reader with the end of transmission delimiter, reach the message handler \<open>k\<close> as
  exactly these messages, in order, as long as the uuids have 37 bytes and neither uuids nor
  messages contain the delimiter.
\<close>

theorem stream_of_frames_delivered:
  assumes "\<forall>um \<in> set ums. valid_msg um"
    and "encode_all (make_frame junk) ums = Ret (concat chunks)"
  shows "for_each chunks (br_read (\<lambda>f s. cpp_bind (decode_frame (f @ [EOT])) (\<lambda>um. k um s)))
      (br_new EOT, s) = cpp_bind (for_each ums k s) (\<lambda>s'. Ret (br_new EOT, s'))"
  by (rule frames.read_encoded [OF assms])

theorem stream_of_frames_delivered_witness:
  "for_each [replicate 30 CHR ''u'', replicate 7 CHR ''u'' @ ''hi'' @ [EOT]]
      (br_read (\<lambda>f s. cpp_bind (decode_frame (f @ [EOT])) (\<lambda>um. Ret (s @ [um])))) (br_new EOT, []) =
     cpp_bind (for_each [(replicate 37 CHR ''u'', ''hi'')] (\<lambda>um s. Ret (s @ [um])) [])
       (\<lambda>s'. Ret (br_new EOT, s'))"
proof (rule stream_of_frames_delivered [where junk = "CHR ''?''"])
  show "\<forall>um \<in> set [(replicate 37 CHR ''u'', ''hi'')]. valid_msg um"
    by (simp add: valid_msg_def EOT_def)
  show "encode_all (make_frame CHR ''?'') [(replicate 37 CHR ''u'', ''hi'')] =
      Ret (concat [replicate 30 CHR ''u'', replicate 7 CHR ''u'' @ ''hi'' @ [EOT]])"
    by (simp add: encode_all_def make_frame_ok replicate_add [symmetric] flip: append_assoc)
qed

text \<open>
  C24: memory safety of building a frame. For messages below \<open>2 ^ 32\<close> bytes, sizing the buffer as
  \<^verbatim>\<open>uint32_t mfs = 37+size+1\<close> and packing into it stays in bounds exactly when the uuid has at
  least 37 bytes and \<open>size + 38\<close> fits into 32 bits; otherwise an access outside the uuid or outside
  the frame buffer happens.
\<close>

theorem make_frame_defined_iff:
  assumes "length msg < 2 ^ 32"
  shows "make_frame junk (uid, msg) =
    (if 37 \<le> length uid \<and> length msg + 38 < 2 ^ 32 then Ret (take 37 uid @ msg @ [EOT]) else Undef)"
  using make_frame_ok [of uid msg junk] make_frame_undef [of uid msg junk] assms by auto

theorem make_frame_defined_iff_witness: "make_frame CHR ''?'' (''short uuid'', ''hi'') = Undef"
  using make_frame_defined_iff [of "''hi''" "CHR ''?''" "''short uuid''"] by simp

end
