(* ===== verification/Socket_Utils.thy ===== *)
theory Socket_Utils
  imports Frames
begin

text \<open>
  The epoll and socket routines of \<^verbatim>\<open>socket_utils.cpp\<close>, shared by server and client. The kernel is a
  parameter: a routine takes the list of the answers its successive system calls get, for all
  lists, and a list that ends too early is a call that has not returned (\<open>Diverge\<close>). The calls that
  change kernel state are recorded in \<open>calls\<close>. The routines work on a state \<open>'s\<close> of their owner that
  holds an \<open>epoll_st\<close>; they reach it through an update function, as the sources pass
  \<^verbatim>\<open>sfd_events\<close> and its mutex by reference. Log output is not modelled.
\<close>

subsection \<open>Kernel interface\<close>

definition EPOLLIN :: u32 where "EPOLLIN = 1"
definition EPOLLOUT :: u32 where "EPOLLOUT = 4"
definition EPOLLERR :: u32 where "EPOLLERR = 8"
definition EPOLLHUP :: u32 where "EPOLLHUP = 16"
definition O_NONBLOCK :: u32 where "O_NONBLOCK = 2048"
definition EAGAIN :: int where "EAGAIN = 11"

datatype syscall =
    Fcntl_setfl sfd u32
  | Epoll_add sfd sfd u32      \<comment> \<open>\<^verbatim>\<open>epoll_ctl(ep, EPOLL_CTL_ADD, fd, events)\<close>\<close>
  | Epoll_mod sfd sfd u32      \<comment> \<open>\<^verbatim>\<open>epoll_ctl(ep, EPOLL_CTL_MOD, fd, events)\<close>\<close>
  | Sent sfd bytes             \<comment> \<open>the bytes a \<^verbatim>\<open>write\<close> on the descriptor accepted\<close>
  | Connect sfd bytes "16 word" \<comment> \<open>\<^verbatim>\<open>connect\<close> to an address and a port in network byte order\<close>
  | Close sfd

datatype read_ans = R_bytes bytes | R_err int
datatype write_ans = W_ok nat | W_err int

text \<open>The answers while one connection is accepted: \<^verbatim>\<open>accept\<close>, \<^verbatim>\<open>getnameinfo\<close>, \<^verbatim>\<open>fcntl\<close> twice, \<^verbatim>\<open>epoll_ctl\<close>.\<close>

record conn_ans =
  cin_fd :: sfd
  get_name_result :: int
  getfl_result :: int
  setfl_result :: int
  ctl_result :: int

datatype accept_ans = A_conn conn_ans | A_err int

record epoll_st =
  sfd_events :: "sfd \<rightharpoonup> u32"
  calls :: "syscall list"

definition log_call :: "syscall \<Rightarrow> epoll_st \<Rightarrow> epoll_st" where
  "log_call c st = st\<lparr>calls := calls st @ [c]\<rparr>"

subsection \<open>Resources of a connection\<close>

text \<open>
  \<^verbatim>\<open>ReadR\<close> and \<^verbatim>\<open>WriteR\<close> without their mutexes: a unit of work holds the mutex of its resource from
  its start to its end. \<open>expired\<close> is the test of both reapers, a difference of \<^verbatim>\<open>uint64_t\<close>.
\<close>

record ReadR =
  rr_br :: BufferedReader
  rr_valid :: bool

record WriteR =
  wr_bw :: BufferedWriter
  wr_valid :: bool

definition expired :: "u64 \<Rightarrow> u64 \<Rightarrow> bool" where
  "expired now death \<longleftrightarrow> now - death > 60000"

subsection \<open>Descriptors and epoll\<close>

definition htons :: "16 word \<Rightarrow> 16 word" where
  "htons w = push_bit 8 w OR drop_bit 8 w"

definition unblock_socket :: "int \<Rightarrow> int \<Rightarrow> sfd \<Rightarrow> epoll_st \<Rightarrow> epoll_st cpp" where
  "unblock_socket getfl setfl sfd st =
     (if getfl < 0 then Exit 1
      else let flags = (word_of_int getfl :: u32) OR O_NONBLOCK;
               st' = log_call (Fcntl_setfl sfd flags) st
           in if setfl < 0 then Exit 1 else Ret st')"

definition create_and_config_epoll :: "int \<Rightarrow> int \<Rightarrow> sfd \<Rightarrow> epoll_st \<Rightarrow> (sfd \<times> epoll_st) cpp" where
  "create_and_config_epoll ep_sfd set_result sfd st =
     (if ep_sfd < 0 then Exit 1
      else let st' = log_call (Epoll_add ep_sfd sfd EPOLLIN) st
           in if set_result < 0 then Exit 1 else Ret (ep_sfd, st'))"

definition set_epoll :: "sfd \<Rightarrow> sfd \<Rightarrow> u32 \<Rightarrow> epoll_st \<Rightarrow> epoll_st" where
  "set_epoll ep_sfd sfd events st = log_call (Epoll_mod ep_sfd sfd events) st"

text \<open>\<^verbatim>\<open>sfd_events[sfd] |= ev; set_epoll(ep_sfd, sfd, sfd_events[sfd]);\<close> under \<^verbatim>\<open>e_mutex\<close>, and the same with \<^verbatim>\<open>^=\<close>.\<close>

definition arm :: "u32 \<Rightarrow> sfd \<Rightarrow> sfd \<Rightarrow> epoll_st \<Rightarrow> epoll_st" where
  "arm ev ep_sfd sfd st =
     (let e = map_at (sfd_events st) 0 sfd OR ev
      in set_epoll ep_sfd sfd e (st\<lparr>sfd_events := (sfd_events st)(sfd \<mapsto> e)\<rparr>))"

definition toggle :: "u32 \<Rightarrow> sfd \<Rightarrow> sfd \<Rightarrow> epoll_st \<Rightarrow> epoll_st" where
  "toggle ev ep_sfd sfd st =
     (let e = map_at (sfd_events st) 0 sfd XOR ev
      in set_epoll ep_sfd sfd e (st\<lparr>sfd_events := (sfd_events st)(sfd \<mapsto> e)\<rparr>))"

text \<open>\<^verbatim>\<open>sfd_events[sfd] = e;\<close> under \<^verbatim>\<open>e_mutex\<close>: the kernel is not told.\<close>

definition set_mask :: "sfd \<Rightarrow> u32 \<Rightarrow> epoll_st \<Rightarrow> epoll_st" where
  "set_mask sfd e st = st\<lparr>sfd_events := (sfd_events st)(sfd \<mapsto> e)\<rparr>"

text \<open>
  \<^verbatim>\<open>add_fd_to_epoll\<close>: accept until \<^verbatim>\<open>accept\<close> fails. The result of \<^verbatim>\<open>epoll_ctl\<close> is stored as a
  \<^verbatim>\<open>uint32_t\<close> and compared with 0.
\<close>

fun add_fd_to_epoll ::
  "((epoll_st \<Rightarrow> epoll_st) \<Rightarrow> 's \<Rightarrow> 's) \<Rightarrow> ('s \<Rightarrow> epoll_st) \<Rightarrow> sfd \<Rightarrow> (sfd \<Rightarrow> 's \<Rightarrow> 's) \<Rightarrow>
   accept_ans list \<Rightarrow> 's \<Rightarrow> 's cpp" where
  "add_fd_to_epoll upd ep ep_sfd sa_callback [] s = Diverge"
| "add_fd_to_epoll upd ep ep_sfd sa_callback (A_err e # as) s = Ret s"
| "add_fd_to_epoll upd ep ep_sfd sa_callback (A_conn c # as) s =
     (if get_name_result c = 0 then
        cpp_bind (unblock_socket (getfl_result c) (setfl_result c) (cin_fd c) (ep s)) (\<lambda>st.
          let s1 = upd (\<lambda>_. log_call (Epoll_add ep_sfd (cin_fd c) EPOLLIN) st) s;
              add_result = (word_of_int (ctl_result c) :: u32);
              s2 = (if add_result < 0 then s1 else sa_callback (cin_fd c) s1)
          in add_fd_to_epoll upd ep ep_sfd sa_callback as s2)
      else add_fd_to_epoll upd ep ep_sfd sa_callback as s)"

subsection \<open>Draining a socket into a reader\<close>

fun read_loop ::
  "(bytes \<Rightarrow> 's \<Rightarrow> 's cpp) \<Rightarrow> ('s \<Rightarrow> 's) \<Rightarrow> read_ans list \<Rightarrow> BufferedReader \<times> 's \<Rightarrow>
   ((BufferedReader \<times> 's) \<times> bool) cpp" where
  "read_loop cb close_callback [] rs = Diverge"
| "read_loop cb close_callback (R_err errno # as) rs =
     (if errno = EAGAIN then Ret (rs, True) else Ret ((fst rs, close_callback (snd rs)), False))"
| "read_loop cb close_callback (R_bytes bs # as) rs =
     (if bs = [] then Ret ((fst rs, close_callback (snd rs)), False)
      else cpp_bind (br_read cb bs rs) (read_loop cb close_callback as))"

definition read_from_sfd ::
  "((epoll_st \<Rightarrow> epoll_st) \<Rightarrow> 's \<Rightarrow> 's) \<Rightarrow> (bytes \<Rightarrow> 's \<Rightarrow> 's cpp) \<Rightarrow> ('s \<Rightarrow> 's) \<Rightarrow> sfd \<Rightarrow> sfd \<Rightarrow>
   read_ans list \<Rightarrow> BufferedReader \<times> 's \<Rightarrow> (BufferedReader \<times> 's) cpp" where
  "read_from_sfd upd cb close_callback ep_sfd sfd as rs =
     cpp_bind (read_loop cb close_callback as rs) (\<lambda>((reader, s), set_epollin).
       Ret (reader, if set_epollin then upd (arm EPOLLIN ep_sfd sfd) s else s))"

subsection \<open>Draining a writer into a socket\<close>

definition chunk_size :: "BufferedWriter \<Rightarrow> nat" where
  "chunk_size w = (if bw_size w < 1024 then bw_size w else 1024)"

fun write_to_sfd ::
  "((epoll_st \<Rightarrow> epoll_st) \<Rightarrow> 's \<Rightarrow> 's) \<Rightarrow> ('s \<Rightarrow> 's) \<Rightarrow> char \<Rightarrow> sfd \<Rightarrow> sfd \<Rightarrow>
   write_ans list \<Rightarrow> BufferedWriter \<times> 's \<Rightarrow> (BufferedWriter \<times> 's) cpp" where
  "write_to_sfd upd close_callback junk ep_sfd sfd as (writer, s) =
     (if bw_size writer = 0 then Ret (writer, s)
      else case as of [] \<Rightarrow> Diverge
      | a # as' \<Rightarrow>
         cpp_bind (bw_iread (chunk_size writer) writer (replicate (chunk_size writer) junk)) (\<lambda>r_buff.
           case a of
             W_err errno \<Rightarrow>
               Ret (writer, if errno = EAGAIN then upd (arm EPOLLOUT ep_sfd sfd) s else close_callback s)
           | W_ok r \<Rightarrow>
               cpp_bind (bw_clear (chunk_size writer) writer) (\<lambda>writer'.
                 write_to_sfd upd close_callback junk ep_sfd sfd as'
                   (writer', upd (log_call (Sent sfd (take r r_buff))) s))))"

declare write_to_sfd.simps [simp del]

text \<open>The bytes accepted for a descriptor so far.\<close>

fun sent_on :: "sfd \<Rightarrow> syscall list \<Rightarrow> bytes" where
  "sent_on sfd [] = []"
| "sent_on sfd (Sent f bs # cs) = (if f = sfd then bs else []) @ sent_on sfd cs"
| "sent_on sfd (c # cs) = sent_on sfd cs"

text \<open>The kernel answers that accept every chunk of a queue of \<open>n\<close> bytes as a whole, up to an error.\<close>

fun full_writes :: "nat \<Rightarrow> write_ans list \<Rightarrow> bool" where
  "full_writes n [] = (n = 0)"
| "full_writes n (W_err e # as) = True"
| "full_writes n (W_ok r # as) = (n = 0 \<or> r = min 1024 n \<and> full_writes (n - min 1024 n) as)"


text \<open>The events of \<open>ev\<close> are all registered for the descriptor.\<close>

definition armed :: "u32 \<Rightarrow> epoll_st \<Rightarrow> sfd \<Rightarrow> bool" where
  "armed ev st sfd \<longleftrightarrow> (case sfd_events st sfd of None \<Rightarrow> False | Some e \<Rightarrow> e AND ev = ev)"

subsection \<open>Lemmas: events\<close>

lemma sent_on_append [simp]: "sent_on sfd (xs @ ys) = sent_on sfd xs @ sent_on sfd ys"
  by (induction sfd xs rule: sent_on.induct) auto

lemma log_call_simps [simp]:
  "sfd_events (log_call c st) = sfd_events st" "calls (log_call c st) = calls st @ [c]"
  by (simp_all add: log_call_def)

lemma arm_simps [simp]:
  "sfd_events (arm ev epf sfd st) = (sfd_events st)(sfd \<mapsto> map_at (sfd_events st) 0 sfd OR ev)"
  "calls (arm ev epf sfd st) = calls st @ [Epoll_mod epf sfd (map_at (sfd_events st) 0 sfd OR ev)]"
  by (simp_all add: arm_def set_epoll_def Let_def)

lemma toggle_simps [simp]:
  "sfd_events (toggle ev epf sfd st) = (sfd_events st)(sfd \<mapsto> map_at (sfd_events st) 0 sfd XOR ev)"
  "calls (toggle ev epf sfd st) = calls st @ [Epoll_mod epf sfd (map_at (sfd_events st) 0 sfd XOR ev)]"
  by (simp_all add: toggle_def set_epoll_def Let_def)

lemma or_and_absorb: "(e OR ev) AND ev = (ev :: u32)"
  by (rule bit_word_eqI) (auto simp: bit_simps)

lemma contains_iff: "e AND ev = ev \<longleftrightarrow> (\<forall>n. bit ev n \<longrightarrow> bit e n)" for e ev :: u32
proof
  assume "e AND ev = ev"
  then show "\<forall>n. bit ev n \<longrightarrow> bit e n" by (metis bit_and_iff)
next
  assume "\<forall>n. bit ev n \<longrightarrow> bit e n"
  then show "e AND ev = ev" by (intro bit_word_eqI) (auto simp: bit_simps)
qed

lemma armed_arm [simp]: "armed ev (arm ev epf sfd st) sfd"
  by (simp add: armed_def or_and_absorb)

lemma armed_log_call [simp]: "armed ev (log_call c st) sfd = armed ev st sfd"
  by (simp add: armed_def)

lemma armed_arm_mono: "armed ev st f \<Longrightarrow> armed ev (arm ev' epf sfd st) f"
proof -
  have "e AND ev = ev \<Longrightarrow> (e OR ev') AND ev = ev" for e :: u32
    by (simp add: contains_iff bit_or_iff)
  then show "armed ev st f \<Longrightarrow> ?thesis"
    by (auto simp: armed_def map_at_def split: option.splits)
qed

lemma armed_other: "f \<noteq> sfd \<Longrightarrow> armed ev (arm ev' epf sfd st) f = armed ev st f"
  "f \<noteq> sfd \<Longrightarrow> armed ev (toggle ev' epf sfd st) f = armed ev st f"
  by (simp_all add: armed_def)

text \<open>Toggling a registered event removes it and leaves every other event as it is.\<close>

lemma toggle_disarms:
  assumes "armed ev st sfd" and "ev \<noteq> 0"
  shows "\<not> armed ev (toggle ev epf sfd st) sfd"
proof -
  obtain e where e: "sfd_events st sfd = Some e" "e AND ev = ev"
    using assms(1) by (auto simp: armed_def split: option.splits)
  have "(e XOR ev) AND ev = (e AND ev) XOR ev"
    by (rule bit_word_eqI) (auto simp: bit_simps)
  then have "(e XOR ev) AND ev = 0" using e(2) by simp
  with e assms(2) show ?thesis by (simp add: armed_def)
qed

lemma toggle_keeps:
  assumes "ev' AND ev = 0"
  shows "armed ev (toggle ev' epf sfd st) f = armed ev st f \<or> ev = 0"
proof (cases "f = sfd \<and> sfd_events st f = None")
  case True
  have "ev' AND ev = ev \<Longrightarrow> ev = 0" using assms by simp
  with True show ?thesis by (auto simp: armed_def)
next
  case False
  have "(e XOR ev') AND ev = e AND ev" for e :: u32
  proof (rule bit_word_eqI)
    fix n
    have "\<not> (bit ev' n \<and> bit ev n)" using assms by (metis bit_and_iff bit_0_eq bot_apply bot_bool_def)
    then show "bit ((e XOR ev') AND ev) n = bit (e AND ev) n" by (auto simp: bit_simps)
  qed
  with False show ?thesis by (auto simp: armed_def map_at_def split: option.splits)
qed

text \<open>What the program last asked the epoll instance \<open>ep_sfd\<close> to report for a descriptor.\<close>

fun reg_step :: "sfd \<Rightarrow> sfd \<Rightarrow> syscall \<Rightarrow> u32 option \<Rightarrow> u32 option" where
  "reg_step ep_sfd sfd (Epoll_add epf f e) r = (if epf = ep_sfd \<and> f = sfd then Some e else r)"
| "reg_step ep_sfd sfd (Epoll_mod epf f e) r = (if epf = ep_sfd \<and> f = sfd then Some e else r)"
| "reg_step ep_sfd sfd c r = r"

definition registered :: "sfd \<Rightarrow> sfd \<Rightarrow> syscall list \<Rightarrow> u32 option" where
  "registered ep_sfd sfd cs = fold (reg_step ep_sfd sfd) cs None"

lemma registered_snoc [simp]:
  "registered ep_sfd sfd (cs @ [c]) = reg_step ep_sfd sfd c (registered ep_sfd sfd cs)"
  by (simp add: registered_def)

text \<open>
  Every event mask is made of \<^verbatim>\<open>EPOLLIN\<close> and \<^verbatim>\<open>EPOLLOUT\<close> only (\<open>masks_ok\<close>). A mask is what the
  epoll instance was last asked to report, unless it is the \<^verbatim>\<open>EPOLLIN\<close> that a new connection
  gets in the map, or the descriptor is in \<open>A\<close>, the descriptors that were added to epoll and did
  not get that mask yet (\<open>told_ok\<close>).
\<close>

definition ev_mask :: "u32 \<Rightarrow> bool" where
  "ev_mask e \<longleftrightarrow> e \<in> {0, EPOLLIN, EPOLLOUT, EPOLLIN OR EPOLLOUT}"

definition masks_ok :: "epoll_st \<Rightarrow> bool" where
  "masks_ok st \<longleftrightarrow> (\<forall>sfd e. sfd_events st sfd = Some e \<longrightarrow> ev_mask e)"

definition told_ok :: "sfd \<Rightarrow> sfd set \<Rightarrow> epoll_st \<Rightarrow> bool" where
  "told_ok ep_sfd A st \<longleftrightarrow> (\<forall>sfd e. sfd_events st sfd = Some e \<longrightarrow>
     registered ep_sfd sfd (calls st) = Some e \<or> e = EPOLLIN \<or> sfd \<in> A)"

lemmas ev_bits = EPOLLIN_def EPOLLOUT_def EPOLLERR_def EPOLLHUP_def

lemma ev_mask_bits [simp]: "ev_mask 0" "ev_mask EPOLLIN" "ev_mask EPOLLOUT"
  by (simp_all add: ev_mask_def)

lemma ev_mask_or: "ev_mask e \<Longrightarrow> ev \<in> {EPOLLIN, EPOLLOUT} \<Longrightarrow> ev_mask (e OR ev)"
  by (auto simp: ev_mask_def ev_bits)

lemma ev_mask_xor: "ev_mask e \<Longrightarrow> ev \<in> {EPOLLIN, EPOLLOUT} \<Longrightarrow> ev_mask (e XOR ev)"
  by (auto simp: ev_mask_def ev_bits)

lemma masks_ok_map_at: "masks_ok st \<Longrightarrow> ev_mask (map_at (sfd_events st) 0 sfd)"
  by (auto simp: masks_ok_def map_at_def split: option.splits)

lemma masks_ok_arm: "masks_ok st \<Longrightarrow> ev \<in> {EPOLLIN, EPOLLOUT} \<Longrightarrow> masks_ok (arm ev epf sfd st)"
  using ev_mask_or [OF masks_ok_map_at] by (auto simp: masks_ok_def)

lemma masks_ok_toggle: "masks_ok st \<Longrightarrow> ev \<in> {EPOLLIN, EPOLLOUT} \<Longrightarrow> masks_ok (toggle ev epf sfd st)"
  using ev_mask_xor [OF masks_ok_map_at] by (auto simp: masks_ok_def)

lemma masks_ok_log [simp]: "masks_ok (log_call c st) = masks_ok st"
  by (simp add: masks_ok_def)

lemma masks_ok_erase: "masks_ok st \<Longrightarrow> masks_ok (st\<lparr>sfd_events := map_erase sfd (sfd_events st)\<rparr>)"
  by (simp add: masks_ok_def)

lemma masks_ok_set: "masks_ok st \<Longrightarrow> ev_mask e \<Longrightarrow> masks_ok (set_mask sfd e st)"
  by (simp add: masks_ok_def set_mask_def)

lemmas masks_ok_intros = masks_ok_arm masks_ok_toggle masks_ok_erase masks_ok_set

lemma told_ok_arm: "told_ok epf A st \<Longrightarrow> told_ok epf A (arm ev epf sfd st)"
  by (auto simp: told_ok_def)

lemma told_ok_toggle: "told_ok epf A st \<Longrightarrow> told_ok epf A (toggle ev epf sfd st)"
  by (auto simp: told_ok_def)

lemma told_ok_log:
  "told_ok epf A st \<Longrightarrow> told_ok epf A (log_call (Sent f bs) st)"
  "told_ok epf A st \<Longrightarrow> told_ok epf A (log_call (Close f) st)"
  "told_ok epf A st \<Longrightarrow> told_ok epf A (log_call (Fcntl_setfl f fl) st)"
  "told_ok epf A st \<Longrightarrow> told_ok epf (insert f A) (log_call (Epoll_add epg f ev) st)"
  by (auto simp: told_ok_def)

lemma told_ok_erase: "told_ok epf A st \<Longrightarrow> told_ok epf A (st\<lparr>sfd_events := map_erase sfd (sfd_events st)\<rparr>)"
  by (simp add: told_ok_def)

text \<open>After \<^verbatim>\<open>sfd_events[sfd] = EPOLLIN\<close> the descriptor need not be in \<open>A\<close> any more.\<close>

lemma told_ok_set: "told_ok epf A st \<Longrightarrow> A \<subseteq> insert sfd A' \<Longrightarrow> told_ok epf A' (set_mask sfd EPOLLIN st)"
  by (auto simp: told_ok_def set_mask_def)

lemmas told_ok_intros = told_ok_arm told_ok_toggle told_ok_log told_ok_erase told_ok_set

lemma unblock_socket_Ret:
  "unblock_socket g f fd st = Ret st' \<Longrightarrow> \<exists>fl. st' = log_call (Fcntl_setfl fd fl) st"
  by (auto simp: unblock_socket_def Let_def split: if_splits)

subsection \<open>Lemmas: reading\<close>

lemma ReadR_updates:
  "r\<lparr>rr_valid := y, rr_br := x\<rparr> = \<lparr>rr_br = x, rr_valid = y\<rparr>"
  "r\<lparr>rr_br := x, rr_valid := y\<rparr> = \<lparr>rr_br = x, rr_valid = y\<rparr>"
  "rr_valid r \<Longrightarrow> r\<lparr>rr_br := x\<rparr> = \<lparr>rr_br = x, rr_valid = True\<rparr>" for r :: ReadR
  by (cases r; simp)+

lemma read_loop_chunks:
  "\<forall>c \<in> set chunks. c \<noteq> [] \<Longrightarrow>
   read_loop cb cl (map R_bytes chunks @ as) rs = cpp_bind (br_read cb (concat chunks) rs) (read_loop cb cl as)"
proof (induction chunks arbitrary: rs)
  case (Cons c cs)
  then have "read_loop cb cl (map R_bytes cs @ as) = (\<lambda>rs. cpp_bind (br_read cb (concat cs) rs) (read_loop cb cl as))"
    by (intro ext) simp
  with Cons.prems show ?case by (simp add: br_read_append cpp_bind_assoc)
qed simp

lemma read_loop_inv:
  assumes "read_loop cb cl as (r, s) = Ret ((r', s'), b)" and "reader_ok d r" and "P s"
    and "\<And>f s s'. P s \<Longrightarrow> cb f s = Ret s' \<Longrightarrow> P s'"
  shows "reader_ok d r' \<and> (if b then P s' else \<exists>t. P t \<and> s' = cl t)"
  using assms
proof (induction as arbitrary: r s)
  case (Cons a as)
  show ?case
  proof (cases a)
    case (R_err e)
    then show ?thesis using Cons.prems by (auto split: if_splits)
  next
    case (R_bytes bs)
    show ?thesis
    proof (cases "bs = []")
      case False
      then obtain rs where rd: "br_read cb bs (r, s) = Ret rs"
        and rest: "read_loop cb cl as rs = Ret ((r', s'), b)"
        using Cons.prems(1) R_bytes by (auto simp: cpp_bind_Ret_iff)
      obtain r1 s1 where rs: "rs = (r1, s1)" by fastforce
      have "reader_ok d r1 \<and> P s1"
        using br_read_inv [OF rd [unfolded rs] Cons.prems(2), of P] Cons.prems(3,4) by blast
      then show ?thesis using Cons.IH [OF rest [unfolded rs]] Cons.prems(4) by blast
    qed (use Cons.prems R_bytes in auto)
  qed
qed simp

lemma read_from_sfd_inv:
  assumes "read_from_sfd upd cb cl epf sfd as (r, s) = Ret (r', s')" and "reader_ok d r" and "P s"
    and "\<And>f s s'. P s \<Longrightarrow> cb f s = Ret s' \<Longrightarrow> P s'"
  shows "reader_ok d r' \<and> (\<exists>t. P t \<and> (s' = upd (arm EPOLLIN epf sfd) t \<or> s' = cl t))"
proof -
  obtain s1 b where l: "read_loop cb cl as (r, s) = Ret ((r', s1), b)"
    and s': "s' = (if b then upd (arm EPOLLIN epf sfd) s1 else s1)"
    using assms(1) by (auto simp: read_from_sfd_def cpp_bind_Ret_iff)
  have "reader_ok d r' \<and> (if b then P s1 else \<exists>t. P t \<and> s1 = cl t)"
    using read_loop_inv [OF l assms(2), of P] assms(3,4) by blast
  with s' show ?thesis by (auto split: if_splits)
qed

subsection \<open>Lemmas: writing\<close>

lemma chunk_size_min: "chunk_size w = min 1024 (bw_size w)"
  by (auto simp: chunk_size_def)

lemma write_chunk:
  "bw_iread (chunk_size w) w (replicate (chunk_size w) junk) = Ret (take (chunk_size w) (bw_buffer w))"
  "bw_clear (chunk_size w) w = Ret (w\<lparr>bw_buffer := drop (chunk_size w) (bw_buffer w)\<rparr>)"
  by (simp_all add: bw_iread_ok bw_clear_ok chunk_size_def bw_size_def)

lemma write_to_sfd_empty: "bw_buffer w = [] \<Longrightarrow> write_to_sfd upd cl junk epf sfd as (w, s) = Ret (w, s)"
  by (simp add: write_to_sfd.simps bw_size_def)

lemma write_to_sfd_err:
  "bw_buffer w \<noteq> [] \<Longrightarrow> write_to_sfd upd cl junk epf sfd (W_err e # as) (w, s) =
     Ret (w, if e = EAGAIN then upd (arm EPOLLOUT epf sfd) s else cl s)"
  by (simp add: write_to_sfd.simps bw_size_def write_chunk)

lemma write_to_sfd_ok:
  "bw_buffer w \<noteq> [] \<Longrightarrow> write_to_sfd upd cl junk epf sfd (W_ok r # as) (w, s) =
     write_to_sfd upd cl junk epf sfd as
       (w\<lparr>bw_buffer := drop (chunk_size w) (bw_buffer w)\<rparr>,
        upd (log_call (Sent sfd (take r (take (chunk_size w) (bw_buffer w))))) s)"
  by (subst write_to_sfd.simps) (simp add: bw_size_def write_chunk)

lemma write_to_sfd_inv:
  assumes "write_to_sfd upd cl junk epf sfd as (w, s) = Ret (w', s')" and "P s"
    and "\<And>s bs. P s \<Longrightarrow> P (upd (log_call (Sent sfd bs)) s)"
    and "\<And>s. P s \<Longrightarrow> P (upd (arm EPOLLOUT epf sfd) s)" and "\<And>s. P s \<Longrightarrow> P (cl s)"
  shows "P s'"
  using assms
proof (induction as arbitrary: w s)
  case Nil
  then show ?case by (cases "bw_buffer w = []") (auto simp: write_to_sfd.simps bw_size_def)
next
  case (Cons a as)
  show ?case
  proof (cases "bw_buffer w = []")
    case False
    then show ?thesis
      using Cons by (cases a) (auto simp: write_to_sfd_err write_to_sfd_ok split: if_splits)
  qed (use Cons in \<open>simp add: write_to_sfd_empty\<close>)
qed

text \<open>\<open>n\<close> answers are enough for \<open>1024 * n\<close> queued bytes: the loop ends.\<close>

lemma write_to_sfd_returns:
  "bw_size w \<le> 1024 * length as \<Longrightarrow> \<exists>ws. write_to_sfd upd cl junk epf sfd as (w, s) = Ret ws"
proof (induction as arbitrary: w s)
  case Nil
  then show ?case by (simp add: write_to_sfd_empty bw_size_def)
next
  case (Cons a as)
  show ?case
  proof (cases "bw_buffer w = []")
    case False
    then show ?thesis
    proof (cases a)
      case (W_ok r)
      have "bw_size (w\<lparr>bw_buffer := drop (chunk_size w) (bw_buffer w)\<rparr>) \<le> 1024 * length as"
        using Cons.prems by (auto simp: bw_size_def chunk_size_def)
      from Cons.IH [OF this] False W_ok show ?thesis by (simp add: write_to_sfd_ok)
    qed (simp add: write_to_sfd_err)
  qed (simp add: write_to_sfd_empty)
qed

subsection \<open>The contract of the owner of the events\<close>

locale epoll_owner =
  fixes ep :: "'s \<Rightarrow> epoll_st"
    and upd :: "(epoll_st \<Rightarrow> epoll_st) \<Rightarrow> 's \<Rightarrow> 's"
  assumes ep_upd: "ep (upd f s) = f (ep s)"
begin

text \<open>
  As long as the kernel takes whole chunks, the bytes sent followed by the bytes still queued are
  the bytes queued at the start, and either nothing is left or the descriptor waits for
  \<^verbatim>\<open>EPOLLOUT\<close> or the connection failed and was closed.
\<close>

lemma write_conserves:
  assumes "\<And>s. ep (cl s) = ep s" and "\<And>s. closed (cl s)" and "full_writes (bw_size w) as"
  shows "\<exists>w' s'. write_to_sfd upd cl junk epf sfd as (w, s) = Ret (w', s')
    \<and> sent_on sfd (calls (ep s')) @ bw_buffer w' = sent_on sfd (calls (ep s)) @ bw_buffer w
    \<and> (bw_buffer w' = [] \<or> armed EPOLLOUT (ep s') sfd \<or> closed s')"
  using assms(3)
proof (induction as arbitrary: w s)
  case Nil
  then show ?case by (simp add: write_to_sfd_empty bw_size_def)
next
  case (Cons a as)
  show ?case
  proof (cases "bw_buffer w = []")
    case True
    then show ?thesis by (simp add: write_to_sfd_empty)
  next
    case ne: False
    show ?thesis
    proof (cases a)
      case (W_err e)
      then show ?thesis using ne assms(1,2) by (auto simp: write_to_sfd_err ep_upd)
    next
      case (W_ok r)
      let ?w = "w\<lparr>bw_buffer := drop (chunk_size w) (bw_buffer w)\<rparr>"
      let ?s = "upd (log_call (Sent sfd (take r (take (chunk_size w) (bw_buffer w))))) s"
      have r: "r = chunk_size w" "full_writes (bw_size w - chunk_size w) as"
        using Cons.prems W_ok ne by (auto simp: chunk_size_min bw_size_def)
      then have "full_writes (bw_size ?w) as" by (simp add: bw_size_def)
      from Cons.IH [OF this, of ?s] obtain w' s' where
        "write_to_sfd upd cl junk epf sfd as (?w, ?s) = Ret (w', s')"
        "sent_on sfd (calls (ep s')) @ bw_buffer w' = sent_on sfd (calls (ep ?s)) @ bw_buffer ?w"
        "bw_buffer w' = [] \<or> armed EPOLLOUT (ep s') sfd \<or> closed s'"
        by blast
      then show ?thesis using ne W_ok r(1) by (auto simp: write_to_sfd_ok ep_upd)
    qed
  qed
qed

text \<open>
  When the kernel takes every chunk as a whole and reports no error, everything that was queued is
  sent, and whatever does not depend on the bytes sent is as before.
\<close>

lemma write_all:
  assumes "full_writes (bw_size w) as" and "\<forall>a \<in> set as. \<forall>e. a \<noteq> W_err e"
    and "P s" and "\<And>s bs. P s \<Longrightarrow> P (upd (log_call (Sent sfd bs)) s)"
  shows "\<exists>s'. write_to_sfd upd cl junk epf sfd as (w, s) = Ret (bw_new, s') \<and> P s'
    \<and> sent_on sfd (calls (ep s')) = sent_on sfd (calls (ep s)) @ bw_buffer w"
  using assms
proof (induction as arbitrary: w s)
  case Nil
  then have "w = bw_new" by (cases w) (simp add: bw_size_def bw_new_def)
  with Nil show ?case by (simp add: write_to_sfd_empty)
next
  case (Cons a as)
  show ?case
  proof (cases "bw_buffer w = []")
    case True
    then have "w = bw_new" by (cases w) (simp add: bw_new_def)
    with True Cons.prems show ?thesis by (simp add: write_to_sfd_empty)
  next
    case ne: False
    obtain r where a: "a = W_ok r" using Cons.prems(2) by (cases a) auto
    let ?w = "w\<lparr>bw_buffer := drop (chunk_size w) (bw_buffer w)\<rparr>"
    let ?s = "upd (log_call (Sent sfd (take r (take (chunk_size w) (bw_buffer w))))) s"
    have r: "r = chunk_size w" "full_writes (bw_size ?w) as"
      using Cons.prems(1) a ne by (auto simp: chunk_size_min bw_size_def)
    from Cons.IH [OF r(2) _ Cons.prems(4) [OF Cons.prems(3)] Cons.prems(4), of "take (chunk_size w) (bw_buffer w)"]
    show ?thesis using Cons.prems(2) ne a r(1) by (auto simp: write_to_sfd_ok ep_upd)
  qed
qed

end

end
