(* ===== verification/Locks.thy ===== *)
theory Locks
  imports Socket_Utils Transition
begin

text \<open>
  The mutexes of \<^verbatim>\<open>SocketServer\<close> and \<^verbatim>\<open>SocketClient\<close>. The other theories take a unit of work as one
  step; here it is the sequence in which its method locks and unlocks, on the branch its arguments
  choose, and threads interleave at every lock and unlock. \<open>lock_order\<close> is the contract of methods
  that take mutexes in the order of a rank: it excludes deadlock. The server keeps it, and the
  client does as long as response callbacks return and do not use the client.
  Mutexes no second thread can wait for while holding another are left out: those of a thread
  pool, which \<^verbatim>\<open>add_work\<close> takes with no other mutex held, and the local one of a blocking \<^verbatim>\<open>send_msg\<close>.
\<close>

subsection \<open>Threads and mutexes\<close>

datatype 'm act = Acq 'm | Rel 'm

text \<open>A thread: the mutexes it holds, the last one first, and what it still does.\<close>

type_synonym 'm lk_thread = "'m list \<times> 'm act list"

inductive lk_step :: "'m lk_thread list \<Rightarrow> nat \<Rightarrow> 'm lk_thread list \<Rightarrow> bool" where
  acquire: "i < length ts \<Longrightarrow> ts ! i = (held, Acq m # as) \<Longrightarrow> \<forall>t \<in> set ts. m \<notin> set (fst t) \<Longrightarrow>
    lk_step ts i (ts[i := (m # held, as)])"
| release: "i < length ts \<Longrightarrow> ts ! i = (m # held, Rel m # as) \<Longrightarrow> lk_step ts i (ts[i := (held, as)])"

inductive_cases lk_stepE: "lk_step ts i ts'"

text \<open>The step of thread \<open>i\<close> as a function, to run schedules.\<close>

definition lk_next :: "'m lk_thread list \<Rightarrow> nat \<Rightarrow> 'm lk_thread list option" where
  "lk_next ts i =
     (if i < length ts then
        let held = fst (ts ! i)
        in case snd (ts ! i) of
             [] \<Rightarrow> None
           | Acq m # as \<Rightarrow> if \<forall>t \<in> set ts. m \<notin> set (fst t) then Some (ts[i := (m # held, as)]) else None
           | Rel m # as \<Rightarrow> if held \<noteq> [] \<and> hd held = m then Some (ts[i := (tl held, as)]) else None
      else None)"

lemma lk_step_next: "lk_step ts i ts' \<longleftrightarrow> lk_next ts i = Some ts'"
proof
  show "lk_next ts i = Some ts'" if "lk_step ts i ts'"
    using that by (induction rule: lk_step.induct) (simp_all add: lk_next_def)
  show "lk_step ts i ts'" if nx: "lk_next ts i = Some ts'"
  proof -
    obtain held a as where t: "i < length ts" "ts ! i = (held, a # as)"
      using nx by (cases "ts ! i"; cases "snd (ts ! i)") (auto simp: lk_next_def split: if_splits)
    show ?thesis
    proof (cases a)
      case (Acq m)
      then show ?thesis using nx t acquire [of i ts held m as] by (auto simp: lk_next_def split: if_splits)
    next
      case (Rel m)
      then obtain held' where "held = m # held'" using nx t by (cases held) (auto simp: lk_next_def split: if_splits)
      then show ?thesis using nx t Rel release [of i ts m held' as] by (auto simp: lk_next_def)
    qed
  qed
qed

fun lk_schedule :: "nat list \<Rightarrow> 'm lk_thread list \<Rightarrow> 'm lk_thread list option" where
  "lk_schedule [] ts = Some ts"
| "lk_schedule (i # is) ts = Option.bind (lk_next ts i) (lk_schedule is)"

lemma lk_schedule_run: "lk_schedule is ts = Some ts' \<Longrightarrow> run lk_step ts is ts'"
  by (induction "is" arbitrary: ts) (auto simp: lk_step_next bind_eq_Some_conv intro: run.intros)

lemma lk_schedule_stuck:
  assumes "lk_schedule is ts = Some ts'" and "\<forall>t \<in> set ts'. snd t \<noteq> []" and "\<forall>i. lk_next ts' i = None"
  shows "\<exists>es ts'. run lk_step ts es ts' \<and> (\<forall>t \<in> set ts'. snd t \<noteq> []) \<and> (\<nexists>i ts''. lk_step ts' i ts'')"
  using lk_schedule_run [OF assms(1)] assms(2,3) by (auto simp: lk_step_next)

definition critical :: "'m \<Rightarrow> 'm act list \<Rightarrow> 'm act list" where
  "critical m body = Acq m # body @ [Rel m]"

text \<open>Mutexes are released in the reverse order, and taken only above all that are held.\<close>

fun ordered :: "('m \<Rightarrow> nat) \<Rightarrow> 'm list \<Rightarrow> 'm act list \<Rightarrow> bool" where
  "ordered rank held [] = (held = [])"
| "ordered rank held (Acq m # as) = ((\<forall>h \<in> set held. rank h < rank m) \<and> ordered rank (m # held) as)"
| "ordered rank [] (Rel m # as) = False"
| "ordered rank (h # held) (Rel m # as) = (h = m \<and> ordered rank held as)"

text \<open>Code that runs with \<open>held\<close> held and leaves it so.\<close>

definition safe :: "('m \<Rightarrow> nat) \<Rightarrow> 'm list \<Rightarrow> 'm act list \<Rightarrow> bool" where
  "safe rank held p \<longleftrightarrow> (\<forall>as. ordered rank held as \<longrightarrow> ordered rank held (p @ as))"

lemma safe_nil [simp]: "safe rank held []"
  by (simp add: safe_def)

lemma safe_append [simp]: "safe rank held p \<Longrightarrow> safe rank held q \<Longrightarrow> safe rank held (p @ q)"
  by (simp add: safe_def)

lemma safe_concat [simp]: "\<forall>p \<in> set ps. safe rank held p \<Longrightarrow> safe rank held (concat ps)"
  by (induction ps) auto

lemma safe_critical [simp]:
  "\<forall>h \<in> set held. rank h < rank m \<Longrightarrow> safe rank (m # held) body \<Longrightarrow> safe rank held (critical m body)"
  by (simp add: safe_def critical_def)

text \<open>The threads of a program: each performs methods one after the other.\<close>

definition lk_init :: "'m act list set \<Rightarrow> 'm lk_thread list \<Rightarrow> bool" where
  "lk_init methods ts \<longleftrightarrow> (\<forall>t \<in> set ts. fst t = [] \<and> (\<exists>ps. set ps \<subseteq> methods \<and> snd t = concat ps))"

definition lk_weight :: "'m lk_thread list \<Rightarrow> nat" where
  "lk_weight ts = sum_list (map (length \<circ> snd) ts)"

lemma lk_weight_split [simp]: "lk_weight (xs @ t # ys) = lk_weight xs + length (snd t) + lk_weight ys"
  by (simp add: lk_weight_def)

lemma lk_weight_step:
  assumes "lk_step ts i ts'"
  shows "lk_weight ts' < lk_weight ts"
proof -
  obtain h a as h' where i: "i < length ts" "ts ! i = (h, a # as)" "ts' = ts[i := (h', as)]"
    using assms by (cases rule: lk_stepE) auto
  then have "ts = take i ts @ (h, a # as) # drop (Suc i) ts" by (metis id_take_nth_drop)
  then have "lk_weight ts = lk_weight (take i ts @ (h, a # as) # drop (Suc i) ts)" by simp
  moreover have "ts' = take i ts @ (h', as) # drop (Suc i) ts" using i by (simp add: upd_conv_take_nth_drop)
  ultimately show ?thesis by simp
qed

definition lk_inv :: "('m \<Rightarrow> nat) \<Rightarrow> 'm lk_thread list \<Rightarrow> bool" where
  "lk_inv rank ts \<longleftrightarrow> (\<forall>t \<in> set ts. ordered rank (fst t) (snd t))"

subsection \<open>A rank excludes deadlock\<close>

locale lock_order =
  fixes rank :: "'m \<Rightarrow> nat"
    and methods :: "'m act list set"
  assumes method_safe: "p \<in> methods \<Longrightarrow> safe rank [] p"
begin

lemma lk_inv_init: "lk_init methods ts \<Longrightarrow> lk_inv rank ts"
proof (unfold lk_inv_def, rule ballI)
  fix t
  assume "lk_init methods ts" "t \<in> set ts"
  then obtain ps where "fst t = []" "set ps \<subseteq> methods" "snd t = concat ps" by (auto simp: lk_init_def)
  moreover from this have "safe rank [] (concat ps)" using method_safe by (intro safe_concat) blast
  ultimately show "ordered rank (fst t) (snd t)" by (auto simp: safe_def dest: spec [of _ "[]"])
qed

lemma lk_inv_step: "lk_inv rank ts \<Longrightarrow> lk_step ts i ts' \<Longrightarrow> lk_inv rank ts'"
  unfolding lk_inv_def
  by (elim lk_stepE) (auto dest!: subsetD [OF set_update_subset_insert] dest: bspec [OF _ nth_mem])

text \<open>
  A thread that cannot move wants a mutex somebody holds. The holder wants one of higher rank, so
  the one that wants the highest cannot be blocked.
\<close>

lemma blocked_wants:
  assumes "lk_inv rank ts" and "i < length ts" and "snd (ts ! i) \<noteq> []" and "\<nexists>ts'. lk_step ts i ts'"
  shows "\<exists>m as. snd (ts ! i) = Acq m # as \<and>
    (\<exists>j < length ts. m \<in> set (fst (ts ! j)) \<and> snd (ts ! j) \<noteq> [])"
proof -
  obtain held a as where t: "ts ! i = (held, a # as)" using assms(3) by (cases "ts ! i"; cases "snd (ts ! i)") auto
  have ord: "ordered rank (fst (ts ! j)) (snd (ts ! j))" if "j < length ts" for j
    using assms(1) that by (simp add: lk_inv_def)
  show ?thesis
  proof (cases a)
    case (Acq m)
    then obtain j where j: "j < length ts" "m \<in> set (fst (ts ! j))"
      using assms(2,4) t acquire [of i ts held m as] by (metis in_set_conv_nth)
    moreover have "snd (ts ! j) \<noteq> []" using ord [OF j(1)] j(2) by (cases "snd (ts ! j)") auto
    ultimately show ?thesis using t Acq by auto
  next
    case (Rel m)
    then obtain held' where "ts ! i = (m # held', Rel m # as)" using ord [OF assms(2)] t by (cases held) auto
    then show ?thesis using release [OF assms(2)] assms(4) by blast
  qed
qed

lemma no_deadlock:
  assumes "lk_inv rank ts"
  shows "(\<forall>t \<in> set ts. t = ([], [])) \<or> (\<exists>i ts'. lk_step ts i ts')"
proof (rule ccontr)
  assume bad: "\<not> ?thesis"
  let ?busy = "{i. i < length ts \<and> snd (ts ! i) \<noteq> []}"
  let ?want = "\<lambda>i. case hd (snd (ts ! i)) of Acq m \<Rightarrow> rank m | Rel m \<Rightarrow> 0"
  have ord: "ordered rank (fst (ts ! j)) (snd (ts ! j))" if "j < length ts" for j
    using assms that by (simp add: lk_inv_def)
  have "?busy \<noteq> {}"
  proof
    assume "?busy = {}"
    then have "ts ! j = ([], [])" if "j < length ts" for j
      using ord [OF that] that by (cases "ts ! j") auto
    then show False using bad by (metis in_set_conv_nth)
  qed
  moreover have "finite ?busy" by simp
  ultimately obtain i where i: "i \<in> ?busy" "\<forall>j \<in> ?busy. ?want j \<le> ?want i"
    using Max_in [of "?want ` ?busy"] Max_ge [of "?want ` ?busy"] by (smt (verit) finite_imageI imageE image_eqI image_is_empty)
  obtain m as j where m: "snd (ts ! i) = Acq m # as" "j \<in> ?busy" "m \<in> set (fst (ts ! j))"
    using blocked_wants [OF assms] i(1) bad by blast
  obtain m' as' where m': "snd (ts ! j) = Acq m' # as'" using blocked_wants [OF assms] m(2) bad by blast
  have "rank m < rank m'" using ord [of j] m(2,3) m' by auto
  moreover have "rank m' \<le> rank m" using i(2) m(1,2) m' by force
  ultimately show False by simp
qed

end

sublocale lock_order \<subseteq> lk: step_measure lk_step "lk_init methods" "lk_inv rank" "\<lambda>_. True" lk_weight
  by unfold_locales (auto intro: lk_inv_init lk_inv_step lk_weight_step)

context lock_order
begin

lemma completes:
  assumes "reach (lk_init methods) lk_step ts"
  shows "((\<forall>t \<in> set ts. t = ([], [])) \<or> (\<exists>i ts'. lk_step ts i ts'))
    \<and> (\<exists>es ts'. run lk_step ts es ts' \<and> (\<forall>t \<in> set ts'. t = ([], [])))
    \<and> (\<forall>es ts'. run lk_step ts es ts' \<longrightarrow> length es \<le> lk_weight ts)"
proof -
  note inv = lk.inv_reach [OF assms]
  obtain es ts' where run: "run lk_step ts es ts'" "\<not> (\<exists>i u. lk_step ts' i u)"
    using lk.internal_run_to_rest [OF inv] by blast
  then have "\<forall>t \<in> set ts'. t = ([], [])" using no_deadlock lk.inv_run [OF run(1) inv] by blast
  moreover have "length es \<le> lk_weight ts" if "run lk_step ts es ts'" for es ts'
    using lk.internal_run_bounded [OF that inv] by simp
  ultimately show ?thesis using no_deadlock [OF inv] run(1) by blast
qed

end

subsection \<open>The mutexes of server and client\<close>

text \<open>
  \<^verbatim>\<open>r_mutex\<close>, \<^verbatim>\<open>w_mutex\<close>, \<^verbatim>\<open>e_mutex\<close> and \<^verbatim>\<open>z_mutex\<close> of both classes, the mutexes of the read and
  write resources of a descriptor, and \<^verbatim>\<open>hs_mutex\<close>, \<^verbatim>\<open>conn_mutex\<close>, \<^verbatim>\<open>call_backs_mutex\<close> and
  \<^verbatim>\<open>eh_mutex\<close> of the client.
\<close>

datatype mutex_name = M_r | M_w | M_e | M_z | M_rr sfd | M_wr sfd | M_hs | M_conn | M_call_backs | M_eh

type_synonym locking = "mutex_name act list"

fun mutex_rank :: "mutex_name \<Rightarrow> nat" where
  "mutex_rank (M_rr f) = 0"
| "mutex_rank (M_wr f) = 1"
| "mutex_rank M_z = 2"
| "mutex_rank M_eh = 3"
| "mutex_rank m = 4"

text \<open>How a drain of a socket ends: on \<^verbatim>\<open>EAGAIN\<close>, by the close callback, or (writing) with nothing left.\<close>

datatype io_end = Would_block | Closed | Drained

subsection \<open>Methods of SocketServer\<close>

definition lk_sv_a_zombied :: locking where
  "lk_sv_a_zombied = critical M_z []"

definition lk_sv_add :: locking where
  "lk_sv_add = critical M_r [] @ critical M_w [] @ critical M_e []"

text \<open>\<open>found\<close>: whether the descriptor has resources.\<close>

definition lk_sv_send_msg :: "sfd \<times> bool \<Rightarrow> locking" where
  "lk_sv_send_msg x =
     (case x of (sfd, found) \<Rightarrow>
        critical M_w [] @ (if found then critical (M_wr sfd) [] @ critical M_e [] else []))"

text \<open>\<open>sends\<close> are the calls of \<^verbatim>\<open>send_msg\<close> the handler makes for the frames that are read.\<close>

definition lk_sv_read :: "sfd \<Rightarrow> bool \<Rightarrow> bool \<Rightarrow> (sfd \<times> bool) list \<Rightarrow> io_end \<Rightarrow> locking" where
  "lk_sv_read sfd found valid sends fin =
     critical M_r [] @
     (if found then critical (M_rr sfd)
        (if valid then concat (map lk_sv_send_msg sends) @
           (if fin = Would_block then critical M_e [] else lk_sv_a_zombied)
         else [])
      else [])"

definition lk_sv_write :: "sfd \<Rightarrow> bool \<Rightarrow> bool \<Rightarrow> io_end \<Rightarrow> locking" where
  "lk_sv_write sfd found valid fin =
     critical M_w [] @
     (if found then critical (M_wr sfd)
        (if valid then (case fin of Would_block \<Rightarrow> critical M_e [] | Closed \<Rightarrow> lk_sv_a_zombied | Drained \<Rightarrow> []) else [])
      else [])"

definition lk_sv_close_n_clean :: locking where
  "lk_sv_close_n_clean = critical M_r [] @ critical M_w [] @ critical M_e []"

text \<open>\<open>n\<close>: the number of expired zombies of the pass.\<close>

definition lk_sv_reap :: "nat \<Rightarrow> locking" where
  "lk_sv_reap n = critical M_z (concat (replicate n lk_sv_close_n_clean))"

text \<open>The read and write callbacks of the event loop.\<close>

definition lk_sv_callback :: locking where
  "lk_sv_callback = critical M_e []"

datatype sv_op = Sv_add | Sv_callback | Sv_hup | Sv_read sfd bool bool "(sfd \<times> bool) list" io_end
  | Sv_write sfd bool bool io_end | Sv_send_msg sfd bool | Sv_reap nat

fun sv_locks :: "sv_op \<Rightarrow> locking" where
  "sv_locks Sv_add = lk_sv_add"
| "sv_locks Sv_callback = lk_sv_callback"
| "sv_locks Sv_hup = lk_sv_a_zombied"
| "sv_locks (Sv_read sfd found valid sends fin) = lk_sv_read sfd found valid sends fin"
| "sv_locks (Sv_write sfd found valid fin) = lk_sv_write sfd found valid fin"
| "sv_locks (Sv_send_msg sfd found) = lk_sv_send_msg (sfd, found)"
| "sv_locks (Sv_reap n) = lk_sv_reap n"

lemmas sv_lock_defs = lk_sv_add_def lk_sv_callback_def lk_sv_a_zombied_def lk_sv_read_def lk_sv_write_def
  lk_sv_close_n_clean_def lk_sv_reap_def

lemma sv_send_safe [simp]: "\<forall>h \<in> set held. mutex_rank h = 0 \<Longrightarrow> safe mutex_rank held (lk_sv_send_msg x)"
  by (cases x) (simp add: lk_sv_send_msg_def)

lemma sv_locks_safe: "safe mutex_rank [] (sv_locks op)"
  by (cases op) (auto simp: sv_lock_defs split: io_end.splits)

interpretation svl: lock_order mutex_rank "range sv_locks"
  by unfold_locales (auto intro: sv_locks_safe)

subsection \<open>Methods of SocketClient\<close>

definition lk_sc_a_zombied :: locking where
  "lk_sc_a_zombied = critical M_conn [] @ critical M_hs [] @ critical M_z []"

definition lk_make_connection :: "bool \<Rightarrow> locking" where
  "lk_make_connection success =
     (if success then critical M_conn [] @ critical M_e [] else []) @ critical M_hs []"

text \<open>\<open>oks\<close> are the results of \<^verbatim>\<open>make_connection\<close>, one per host or zombie.\<close>

definition lk_connect_to_hosts :: "bool list \<Rightarrow> locking" where
  "lk_connect_to_hosts oks =
     concat (map (\<lambda>ok. lk_make_connection ok @ (if ok then [] else critical M_eh [])) oks)"

definition lk_retry_conn :: "bool list \<Rightarrow> locking" where
  "lk_retry_conn oks = critical M_eh (concat (map lk_make_connection oks))"

definition lk_sc_send_msg :: "sfd \<Rightarrow> bool \<Rightarrow> bool \<Rightarrow> bool \<Rightarrow> locking" where
  "lk_sc_send_msg sfd healthy callback valid =
     critical M_hs [] @
     (if healthy then (if callback then critical M_call_backs [] else []) @ critical M_w [] @ critical (M_wr sfd) [] @
        (if valid then critical M_e [] else [])
      else [])"

definition lk_sc_send_block :: "sfd \<Rightarrow> bool \<Rightarrow> bool \<Rightarrow> locking" where
  "lk_sc_send_block sfd healthy valid = lk_sc_send_msg sfd healthy True valid @ critical M_call_backs []"

text \<open>What a response callback does, when one waits: return, throw, or send a message itself.\<close>

datatype reaction = No_callback | Returns | Throws | Sends sfd

definition lk_sc_call_back :: "reaction \<Rightarrow> locking" where
  "lk_sc_call_back x = critical M_call_backs
     (case x of No_callback \<Rightarrow> [] | Returns \<Rightarrow> [] | Throws \<Rightarrow> lk_sc_a_zombied | Sends sfd \<Rightarrow> lk_sc_send_msg sfd True True True)"

definition lk_sc_read :: "sfd \<Rightarrow> bool \<Rightarrow> reaction list \<Rightarrow> io_end \<Rightarrow> locking" where
  "lk_sc_read sfd valid frames fin =
     critical M_r [] @ critical (M_rr sfd)
       (if valid then concat (map lk_sc_call_back frames) @
          (if fin = Would_block then critical M_e [] else lk_sc_a_zombied)
        else [])"

definition lk_sc_write :: "sfd \<Rightarrow> bool \<Rightarrow> io_end \<Rightarrow> locking" where
  "lk_sc_write sfd valid fin =
     critical M_w [] @ critical (M_wr sfd)
       (if valid then (case fin of Would_block \<Rightarrow> critical M_e [] | Closed \<Rightarrow> lk_sc_a_zombied | Drained \<Rightarrow> []) else [])"

definition lk_sc_close_n_clean :: locking where
  "lk_sc_close_n_clean =
     critical M_conn [] @ critical M_call_backs [] @ critical M_r [] @ critical M_w [] @ critical M_e []"

definition lk_sc_reap :: "bool list \<Rightarrow> locking" where
  "lk_sc_reap oks = critical M_z (concat (map (\<lambda>ok.
     critical M_conn [] @ lk_sc_close_n_clean @ lk_make_connection ok @ (if ok then [] else critical M_eh [])) oks))"

definition lk_sc_callback :: locking where
  "lk_sc_callback = critical M_e []"

datatype sc_op = Sc_connect "bool list" | Sc_retry "bool list" | Sc_reap "bool list" | Sc_callback | Sc_hup
  | Sc_read sfd bool "reaction list" io_end | Sc_write sfd bool io_end | Sc_send_msg sfd bool bool bool
  | Sc_send_block sfd bool bool

fun sc_locks :: "sc_op \<Rightarrow> locking" where
  "sc_locks (Sc_connect oks) = lk_connect_to_hosts oks"
| "sc_locks (Sc_retry oks) = lk_retry_conn oks"
| "sc_locks (Sc_reap oks) = lk_sc_reap oks"
| "sc_locks Sc_callback = lk_sc_callback"
| "sc_locks Sc_hup = lk_sc_a_zombied"
| "sc_locks (Sc_read sfd valid frames fin) = lk_sc_read sfd valid frames fin"
| "sc_locks (Sc_write sfd valid fin) = lk_sc_write sfd valid fin"
| "sc_locks (Sc_send_msg sfd healthy callback valid) = lk_sc_send_msg sfd healthy callback valid"
| "sc_locks (Sc_send_block sfd healthy valid) = lk_sc_send_block sfd healthy valid"

lemmas sc_lock_defs = lk_sc_a_zombied_def lk_make_connection_def lk_connect_to_hosts_def lk_retry_conn_def
  lk_sc_send_msg_def lk_sc_send_block_def lk_sc_read_def lk_sc_write_def
  lk_sc_close_n_clean_def lk_sc_reap_def lk_sc_callback_def

text \<open>Operations whose callbacks return and leave the client alone.\<close>

fun calm :: "sc_op \<Rightarrow> bool" where
  "calm (Sc_read sfd valid frames fin) = list_all (\<lambda>x. x = No_callback \<or> x = Returns) frames"
| "calm op = True"

lemma sc_call_back_safe [simp]:
  "x = No_callback \<or> x = Returns \<Longrightarrow> \<forall>h \<in> set held. mutex_rank h < 4 \<Longrightarrow> safe mutex_rank held (lk_sc_call_back x)"
  by (auto simp: lk_sc_call_back_def)

lemma sc_locks_safe: "calm op \<Longrightarrow> safe mutex_rank [] (sc_locks op)"
  by (cases op) (auto simp: sc_lock_defs list_all_iff split: io_end.splits)

interpretation scl: lock_order mutex_rank "sc_locks ` {op. calm op}"
  by unfold_locales (auto intro: sc_locks_safe)

subsection \<open>Deadlock\<close>

text \<open>
  C6: the server cannot deadlock on its mutexes. Any number of threads perform any methods, in any
  interleaving of their locks and unlocks, the handler sending any messages while its reader is
  locked: in every state they reach all have finished, or one of them can go on; they can be run
  to the end, and no run is longer than the number of locks and unlocks left.
\<close>

theorem server_no_deadlock:
  assumes "reach (lk_init (range sv_locks)) lk_step ts"
  shows "((\<forall>t \<in> set ts. t = ([], [])) \<or> (\<exists>i ts'. lk_step ts i ts'))
    \<and> (\<exists>es ts'. run lk_step ts es ts' \<and> (\<forall>t \<in> set ts'. t = ([], [])))
    \<and> (\<forall>es ts'. run lk_step ts es ts' \<longrightarrow> length es \<le> lk_weight ts)"
  using assms by (rule svl.completes)

text \<open>A reader whose handler answers, after its first three steps, and the reaper.\<close>

definition demo_threads :: "mutex_name lk_thread list" where
  "demo_threads = [([M_rr 7], lk_sv_send_msg (7, True) @ critical M_e [] @ [Rel (M_rr 7)]), ([], sv_locks (Sv_reap 1))]"

lemma demo_threads_reach: "reach (lk_init (range sv_locks)) lk_step demo_threads"
proof (rule reach_run [OF reach_init])
  let ?ts = "[([], sv_locks (Sv_read 7 True True [(7, True)] Would_block)), ([], sv_locks (Sv_reap 1))]"
  have "\<exists>ps. set ps \<subseteq> range sv_locks \<and> sv_locks op = concat ps" for op
    by (rule exI [of _ "[sv_locks op]"]) simp
  then show "lk_init (range sv_locks) ?ts" unfolding lk_init_def by (simp del: sv_locks.simps)
  show "run lk_step ?ts [0, 0, 0] demo_threads"
    by (rule lk_schedule_run) (simp add: lk_sv_read_def critical_def lk_next_def demo_threads_def)
qed

theorem server_no_deadlock_witness: "\<exists>i ts'. lk_step demo_threads i ts'"
proof -
  have "demo_threads ! 0 \<noteq> ([], [])" "0 < length demo_threads" by (simp_all add: demo_threads_def)
  with server_no_deadlock [OF demo_threads_reach] show ?thesis by (metis nth_mem)
qed

text \<open>
  C7: the client cannot deadlock on its mutexes as long as no response callback throws or sends: any
  number of threads perform any methods in any interleaving, in every state they reach all have
  finished or one can go on; they can be run to the end, and no run is longer than the number of
  locks and unlocks left.
\<close>

theorem client_no_deadlock:
  assumes "reach (lk_init (sc_locks ` {op. calm op})) lk_step ts"
  shows "((\<forall>t \<in> set ts. t = ([], [])) \<or> (\<exists>i ts'. lk_step ts i ts'))
    \<and> (\<exists>es ts'. run lk_step ts es ts' \<and> (\<forall>t \<in> set ts'. t = ([], [])))
    \<and> (\<forall>es ts'. run lk_step ts es ts' \<longrightarrow> length es \<le> lk_weight ts)"
  using assms by (rule scl.completes)

text \<open>
  A reader inside a response callback, with the reader's mutex and \<^verbatim>\<open>call_backs_mutex\<close> held, and the reaper,
  which holds \<^verbatim>\<open>z_mutex\<close> and waits for \<^verbatim>\<open>call_backs_mutex\<close>.
\<close>

definition demo_clients :: "mutex_name lk_thread list" where
  "demo_clients = [([], sc_locks (Sc_read 7 True [Returns] Would_block)), ([], sc_locks (Sc_reap [True]))]"

definition demo_waiting :: "mutex_name lk_thread list" where
  "demo_waiting = the (lk_schedule [0, 0, 0, 0, 1, 1, 1, 1, 1] demo_clients)"

lemma demo_waiting_eq:
  "lk_schedule [0, 0, 0, 0, 1, 1, 1, 1, 1] demo_clients = Some demo_waiting
   \<and> fst (demo_waiting ! 0) = [M_call_backs, M_rr 7] \<and> fst (demo_waiting ! 1) = [M_z]
   \<and> hd (snd (demo_waiting ! 1)) = Acq M_call_backs \<and> length demo_waiting = 2"
  by (simp add: demo_waiting_def demo_clients_def lk_sc_read_def lk_sc_call_back_def lk_sc_reap_def lk_sc_close_n_clean_def
      critical_def lk_next_def)

theorem client_no_deadlock_witness:
  "fst (demo_waiting ! 0) = [M_call_backs, M_rr 7] \<and> fst (demo_waiting ! 1) = [M_z]
   \<and> hd (snd (demo_waiting ! 1)) = Acq M_call_backs
   \<and> (\<exists>i ts'. lk_step demo_waiting i ts') \<and> (\<exists>es ts'. run lk_step demo_waiting es ts' \<and> (\<forall>t \<in> set ts'. t = ([], [])))"
proof -
  have "\<exists>ps. set ps \<subseteq> sc_locks ` {op. calm op} \<and> sc_locks op = concat ps" if "calm op" for op
    using that by (intro exI [of _ "[sc_locks op]"]) simp
  then have "lk_init (sc_locks ` {op. calm op}) demo_clients"
    unfolding lk_init_def demo_clients_def by (simp del: sc_locks.simps)
  then have "reach (lk_init (sc_locks ` {op. calm op})) lk_step demo_waiting"
    using lk_schedule_run demo_waiting_eq by (blast intro: reach_run [OF reach_init])
  from client_no_deadlock [OF this] demo_waiting_eq show ?thesis
    by (metis fst_conv list.simps(3) nth_mem zero_less_numeral)
qed

text \<open>
  C36: a response callback can deadlock the client. One that throws makes the reader mark the connection
  dead, which takes \<^verbatim>\<open>z_mutex\<close> with \<^verbatim>\<open>call_backs_mutex\<close> held; the reaper takes \<^verbatim>\<open>call_backs_mutex\<close> with
  \<^verbatim>\<open>z_mutex\<close> held; some schedule stops both for ever. One that sends a message to a healthy host
  locks \<^verbatim>\<open>call_backs_mutex\<close> a second time and stops its own thread.
\<close>

theorem client_callback_deadlock:
  "(\<exists>es ts. run lk_step
      [([], sc_locks (Sc_read sfd True (Throws # frames) fin)), ([], sc_locks (Sc_reap (ok # oks)))] es ts
     \<and> (\<forall>t \<in> set ts. snd t \<noteq> []) \<and> (\<nexists>i ts'. lk_step ts i ts'))
   \<and> (\<exists>es ts. run lk_step [([], sc_locks (Sc_read sfd True (Sends f # frames) fin))] es ts
     \<and> (\<forall>t \<in> set ts. snd t \<noteq> []) \<and> (\<nexists>i ts'. lk_step ts i ts'))"
proof
  let ?reader = "\<lambda>x. ([], sc_locks (Sc_read sfd True (x # frames) fin))" and ?reaper = "([], sc_locks (Sc_reap (ok # oks)))"
  let ?rest = "concat (map lk_sc_call_back frames) @ (if fin = Would_block then critical M_e [] else lk_sc_a_zombied) @ [Rel (M_rr sfd)]"
  let ?reap = "critical M_r [] @ critical M_w [] @ critical M_e [] @ lk_make_connection ok @ (if ok then [] else critical M_eh []) @
      concat (map (\<lambda>ok. critical M_conn [] @ lk_sc_close_n_clean @ lk_make_connection ok @ (if ok then [] else critical M_eh [])) oks)
      @ [Rel M_z]"
  let ?ts = "[([M_call_backs, M_rr sfd], Acq M_z # Rel M_z # Rel M_call_backs # ?rest),
      ([M_z], Acq M_call_backs # Rel M_call_backs # ?reap)]"
  have sched: "lk_schedule [0, 0, 0, 0, 0, 0, 0, 0, 1, 1, 1, 1, 1] [?reader Throws, ?reaper] = Some ?ts"
    by (simp add: lk_sc_read_def lk_sc_call_back_def lk_sc_a_zombied_def lk_sc_reap_def lk_sc_close_n_clean_def critical_def
        lk_next_def)
  have stuck: "\<forall>i. lk_next ?ts i = None" by (simp add: lk_next_def nth_Cons split: nat.split)
  show "\<exists>es ts. run lk_step [?reader Throws, ?reaper] es ts
     \<and> (\<forall>t \<in> set ts. snd t \<noteq> []) \<and> (\<nexists>i ts'. lk_step ts i ts')"
    by (rule lk_schedule_stuck [OF sched _ stuck]) simp
  let ?us = "[([M_call_backs, M_rr sfd], critical M_call_backs [] @ critical M_w [] @ critical (M_wr f) [] @
      critical M_e [] @ Rel M_call_backs # ?rest)]"
  have sched: "lk_schedule [0, 0, 0, 0, 0, 0] [?reader (Sends f)] = Some ?us"
    by (simp add: lk_sc_read_def lk_sc_call_back_def lk_sc_send_msg_def critical_def lk_next_def)
  have stuck: "\<forall>i. lk_next ?us i = None" by (simp add: lk_next_def critical_def)
  show "\<exists>es ts. run lk_step [?reader (Sends f)] es ts
     \<and> (\<forall>t \<in> set ts. snd t \<noteq> []) \<and> (\<nexists>i ts'. lk_step ts i ts')"
    by (rule lk_schedule_stuck [OF sched _ stuck]) (simp add: critical_def)
qed

theorem client_callback_deadlock_witness:
  "\<exists>es ts. run lk_step [([], sc_locks (Sc_read 7 True [Throws] Would_block)), ([], sc_locks (Sc_reap [True]))] es ts
     \<and> (\<nexists>i ts'. lk_step ts i ts')"
  using client_callback_deadlock [of 7 "[]" Would_block True "[]" 7] by blast

end
