(* ===== verification/Http.thy ===== *)
theory Http
  imports Prelude Transition
begin

text \<open>
  The HTTP wrapper around libmicrohttpd: \<^verbatim>\<open>HttpRequest\<close>, \<^verbatim>\<open>HttpResponse\<close>, \<^verbatim>\<open>Wrapper\<close>, the routing and the
  hook of \<^verbatim>\<open>HttpServer\<close>, and \<^verbatim>\<open>DefaultHandler\<close>. The library is a parameter: the values it iterates
  over, the post processor it creates, the calls of the iterator that \<^verbatim>\<open>MHD_post_process\<close> and
  \<^verbatim>\<open>MHD_destroy_post_processor\<close> make and the results of its functions are arguments. The hook is the step of a state machine whose state
  is the pointer the library hands back to it, \<open>cn_ptr\<close>. \<open>rs_calls\<close> is the history of
  \<^verbatim>\<open>MHD_queue_response\<close> for a response: the body, the status code and what the library answered, \<open>cn_done\<close> the responses whose wrapper was deleted,
  \<open>cn_pps\<close> the post processors not destroyed yet. Pointers are numbers, 0 is \<^verbatim>\<open>NULL\<close>; a C string
  is \<open>None\<close> when it is \<^verbatim>\<open>NULL\<close>.
\<close>

subsection \<open>C strings\<close>

text \<open>\<^verbatim>\<open>std::string(p)\<close> for a pointer that may be \<^verbatim>\<open>NULL\<close>, where the string \<open>s\<close> is known to end.\<close>

definition cpp_string :: "bytes option \<Rightarrow> bytes cpp" where
  "cpp_string p = (case p of None \<Rightarrow> Undef | Some s \<Rightarrow> Ret s)"

text \<open>
  \<^verbatim>\<open>std::string(data)\<close> for a pointer into an array \<open>mem\<close>: the bytes up to the first zero byte, and an
  access out of bounds when there is none.
\<close>

definition string_of_mem :: "bytes \<Rightarrow> bytes cpp" where
  "string_of_mem mem = (if CHR 0x00 \<in> set mem then Ret (takeWhile (\<lambda>c. c \<noteq> CHR 0x00) mem) else Undef)"

subsection \<open>HttpRequest\<close>

record HttpRequest =
  rq_get_args :: "bytes \<rightharpoonup> bytes"
  rq_props :: "bytes \<rightharpoonup> nat"
  rq_has_post_data :: bool
  rq_post_processor :: nat

text \<open>The constructor leaves \<^verbatim>\<open>post_processor\<close> indeterminate.\<close>

definition rq_new :: "nat \<Rightarrow> HttpRequest" where
  "rq_new junk = \<lparr>rq_get_args = Map.empty, rq_props = Map.empty, rq_has_post_data = False, rq_post_processor = junk\<rparr>"

definition add_arg :: "bytes \<Rightarrow> bytes \<Rightarrow> HttpRequest \<Rightarrow> HttpRequest" where
  "add_arg key val rq = rq\<lparr>rq_get_args := (rq_get_args rq)(key \<mapsto> val)\<rparr>"

definition map_lookup :: "bytes \<Rightarrow> (bytes \<rightharpoonup> bytes) \<Rightarrow> bytes" where
  "map_lookup key m = (case m key of None \<Rightarrow> [] | Some v \<Rightarrow> v)"

definition get_arg :: "bytes \<Rightarrow> HttpRequest \<Rightarrow> bytes" where
  "get_arg key rq = map_lookup key (rq_get_args rq)"

definition get_get_args :: "HttpRequest \<Rightarrow> bytes \<rightharpoonup> bytes" where
  "get_get_args rq = rq_get_args rq"

definition set_has_post_data :: "bool \<Rightarrow> HttpRequest \<Rightarrow> HttpRequest" where
  "set_has_post_data b rq = rq\<lparr>rq_has_post_data := b\<rparr>"

definition get_has_post_data :: "HttpRequest \<Rightarrow> bool" where
  "get_has_post_data rq = rq_has_post_data rq"

definition set_post_processor :: "nat \<Rightarrow> HttpRequest \<Rightarrow> HttpRequest" where
  "set_post_processor pp rq = rq\<lparr>rq_post_processor := pp\<rparr>"

definition get_post_processor :: "HttpRequest \<Rightarrow> nat" where
  "get_post_processor rq = rq_post_processor rq"

definition set_prop :: "bytes \<Rightarrow> nat \<Rightarrow> HttpRequest \<Rightarrow> HttpRequest" where
  "set_prop key val rq = rq\<lparr>rq_props := (rq_props rq)(key \<mapsto> val)\<rparr>"

definition get_prop :: "bytes \<Rightarrow> HttpRequest \<Rightarrow> nat" where
  "get_prop key rq = (case rq_props rq key of None \<Rightarrow> 0 | Some v \<Rightarrow> v)"

subsection \<open>HttpResponse\<close>

text \<open>
  \<open>rs_connection\<close> stands for the connection of the library: \<open>rs_connection rs n\<close> is what
  \<^verbatim>\<open>MHD_queue_response\<close> answers on it after \<open>n\<close> earlier attempts of this response.
\<close>

record HttpResponse =
  rs_connection :: "nat \<Rightarrow> bool"
  rs_headers :: "bytes \<rightharpoonup> bytes"
  rs_data_buffer :: bytes
  rs_mhd_result :: bool
  rs_calls :: "(bytes \<times> u32 \<times> bool) list"

definition rs_new :: "(nat \<Rightarrow> bool) \<Rightarrow> HttpResponse" where
  "rs_new connection = \<lparr>rs_connection = connection, rs_headers = Map.empty, rs_data_buffer = [], rs_mhd_result = False,
     rs_calls = []\<rparr>"

definition add_header :: "bytes \<Rightarrow> bytes \<Rightarrow> HttpResponse \<Rightarrow> HttpResponse" where
  "add_header key val rs = rs\<lparr>rs_headers := (rs_headers rs)(key \<mapsto> val)\<rparr>"

definition add_to_buffer :: "bytes \<Rightarrow> HttpResponse \<Rightarrow> HttpResponse" where
  "add_to_buffer data rs = rs\<lparr>rs_data_buffer := rs_data_buffer rs @ data\<rparr>"

definition get_data_buffer :: "HttpResponse \<Rightarrow> bytes" where
  "get_data_buffer rs = rs_data_buffer rs"

text \<open>The result of \<^verbatim>\<open>MHD_queue_response\<close> is stored in \<^verbatim>\<open>mhd_result\<close> and then overwritten.\<close>

definition write_data :: "bytes \<Rightarrow> nat \<Rightarrow> u32 \<Rightarrow> bool \<Rightarrow> HttpResponse \<Rightarrow> HttpResponse cpp" where
  "write_data data n status_code is_error rs =
     (if n \<le> length data
      then let queued = rs_connection rs (length (rs_calls rs));
               rs1 = rs\<lparr>rs_calls := rs_calls rs @ [(take n data, status_code, queued)]\<rparr>;
               rs2 = rs1\<lparr>rs_mhd_result := queued\<rparr>
           in Ret (if \<not> is_error then rs2\<lparr>rs_mhd_result := True\<rparr> else rs2\<lparr>rs_mhd_result := False\<rparr>)
      else Undef)"

definition get_mhd_result :: "HttpResponse \<Rightarrow> bool" where
  "get_mhd_result rs = rs_mhd_result rs"

subsection \<open>Handlers\<close>

text \<open>
  \<^verbatim>\<open>HttpRequestHandler\<close>: its two virtual functions, on the request and the response they get by
  reference. \<open>stream_args\<close> are the arguments of \<^verbatim>\<open>handle_streaming_data\<close> after the request and the
  response; \<open>sa_data\<close> is the array behind the data pointer.
\<close>

type_synonym exchange = "HttpRequest \<times> HttpResponse"

record stream_args =
  sa_filename :: bytes
  sa_content_type :: bytes
  sa_transfer_encoding :: bytes
  sa_data :: "bytes option"
  sa_off :: u64
  sa_size :: nat

record HttpRequestHandler =
  hh_handle :: "exchange \<Rightarrow> (bool \<times> exchange) cpp"
  hh_stream :: "stream_args \<Rightarrow> exchange \<Rightarrow> (bool \<times> exchange) cpp"

subsection \<open>DefaultHandler\<close>

definition NLs :: "nat \<Rightarrow> bytes" where
  "NLs n = replicate n CHR 0x0A"

text \<open>\<open>enum\<close> is the order in which the iterator of an \<^verbatim>\<open>unordered_map\<close> visits its entries.\<close>

type_synonym enum = "(bytes \<rightharpoonup> bytes) \<Rightarrow> (bytes \<times> bytes) list"

definition response_text :: "enum \<Rightarrow> HttpRequest \<Rightarrow> bytes" where
  "response_text enum rq =
     fold (\<lambda>(k, v) data. data @ '' '' @ k @ '':'' @ v @ NLs 1) (enum (get_get_args rq))
       (''libcpphttpd is alive yo! here is what you sent me bro...'' @ NLs 2 @ NLs 1 @ ''HEADERS and GET args:'' @ NLs 1)"

definition build_response :: "enum \<Rightarrow> HttpRequest \<Rightarrow> HttpResponse \<Rightarrow> HttpResponse" where
  "build_response enum rq rs =
     add_to_buffer (response_text enum rq) (add_header ''Content-Type'' ''text/html'' rs)"

definition dh_handle :: "enum \<Rightarrow> exchange \<Rightarrow> (bool \<times> exchange) cpp" where
  "dh_handle enum x =
     (case x of (rq, rs) \<Rightarrow>
        let rs1 = build_response enum rq rs
        in cpp_bind (write_data (get_data_buffer rs1) (length (get_data_buffer rs1)) 200 False rs1) (\<lambda>rs2.
             Ret (True, rq, rs2)))"

definition post_banner :: bytes where
  "post_banner = NLs 2 @ '' POST data:'' @ NLs 1"

definition dh_stream :: "enum \<Rightarrow> stream_args \<Rightarrow> exchange \<Rightarrow> (bool \<times> exchange) cpp" where
  "dh_stream enum a x =
     (case x of (rq, rs) \<Rightarrow>
        let rs1 = (if sa_off a = 0 then add_to_buffer post_banner (build_response enum rq rs) else rs)
        in cpp_bind (case sa_data a of None \<Rightarrow> Ret rs1
                     | Some mem \<Rightarrow> cpp_bind (string_of_mem mem) (\<lambda>s. Ret (add_to_buffer s rs1))) (\<lambda>rs2.
           cpp_bind (if sa_size a = 0
                     then write_data (get_data_buffer rs2) (length (get_data_buffer rs2)) 200 False rs2
                     else Ret rs2) (\<lambda>rs3.
             Ret (True, rq, rs3))))"

definition default_handler :: "enum \<Rightarrow> HttpRequestHandler" where
  "default_handler enum = \<lparr>hh_handle = dh_handle enum, hh_stream = dh_stream enum\<rparr>"

subsection \<open>HttpServer\<close>

record HttpServer =
  hp_port :: u32
  hp_tpool_size :: u32
  hp_data_steam_buffer :: u32
  hp_endpoint_handlers :: "bytes \<rightharpoonup> HttpRequestHandler"

definition hp_new :: "u32 \<Rightarrow> u32 \<Rightarrow> u32 \<Rightarrow> HttpServer" where
  "hp_new port tpool_size data_steam_buffer =
     \<lparr>hp_port = port, hp_tpool_size = tpool_size, hp_data_steam_buffer = data_steam_buffer,
      hp_endpoint_handlers = Map.empty\<rparr>"

definition get_ds_buffer_size :: "HttpServer \<Rightarrow> u32" where
  "get_ds_buffer_size sv = hp_data_steam_buffer sv"

definition register_handler :: "bytes \<Rightarrow> HttpRequestHandler \<Rightarrow> HttpServer \<Rightarrow> HttpServer" where
  "register_handler path handler sv = sv\<lparr>hp_endpoint_handlers := (hp_endpoint_handlers sv)(path \<mapsto> handler)\<rparr>"

text \<open>\<^verbatim>\<open>start\<close>: \<open>daemon\<close> says whether \<^verbatim>\<open>MHD_start_daemon\<close> returned one; then the thread sleeps for ever.\<close>

definition hp_start :: "bool \<Rightarrow> HttpServer \<Rightarrow> HttpServer cpp" where
  "hp_start daemon sv = (if \<not> daemon then Exit 1 else Diverge)"

definition front_controller :: "HttpServer \<Rightarrow> exchange \<Rightarrow> (bool \<times> exchange) cpp" where
  "front_controller sv x =
     (case hp_endpoint_handlers sv (get_arg ''req_url'' (fst x)) of
        None \<Rightarrow> Ret (False, x)
      | Some h \<Rightarrow> hh_handle h x)"

text \<open>The arguments of one call of the iterator of a post processor.\<close>

record post_call =
  pc_filename :: "bytes option"
  pc_content_type :: "bytes option"
  pc_transfer_encoding :: "bytes option"
  pc_data :: "bytes option"
  pc_off :: u64
  pc_size :: nat

definition front_controller_stream :: "HttpServer \<Rightarrow> post_call \<Rightarrow> exchange \<Rightarrow> (bool \<times> exchange) cpp" where
  "front_controller_stream sv c x =
     (case hp_endpoint_handlers sv (get_arg ''req_url'' (fst x)) of
        None \<Rightarrow> Ret (False, x)
      | Some h \<Rightarrow>
          cpp_bind (cpp_string (if pc_filename c = None then Some [] else pc_filename c)) (\<lambda>filename.
          cpp_bind (cpp_string (if pc_content_type c = None then Some [] else pc_content_type c)) (\<lambda>content_type.
          cpp_bind (cpp_string (if pc_transfer_encoding c = None then Some [] else pc_filename c)) (\<lambda>transfer_encoding.
            hh_stream h \<lparr>sa_filename = filename, sa_content_type = content_type,
              sa_transfer_encoding = transfer_encoding, sa_data = pc_data c, sa_off = pc_off c,
              sa_size = pc_size c\<rparr> x))))"

definition post_processor :: "HttpServer \<Rightarrow> post_call \<Rightarrow> exchange \<Rightarrow> (bool \<times> exchange) cpp" where
  "post_processor sv c x = front_controller_stream sv c x"

definition request_arg_builder :: "bytes option \<times> bytes option \<Rightarrow> HttpRequest \<Rightarrow> HttpRequest cpp" where
  "request_arg_builder kv rq =
     cpp_bind (cpp_string (fst kv)) (\<lambda>key. cpp_bind (cpp_string (snd kv)) (\<lambda>val. Ret (add_arg key val rq)))"

subsection \<open>Wrapper and hook\<close>

record Wrapper =
  wp_request :: HttpRequest
  wp_response :: HttpResponse

record http_conn =
  cn_ptr :: "Wrapper option"
  cn_done :: "HttpResponse list"
  cn_pps :: "nat list"

text \<open>
  One call of the hook by the library: the connection, the request line and the values of the
  connection, the number of bytes uploaded, and what the functions of the library do when the hook
  calls them: the post processor created, the calls of the iterator \<^verbatim>\<open>MHD_post_process\<close> makes and its
  result, the calls of the iterator \<^verbatim>\<open>MHD_destroy_post_processor\<close> makes. (For a form in urlencoded
  format the latter ends an unterminated last value with a call of size 0.)
\<close>

record hook_call =
  hk_connection :: "nat \<Rightarrow> bool"
  hk_url :: bytes
  hk_method :: bytes
  hk_values :: "(bytes option \<times> bytes option) list"
  hk_upload_data_size :: nat
  hk_new_pp :: nat
  hk_junk :: nat
  hk_post_calls :: "post_call list"
  hk_process_result :: bool
  hk_destroy_calls :: "post_call list"

definition hook_first :: "hook_call \<Rightarrow> http_conn \<Rightarrow> (bool \<times> http_conn) cpp" where
  "hook_first k cn =
     cpp_bind (for_each (hk_values k) request_arg_builder (rq_new (hk_junk k))) (\<lambda>rq.
       let rq1 = add_arg ''method'' (hk_method k) (add_arg ''req_url'' (hk_url k) rq);
           rs = rs_new (hk_connection k);
           rq2 = set_post_processor (hk_new_pp k) rq1
       in Ret (True, cn\<lparr>cn_ptr := Some \<lparr>wp_request = rq2, wp_response = rs\<rparr>,
                        cn_pps := (if hk_new_pp k = 0 then cn_pps cn else cn_pps cn @ [hk_new_pp k])\<rparr>))"

text \<open>The calls of the iterator that one function of the library makes; it sees their results, the hook does not.\<close>

definition post_calls :: "HttpServer \<Rightarrow> post_call list \<Rightarrow> exchange \<Rightarrow> exchange cpp" where
  "post_calls sv cs x = for_each cs (\<lambda>c x. cpp_bind (post_processor sv c x) (\<lambda>(r, x'). Ret x')) x"

definition hook_upload :: "HttpServer \<Rightarrow> hook_call \<Rightarrow> Wrapper \<Rightarrow> http_conn \<Rightarrow> (bool \<times> http_conn) cpp" where
  "hook_upload sv k w cn =
     (let rq = (if \<not> get_has_post_data (wp_request w) then set_has_post_data True (wp_request w) else wp_request w)
      in cpp_bind (post_calls sv (hk_post_calls k) (rq, wp_response w)) (\<lambda>(rq, rs).
           if hk_process_result k
           then Ret (True, cn\<lparr>cn_ptr := Some \<lparr>wp_request = rq, wp_response = rs\<rparr>\<rparr>)
           else Ret (get_mhd_result rs, cn\<lparr>cn_ptr := None, cn_done := cn_done cn @ [rs]\<rparr>)))"

definition last_call :: post_call where
  "last_call = \<lparr>pc_filename = None, pc_content_type = None, pc_transfer_encoding = None, pc_data = None,
     pc_off = - 1, pc_size = 0\<rparr>"

definition hook_last :: "HttpServer \<Rightarrow> hook_call \<Rightarrow> Wrapper \<Rightarrow> http_conn \<Rightarrow> (bool \<times> http_conn) cpp" where
  "hook_last sv k w cn =
     cpp_bind (if \<not> get_has_post_data (wp_request w)
               then cpp_bind (front_controller sv (wp_request w, wp_response w)) (\<lambda>(r, x). Ret (x, cn_pps cn))
               else cpp_bind (post_calls sv (hk_destroy_calls k) (wp_request w, wp_response w)) (\<lambda>x.
                    let pps = remove1 (get_post_processor (wp_request w)) (cn_pps cn)
                    in cpp_bind (front_controller_stream sv last_call x) (\<lambda>(r, x). Ret (x, pps)))) (\<lambda>((rq, rs), pps).
       Ret (get_mhd_result rs, cn\<lparr>cn_ptr := None, cn_done := cn_done cn @ [rs], cn_pps := pps\<rparr>))"

definition front_controller_c_hook :: "HttpServer \<Rightarrow> hook_call \<Rightarrow> http_conn \<Rightarrow> (bool \<times> http_conn) cpp" where
  "front_controller_c_hook sv k cn =
     (case cn_ptr cn of
        None \<Rightarrow> hook_first k cn
      | Some w \<Rightarrow> if hk_upload_data_size k \<noteq> 0 then hook_upload sv k w cn else hook_last sv k w cn)"

text \<open>A sequence of calls of the hook on one connection, with what it returned.\<close>

definition hook_calls :: "HttpServer \<Rightarrow> hook_call list \<Rightarrow> http_conn \<Rightarrow> (bool list \<times> http_conn) cpp" where
  "hook_calls sv ks cn =
     for_each ks (\<lambda>k (rs, cn). cpp_bind (front_controller_c_hook sv k cn) (\<lambda>(r, cn'). Ret (rs @ [r], cn'))) ([], cn)"

subsection \<open>Lemmas: requests\<close>

lemma get_add_arg: "get_arg key (add_arg key' val rq) = (if key = key' then val else get_arg key rq)"
  by (simp add: get_arg_def add_arg_def map_lookup_def)

lemma get_set_prop: "get_prop key (set_prop key' val rq) = (if key = key' then val else get_prop key rq)"
  by (simp add: get_prop_def set_prop_def)

lemmas rq_defs = set_has_post_data_def get_has_post_data_def set_post_processor_def get_post_processor_def
  get_get_args_def get_data_buffer_def get_mhd_result_def add_to_buffer_def add_header_def

text \<open>The arguments a request collects from the values of its connection.\<close>

definition args_of :: "(bytes \<times> bytes) list \<Rightarrow> (bytes \<rightharpoonup> bytes) \<Rightarrow> bytes \<rightharpoonup> bytes" where
  "args_of kvs m = fold (\<lambda>(k, v) m. m(k \<mapsto> v)) kvs m"

lemma request_args:
  "for_each (map (\<lambda>(k, v). (Some k, Some v)) kvs) request_arg_builder rq =
     Ret (rq\<lparr>rq_get_args := args_of kvs (rq_get_args rq)\<rparr>)"
  by (induction kvs arbitrary: rq)
    (auto simp: args_of_def request_arg_builder_def cpp_string_def add_arg_def)

definition first_request :: "hook_call \<Rightarrow> (bytes \<times> bytes) list \<Rightarrow> HttpRequest" where
  "first_request k kvs =
     \<lparr>rq_get_args = (args_of kvs Map.empty)(''req_url'' \<mapsto> hk_url k, ''method'' \<mapsto> hk_method k), rq_props = Map.empty,
      rq_has_post_data = False, rq_post_processor = hk_new_pp k\<rparr>"

lemma hook_first_ok:
  assumes "hk_values k = map (\<lambda>(k, v). (Some k, Some v)) kvs"
  shows "hook_first k cn = Ret (True, cn\<lparr>cn_ptr := Some \<lparr>wp_request = first_request k kvs, wp_response = rs_new (hk_connection k)\<rparr>,
      cn_pps := (if hk_new_pp k = 0 then cn_pps cn else cn_pps cn @ [hk_new_pp k])\<rparr>)"
  by (simp add: hook_first_def assms request_args rq_new_def add_arg_def set_post_processor_def first_request_def)

lemma first_request_url [simp]:
  "get_arg ''req_url'' (first_request k kvs) = hk_url k"
  "rq_has_post_data (first_request k kvs) = False"
  by (simp_all add: first_request_def get_arg_def map_lookup_def)

lemma write_buffer:
  "write_data (rs_data_buffer rs) (length (rs_data_buffer rs)) code False rs =
     Ret (rs\<lparr>rs_calls := rs_calls rs @ [(rs_data_buffer rs, code, rs_connection rs (length (rs_calls rs)))],
             rs_mhd_result := True\<rparr>)"
  by (simp add: write_data_def Let_def)

subsection \<open>The contract of a handler\<close>

text \<open>Memory a C string can be read from: a null pointer is not read, anything else needs a zero byte.\<close>

definition readable :: "bytes option \<Rightarrow> bool" where
  "readable p = (case p of None \<Rightarrow> True | Some mem \<Rightarrow> CHR 0x00 \<in> set mem)"

text \<open>The calls of the iterator that are defined: with readable data, and no transfer encoding without a file name.\<close>

definition data_call :: "post_call \<Rightarrow> bool" where
  "data_call c \<longleftrightarrow> readable (pc_data c) \<and> (pc_transfer_encoding c = None \<or> pc_filename c \<noteq> None)"

definition args_of_call :: "post_call \<Rightarrow> stream_args" where
  "args_of_call c =
     \<lparr>sa_filename = (case pc_filename c of None \<Rightarrow> [] | Some f \<Rightarrow> f),
      sa_content_type = (case pc_content_type c of None \<Rightarrow> [] | Some t \<Rightarrow> t),
      sa_transfer_encoding = (if pc_transfer_encoding c = None then [] else the (pc_filename c)),
      sa_data = pc_data c, sa_off = pc_off c, sa_size = pc_size c\<rparr>"

lemma data_call_last [simp]: "data_call last_call"
  by (simp add: data_call_def last_call_def readable_def)

text \<open>
  What the server relies on of a handler: it leaves the request alone, it takes every piece of data it
  can read, and a piece of size 0 makes it report \<^verbatim>\<open>MHD_YES\<close>. \<open>taken\<close> is what a piece does to the
  response.
\<close>

locale endpoint =
  fixes h :: HttpRequestHandler
    and taken :: "stream_args \<Rightarrow> HttpRequest \<Rightarrow> HttpResponse \<Rightarrow> HttpResponse"
  assumes stream_taken: "readable (sa_data a) \<Longrightarrow> hh_stream h a (rq, rs) = Ret (True, rq, taken a rq rs)"
    and stream_unreadable: "\<not> readable (sa_data a) \<Longrightarrow> hh_stream h a (rq, rs) = Undef"
    and stream_reports: "sa_size a = 0 \<Longrightarrow> rs_mhd_result (taken a rq rs)"
begin

lemma stream_call:
  assumes "hp_endpoint_handlers sv (get_arg ''req_url'' rq) = Some h"
  shows "front_controller_stream sv c (rq, rs) =
    (if data_call c then Ret (True, rq, taken (args_of_call c) rq rs) else Undef)"
proof (cases "readable (pc_data c)")
  case True
  then have "hh_stream h (args_of_call c) (rq, rs) = Ret (True, rq, taken (args_of_call c) rq rs)"
    by (simp add: stream_taken args_of_call_def)
  with assms True show ?thesis
    by (auto simp: front_controller_stream_def cpp_string_def data_call_def args_of_call_def split: option.splits)
next
  case False
  with assms show ?thesis
    by (auto simp: front_controller_stream_def cpp_string_def data_call_def stream_unreadable split: option.splits)
qed

lemma post_calls_taken:
  assumes "hp_endpoint_handlers sv (get_arg ''req_url'' rq) = Some h"
  shows "post_calls sv cs (rq, rs) =
    (if \<forall>c \<in> set cs. data_call c then Ret (rq, fold (\<lambda>c. taken (args_of_call c) rq) cs rs) else Undef)"
  by (induction cs arbitrary: rs) (auto simp: post_calls_def post_processor_def stream_call [OF assms])

text \<open>Any number of calls with uploads, on a request whose calls of the iterator are \<open>cs\<close>.\<close>

lemma uploads_taken:
  assumes "\<forall>k \<in> set ups. hk_upload_data_size k \<noteq> 0 \<and> hk_process_result k"
    and "hp_endpoint_handlers sv (get_arg ''req_url'' rq) = Some h" and "rq_has_post_data rq"
    and "cn_ptr cn = Some \<lparr>wp_request = rq, wp_response = rs\<rparr>"
  shows "for_each ups (\<lambda>k (rs, cn). cpp_bind (front_controller_c_hook sv k cn) (\<lambda>(r, cn'). Ret (rs @ [r], cn'))) (rets, cn) =
    (let cs = concat (map hk_post_calls ups)
     in if \<forall>c \<in> set cs. data_call c
        then Ret (rets @ replicate (length ups) True,
               cn\<lparr>cn_ptr := Some \<lparr>wp_request = rq, wp_response = fold (\<lambda>c. taken (args_of_call c) rq) cs rs\<rparr>\<rparr>)
        else Undef)"
  using assms
proof (induction ups arbitrary: rets cn rs)
  case Nil
  then have "cn\<lparr>cn_ptr := Some \<lparr>wp_request = rq, wp_response = rs\<rparr>\<rparr> = cn" by (cases cn) simp
  then show ?case by simp
next
  case (Cons k ups)
  let ?rs = "fold (\<lambda>c. taken (args_of_call c) rq) (hk_post_calls k) rs"
  have hook: "front_controller_c_hook sv k cn =
      (if \<forall>c \<in> set (hk_post_calls k). data_call c
       then Ret (True, cn\<lparr>cn_ptr := Some \<lparr>wp_request = rq, wp_response = ?rs\<rparr>\<rparr>) else Undef)"
    using Cons.prems by (simp add: front_controller_c_hook_def hook_upload_def rq_defs post_calls_taken)
  from Cons.IH [of "cn\<lparr>cn_ptr := Some \<lparr>wp_request = rq, wp_response = ?rs\<rparr>\<rparr>" ?rs "rets @ [True]"] Cons.prems
  show ?case by (auto simp: hook Let_def)
qed

text \<open>
  One whole upload: a first call, the calls with data, a last call. The handler sees every call of the
  iterator in order, those of the destruction of the post processor included, and then the server's own last call.
\<close>

lemma upload_taken:
  fixes k0 kl :: hook_call and ups :: "hook_call list" and kvs :: "(bytes \<times> bytes) list"
  defines "rq \<equiv> (first_request k0 kvs)\<lparr>rq_has_post_data := True\<rparr>"
    and "cs \<equiv> concat (map hk_post_calls ups) @ hk_destroy_calls kl @ [last_call]"
  assumes "cn_ptr cn = None" and "hk_values k0 = map (\<lambda>(k, v). (Some k, Some v)) kvs"
    and url: "hp_endpoint_handlers sv (hk_url k0) = Some h" and ups: "ups \<noteq> []"
    and up: "\<forall>k \<in> set ups. hk_upload_data_size k \<noteq> 0 \<and> hk_process_result k" and "hk_upload_data_size kl = 0"
  shows "hook_calls sv (k0 # ups @ [kl]) cn =
    (if \<forall>c \<in> set cs. data_call c
     then Ret (replicate (length ups + 2) True,
            cn\<lparr>cn_done := cn_done cn @ [fold (\<lambda>c. taken (args_of_call c) rq) cs (rs_new (hk_connection k0))],
               cn_pps := remove1 (hk_new_pp k0) (if hk_new_pp k0 = 0 then cn_pps cn else cn_pps cn @ [hk_new_pp k0])\<rparr>)
     else Undef)"
proof -
  let ?step = "\<lambda>k (rs, cn). cpp_bind (front_controller_c_hook sv k cn) (\<lambda>(r, cn'). Ret (rs @ [r], cn'))"
  let ?rs = "rs_new (hk_connection k0)"
  let ?cn = "\<lambda>rq. cn\<lparr>cn_ptr := Some \<lparr>wp_request = rq, wp_response = ?rs\<rparr>,
      cn_pps := (if hk_new_pp k0 = 0 then cn_pps cn else cn_pps cn @ [hk_new_pp k0])\<rparr>"
  let ?f = "fold (\<lambda>c. taken (args_of_call c) rq)"
  let ?us = "concat (map hk_post_calls ups)"
  have h: "hp_endpoint_handlers sv (get_arg ''req_url'' rq) = Some h"
    using url by (simp add: rq_def first_request_def get_arg_def map_lookup_def)
  have flag: "for_each ups ?step (rets, ?cn (first_request k0 kvs)) = for_each ups ?step (rets, ?cn rq)" for rets
    using ups up by (cases ups) (auto simp: front_controller_c_hook_def hook_upload_def rq_defs rq_def)
  have uploads: "for_each ups ?step ([True], ?cn (first_request k0 kvs)) =
      (if \<forall>c \<in> set ?us. data_call c
       then Ret ([True] @ replicate (length ups) True, (?cn rq)\<lparr>cn_ptr := Some \<lparr>wp_request = rq, wp_response = ?f ?us ?rs\<rparr>\<rparr>)
       else Undef)"
    unfolding flag by (subst uploads_taken [OF up h]) (simp_all add: rq_def Let_def)
  have last: "hook_last sv kl \<lparr>wp_request = rq, wp_response = rs\<rparr> cn1 =
      (if \<forall>c \<in> set (hk_destroy_calls kl). data_call c
       then Ret (True, cn1\<lparr>cn_ptr := None, cn_done := cn_done cn1 @ [?f (hk_destroy_calls kl @ [last_call]) rs],
              cn_pps := remove1 (hk_new_pp k0) (cn_pps cn1)\<rparr>) else Undef)" for rs cn1
    using h stream_reports [of "args_of_call last_call"]
    by (simp add: hook_last_def rq_defs rq_def post_calls_taken stream_call first_request_def args_of_call_def last_call_def
        data_call_def readable_def)
  have first: "front_controller_c_hook sv k0 cn = Ret (True, ?cn (first_request k0 kvs))"
    using assms(3,4) by (simp add: front_controller_c_hook_def hook_first_ok)
  have "for_each (k0 # ups @ [kl]) ?step ([], cn) = cpp_bind (for_each ups ?step ([True], ?cn (first_request k0 kvs))) (?step kl)"
    using first by (simp add: for_each_append for_each_single)
  also have "\<dots> = (if \<forall>c \<in> set cs. data_call c
     then Ret (replicate (length ups + 2) True,
            cn\<lparr>cn_done := cn_done cn @ [?f cs ?rs],
               cn_pps := remove1 (hk_new_pp k0) (if hk_new_pp k0 = 0 then cn_pps cn else cn_pps cn @ [hk_new_pp k0])\<rparr>)
     else Undef)"
    using assms(3,8) unfolding uploads
    by (cases cn) (auto simp: front_controller_c_hook_def last cs_def replicate_append_same)
  finally show ?thesis by (simp add: hook_calls_def)
qed

end

subsection \<open>DefaultHandler meets the contract\<close>

lemma dh_handle_result:
  "dh_handle enum (rq, rs) =
     (let b = rs_data_buffer rs @ response_text enum rq
      in Ret (True, rq, rs\<lparr>rs_headers := (rs_headers rs)(''Content-Type'' \<mapsto> ''text/html''), rs_data_buffer := b,
           rs_mhd_result := True, rs_calls := rs_calls rs @ [(b, 200, rs_connection rs (length (rs_calls rs)))]\<rparr>))"
  by (simp add: dh_handle_def build_response_def rq_defs write_data_def Let_def)

text \<open>What one piece of data adds to the body, and what it does to the response.\<close>

definition piece :: "enum \<Rightarrow> HttpRequest \<Rightarrow> stream_args \<Rightarrow> bytes" where
  "piece enum rq a =
     (if sa_off a = 0 then response_text enum rq @ post_banner else []) @
     (case sa_data a of None \<Rightarrow> [] | Some mem \<Rightarrow> takeWhile (\<lambda>c. c \<noteq> CHR 0x00) mem)"

definition dh_taken :: "enum \<Rightarrow> stream_args \<Rightarrow> HttpRequest \<Rightarrow> HttpResponse \<Rightarrow> HttpResponse" where
  "dh_taken enum a rq rs =
     (let b = rs_data_buffer rs @ piece enum rq a;
          rs1 = (if sa_off a = 0 then rs\<lparr>rs_headers := (rs_headers rs)(''Content-Type'' \<mapsto> ''text/html'')\<rparr> else rs)
                  \<lparr>rs_data_buffer := b\<rparr>
      in if sa_size a = 0
         then rs1\<lparr>rs_mhd_result := True, rs_calls := rs_calls rs @ [(b, 200, rs_connection rs (length (rs_calls rs)))]\<rparr>
         else rs1)"

lemma dh_stream_result:
  "dh_stream enum a (rq, rs) = (if readable (sa_data a) then Ret (True, rq, dh_taken enum a rq rs) else Undef)"
  by (cases rs) (auto simp: dh_stream_def dh_taken_def piece_def readable_def string_of_mem_def build_response_def rq_defs
      write_data_def Let_def split: option.splits)

interpretation dh: endpoint "default_handler enum" "dh_taken enum"
  by unfold_locales (simp_all add: default_handler_def dh_stream_result dh_taken_def Let_def)

text \<open>
  The attempts to queue a response that a sequence of iterator calls makes: one for each call of
  size 0, whose body is what the pieces up to that call, that one included, have added.
\<close>

definition attempt_bodies :: "enum \<Rightarrow> HttpRequest \<Rightarrow> post_call list \<Rightarrow> bytes list" where
  "attempt_bodies enum rq cs =
     map (\<lambda>i. concat (map (\<lambda>c. piece enum rq (args_of_call c)) (take (Suc i) cs)))
       (filter (\<lambda>i. pc_size (cs ! i) = 0) [0..<length cs])"

definition attempts :: "(nat \<Rightarrow> bool) \<Rightarrow> bytes list \<Rightarrow> (bytes \<times> u32 \<times> bool) list" where
  "attempts connection bs = map (\<lambda>(n, b). (b, 200, connection n)) (enumerate 0 bs)"

lemma attempt_bodies_snoc:
  "attempt_bodies enum rq (cs @ [c]) = attempt_bodies enum rq cs @
     (if pc_size c = 0 then [concat (map (\<lambda>c. piece enum rq (args_of_call c)) (cs @ [c]))] else [])"
proof -
  have "filter (\<lambda>i. pc_size ((cs @ [c]) ! i) = 0) [0..<length cs] = filter (\<lambda>i. pc_size (cs ! i) = 0) [0..<length cs]"
    by (intro filter_cong) (auto simp: nth_append)
  then show ?thesis by (auto simp: attempt_bodies_def)
qed

lemma attempts_snoc: "attempts conn (bs @ [b]) = attempts conn bs @ [(b, 200, conn (length bs))]"
  by (simp add: attempts_def enumerate_append_eq)

lemma length_attempts [simp]: "length (attempts conn bs) = length bs"
  by (simp add: attempts_def)

lemma dh_taken_all:
  "rs_data_buffer (fold (\<lambda>c. dh_taken enum (args_of_call c) rq) cs (rs_new conn)) =
     concat (map (\<lambda>c. piece enum rq (args_of_call c)) cs)
   \<and> rs_connection (fold (\<lambda>c. dh_taken enum (args_of_call c) rq) cs (rs_new conn)) = conn
   \<and> rs_calls (fold (\<lambda>c. dh_taken enum (args_of_call c) rq) cs (rs_new conn)) = attempts conn (attempt_bodies enum rq cs)"
proof (induction cs rule: rev_induct)
  case (snoc c cs)
  have "sa_size (args_of_call c) = pc_size c" by (simp add: args_of_call_def)
  with snoc show ?case by (auto simp: dh_taken_def attempt_bodies_snoc attempts_snoc Let_def)
qed (simp add: rs_new_def attempt_bodies_def attempts_def)

lemma piece_post_flag: "piece enum (rq\<lparr>rq_has_post_data := b\<rparr>) = piece enum rq"
  by (intro ext) (simp add: piece_def response_text_def get_get_args_def)

subsection \<open>Properties\<close>

text \<open>
  C12: an upload to a url served by \<^verbatim>\<open>DefaultHandler\<close>: a first call of the hook with proper argument
  values, any number of calls with uploaded data that libmicrohttpd accepts, and the last call.
  \<open>cs\<close> are all the calls of the iterator in order: those \<^verbatim>\<open>MHD_post_process\<close> makes, those
  \<^verbatim>\<open>MHD_destroy_post_processor\<close> makes, and the server's own last call of size 0. When the memory
  behind every piece of data has a zero byte, and no piece has a transfer encoding without a file
  name, every call of the hook returns \<^verbatim>\<open>MHD_YES\<close>, the wrapper is deleted, the post processor
  destroyed, and \<^verbatim>\<open>MHD_queue_response\<close> is called with status 200 once for every call of size 0: the
  last one always, and one more for each empty piece before it. The body of an attempt has, for each
  piece so far, the bytes up to the first zero byte, with the text of the arguments and the banner
  again in front of each piece of offset 0. Otherwise the upload is undefined.
\<close>

theorem http_upload_result:
  assumes "cn_ptr cn = None" and "hk_values k0 = map (\<lambda>(k, v). (Some k, Some v)) kvs"
    and "hp_endpoint_handlers sv (hk_url k0) = Some (default_handler enum)" and "ups \<noteq> []"
    and "\<forall>k \<in> set ups. hk_upload_data_size k \<noteq> 0 \<and> hk_process_result k" and "hk_upload_data_size kl = 0"
  shows "let cs = concat (map hk_post_calls ups) @ hk_destroy_calls kl @ [last_call] in
    if \<forall>c \<in> set cs. data_call c
    then \<exists>cn' rs. hook_calls sv (k0 # ups @ [kl]) cn = Ret (replicate (length ups + 2) True, cn')
      \<and> cn_ptr cn' = None \<and> cn_done cn' = cn_done cn @ [rs]
      \<and> rs_calls rs = attempts (hk_connection k0) (attempt_bodies enum (first_request k0 kvs) cs)
      \<and> (hk_new_pp k0 \<notin> set (cn_pps cn) \<longrightarrow> cn_pps cn' = cn_pps cn)
    else hook_calls sv (k0 # ups @ [kl]) cn = Undef"
proof -
  have bodies: "attempt_bodies enum ((first_request k0 kvs)\<lparr>rq_has_post_data := True\<rparr>) = attempt_bodies enum (first_request k0 kvs)"
    by (intro ext) (simp add: attempt_bodies_def piece_post_flag)
  define cs where "cs = concat (map hk_post_calls ups) @ hk_destroy_calls kl @ [last_call]"
  show ?thesis
    unfolding dh.upload_taken [OF assms] cs_def [symmetric] Let_def
    using assms(1) dh_taken_all [of enum "(first_request k0 kvs)\<lparr>rq_has_post_data := True\<rparr>" cs "hk_connection k0"]
    by (simp add: bodies remove1_append remove1_idem)
qed

definition demo_call :: "nat \<Rightarrow> post_call list \<Rightarrow> post_call list \<Rightarrow> hook_call" where
  "demo_call n cs ds = \<lparr>hk_connection = (\<lambda>n. n = 0), hk_url = ''/'', hk_method = ''POST'',
     hk_values = [(Some ''a'', Some ''1'')], hk_upload_data_size = n,
     hk_new_pp = 77, hk_junk = 0, hk_post_calls = cs, hk_process_result = True, hk_destroy_calls = ds\<rparr>"

definition demo_post :: "u64 \<Rightarrow> bytes \<Rightarrow> post_call" where
  "demo_post off text = \<lparr>pc_filename = None, pc_content_type = None, pc_transfer_encoding = None,
     pc_data = Some (text @ [CHR 0x00]), pc_off = off, pc_size = length text\<rparr>"

definition demo_http :: HttpServer where
  "demo_http = register_handler ''/'' (default_handler (\<lambda>m. [(''a'', ''1'')])) (hp_new 8080 4 1048576)"

definition demo_http_conn :: http_conn where
  "demo_http_conn = \<lparr>cn_ptr = None, cn_done = [], cn_pps = []\<rparr>"

lemmas demo_http_defs = demo_call_def demo_post_def demo_http_def demo_http_conn_def register_handler_def hp_new_def

text \<open>
  A urlencoded form \<^verbatim>\<open>x=hello\<close>: the value arrives in one piece, the destruction of the post processor
  ends it with an empty piece, so the same body is offered twice and the library refuses the second.
\<close>

theorem http_upload_result_witness:
  "\<exists>cn' rs b. hook_calls demo_http [demo_call 0 [] [], demo_call 7 [demo_post 0 ''hello''] [], demo_call 0 [] [demo_post 5 []]]
      demo_http_conn = Ret ([True, True, True], cn')
    \<and> cn_done cn' = [rs] \<and> rs_calls rs = [(b, 200, True), (b, 200, False)]
    \<and> b = response_text (\<lambda>m. [(''a'', ''1'')]) (first_request (demo_call 0 [] []) [(''a'', ''1'')]) @ post_banner @ ''hello''"
proof -
  let ?enum = "\<lambda>m :: bytes \<rightharpoonup> bytes. [(''a'', ''1'')]"
  let ?rq = "first_request (demo_call 0 [] []) [(''a'', ''1'')]"
  let ?cs = "[demo_post 0 ''hello'', demo_post 5 [], last_call]"
  let ?b = "response_text ?enum ?rq @ post_banner @ ''hello''"
  have ok: "\<forall>c \<in> set ?cs. data_call c" by (simp add: data_call_def readable_def demo_post_def last_call_def)
  have bodies: "attempts (\<lambda>n. n = 0) (attempt_bodies ?enum ?rq ?cs) = [(?b, 200, True), (?b, 200, False)]"
    by (simp add: attempts_def attempt_bodies_def piece_def args_of_call_def demo_post_def last_call_def upt_rec)
  have "let cs = concat (map hk_post_calls [demo_call 7 [demo_post 0 ''hello''] []]) @
        hk_destroy_calls (demo_call 0 [] [demo_post 5 []]) @ [last_call] in
    if \<forall>c \<in> set cs. data_call c
    then \<exists>cn' rs. hook_calls demo_http (demo_call 0 [] [] # [demo_call 7 [demo_post 0 ''hello''] []] @
          [demo_call 0 [] [demo_post 5 []]]) demo_http_conn =
        Ret (replicate (length [demo_call 7 [demo_post 0 ''hello''] []] + 2) True, cn')
      \<and> cn_ptr cn' = None \<and> cn_done cn' = cn_done demo_http_conn @ [rs]
      \<and> rs_calls rs = attempts (hk_connection (demo_call 0 [] [])) (attempt_bodies ?enum ?rq cs)
      \<and> (hk_new_pp (demo_call 0 [] []) \<notin> set (cn_pps demo_http_conn) \<longrightarrow> cn_pps cn' = cn_pps demo_http_conn)
    else hook_calls demo_http (demo_call 0 [] [] # [demo_call 7 [demo_post 0 ''hello''] []] @
          [demo_call 0 [] [demo_post 5 []]]) demo_http_conn = Undef"
    by (rule http_upload_result) (simp_all add: demo_http_defs)
  with ok bodies show ?thesis
    by (force simp: Let_def demo_call_def demo_http_conn_def eval_nat_numeral)
qed

text \<open>
  C31: a request without upload. For a url nobody registered the last call returns \<^verbatim>\<open>MHD_NO\<close> and no response
  is queued, so the library closes the connection without an answer. For a url of
  \<^verbatim>\<open>DefaultHandler\<close> there is one attempt to queue a response, with status 200 and the text of the
  arguments as its body. The post processor made for the request is never destroyed.
\<close>

theorem http_get_result:
  assumes "cn_ptr cn = None" and "hk_values k0 = map (\<lambda>(k, v). (Some k, Some v)) kvs"
    and "hp_endpoint_handlers sv (hk_url k0) = (if known then Some (default_handler enum) else None)"
    and "hk_upload_data_size kl = 0"
  shows "\<exists>cn' rs. hook_calls sv [k0, kl] cn = Ret ([True, known], cn') \<and> cn_ptr cn' = None
    \<and> cn_done cn' = cn_done cn @ [rs]
    \<and> rs_calls rs = (if known then [(response_text enum (first_request k0 kvs), 200, hk_connection k0 0)] else [])
    \<and> cn_pps cn' = cn_pps cn @ (if hk_new_pp k0 = 0 then [] else [hk_new_pp k0])"
proof (cases known)
  case True
  with assms show ?thesis
    by (simp add: hook_calls_def front_controller_c_hook_def hook_first_ok [OF assms(2)] hook_last_def rq_defs
        front_controller_def default_handler_def dh_handle_result rs_new_def Let_def)
next
  case False
  with assms show ?thesis
    by (simp add: hook_calls_def front_controller_c_hook_def hook_first_ok [OF assms(2)] hook_last_def rq_defs
        front_controller_def rs_new_def Let_def)
qed

theorem http_get_result_witness:
  "(\<exists>cn'. hook_calls (hp_new 8080 4 1048576) [demo_call 0 [] [], demo_call 0 [] []] demo_http_conn = Ret ([True, False], cn')
     \<and> cn_pps cn' = [77])
   \<and> (\<exists>cn' rs. hook_calls demo_http [demo_call 0 [] [], demo_call 0 [] []] demo_http_conn = Ret ([True, True], cn')
     \<and> cn_done cn' = [rs]
     \<and> rs_calls rs = [(response_text (\<lambda>m. [(''a'', ''1'')]) (first_request (demo_call 0 [] []) [(''a'', ''1'')]), 200, True)])"
  using http_get_result [of demo_http_conn "demo_call 0 [] []" "[(''a'', ''1'')]" "hp_new 8080 4 1048576" False
      "\<lambda>m. []" "demo_call 0 [] []"]
    http_get_result [of demo_http_conn "demo_call 0 [] []" "[(''a'', ''1'')]" demo_http True
      "\<lambda>m. [(''a'', ''1'')]" "demo_call 0 [] []"]
  by (auto simp: demo_http_defs)

text \<open>
  \<^verbatim>\<open>NULL\<close> strings from the library. An argument without a value makes the very first call of the hook
  undefined. A piece of upload data with a transfer encoding and no file name is undefined, and
  one with both is handed to the handler with the file name in place of the transfer encoding.
\<close>

lemma http_null_strings:
  assumes "hp_endpoint_handlers sv (get_arg ''req_url'' rq) = Some h" and "pc_transfer_encoding c = Some enc"
  shows "hook_first (k\<lparr>hk_values := map (\<lambda>(k, v). (Some k, Some v)) kvs @ (Some key, None) # kvs2\<rparr>) cn = Undef
    \<and> (pc_filename c = None \<longrightarrow> post_processor sv c (rq, rs) = Undef)
    \<and> (\<forall>f. pc_filename c = Some f \<longrightarrow> post_processor sv c (rq, rs) =
         hh_stream h \<lparr>sa_filename = f, sa_content_type = (case pc_content_type c of None \<Rightarrow> [] | Some t \<Rightarrow> t),
           sa_transfer_encoding = f, sa_data = pc_data c, sa_off = pc_off c, sa_size = pc_size c\<rparr> (rq, rs))"
proof -
  have "for_each (map (\<lambda>(k, v). (Some k, Some v)) kvs @ (Some key, None) # kvs2) request_arg_builder r = Undef" for r
    by (simp add: for_each_append request_args request_arg_builder_def cpp_string_def)
  then have "hook_first (k\<lparr>hk_values := map (\<lambda>(k, v). (Some k, Some v)) kvs @ (Some key, None) # kvs2\<rparr>) cn = Undef"
    by (simp add: hook_first_def)
  then show ?thesis
    using assms by (auto simp: post_processor_def front_controller_stream_def cpp_string_def split: option.splits)
qed

subsection \<open>The hook as a state machine\<close>

inductive http_step :: "HttpServer \<Rightarrow> http_conn \<Rightarrow> bool \<Rightarrow> http_conn \<Rightarrow> bool" for sv where
  hook_step: "front_controller_c_hook sv k cn = Ret (r, cn') \<Longrightarrow> http_step sv cn r cn'"

inductive_simps http_step_iff: "http_step sv cn r cn'"

definition http_init :: "http_conn \<Rightarrow> bool" where
  "http_init cn \<longleftrightarrow> cn = \<lparr>cn_ptr = None, cn_done = [], cn_pps = []\<rparr>"

text \<open>
  A response reports \<^verbatim>\<open>MHD_YES\<close> exactly when it tried to queue something; every attempt had status 200
  and its recorded result is the library's.
\<close>

definition answered :: "HttpResponse \<Rightarrow> bool" where
  "answered rs \<longleftrightarrow> (rs_mhd_result rs \<longleftrightarrow> rs_calls rs \<noteq> [])
     \<and> map snd (rs_calls rs) = map (\<lambda>n. (200, rs_connection rs n)) [0..<length (rs_calls rs)]"

definition keeps :: "(exchange \<Rightarrow> (bool \<times> exchange) cpp) \<Rightarrow> bool" where
  "keeps f \<longleftrightarrow> (\<forall>rq rs r rq' rs'. f (rq, rs) = Ret (r, rq', rs') \<longrightarrow> answered rs \<longrightarrow>
     answered rs' \<and> rs_connection rs' = rs_connection rs \<and> rq_get_args rq' = rq_get_args rq)"

definition http_inv :: "http_conn \<Rightarrow> bool" where
  "http_inv cn \<longleftrightarrow>
     (\<forall>w. cn_ptr cn = Some w \<longrightarrow> answered (wp_response w) \<and>
        {''req_url'', ''method''} \<subseteq> dom (rq_get_args (wp_request w))) \<and>
     (\<forall>rs \<in> set (cn_done cn). answered rs)"

lemma keepsD: "keeps f \<Longrightarrow> f (rq, rs) = Ret (r, rq', rs') \<Longrightarrow> answered rs \<Longrightarrow>
    answered rs' \<and> rs_connection rs' = rs_connection rs \<and> rq_get_args rq' = rq_get_args rq"
  by (simp add: keeps_def)

text \<open>A server whose handlers report \<^verbatim>\<open>MHD_YES\<close> exactly for a response they tried to queue.\<close>

locale honest_server =
  fixes sv :: HttpServer
  assumes honest: "hp_endpoint_handlers sv url = Some h \<Longrightarrow> keeps (hh_handle h) \<and> keeps (hh_stream h a)"
begin

lemma keeps_front: "keeps (front_controller sv)"
  using honest by (auto simp: keeps_def front_controller_def split: option.splits)

lemma keeps_stream: "keeps (front_controller_stream sv c)"
proof (unfold keeps_def, intro allI impI)
  fix rq rs r rq' rs'
  assume ret: "front_controller_stream sv c (rq, rs) = Ret (r, rq', rs')" and ans: "answered rs"
  show "answered rs' \<and> rs_connection rs' = rs_connection rs \<and> rq_get_args rq' = rq_get_args rq"
  proof (cases "hp_endpoint_handlers sv (get_arg ''req_url'' rq)")
    case (Some h)
    then obtain a where "hh_stream h a (rq, rs) = Ret (r, rq', rs')"
      using ret by (auto simp: front_controller_stream_def cpp_bind_Ret_iff)
    then show ?thesis using keepsD honest [OF Some] ans by blast
  qed (use ret ans in \<open>simp add: front_controller_stream_def\<close>)
qed

lemma keeps_posts:
  assumes "post_calls sv cs (rq, rs) = Ret (rq', rs')" and "answered rs"
  shows "answered rs' \<and> rs_connection rs' = rs_connection rs \<and> rq_get_args rq' = rq_get_args rq"
proof -
  let ?P = "\<lambda>(rq', rs'). answered rs' \<and> rs_connection rs' = rs_connection rs \<and> rq_get_args rq' = rq_get_args rq"
  have "?P (rq', rs')"
    by (rule for_each_inv [OF assms(1) [unfolded post_calls_def]])
      (use assms(2) keepsD [OF keeps_stream] in \<open>auto simp: post_processor_def cpp_bind_Ret_iff\<close>)
  then show ?thesis by simp
qed

text \<open>A call of the hook on a live request either keeps it or ends it with the result of its response.\<close>

lemma hook_live:
  assumes "cn_ptr cn = Some w" and "answered (wp_response w)" and "front_controller_c_hook sv k cn = Ret (r, cn')"
  shows "\<exists>rq rs. answered rs \<and> rs_connection rs = rs_connection (wp_response w)
    \<and> rq_get_args rq = rq_get_args (wp_request w)
    \<and> (cn_ptr cn' = Some \<lparr>wp_request = rq, wp_response = rs\<rparr> \<and> cn_done cn' = cn_done cn
       \<or> cn_ptr cn' = None \<and> cn_done cn' = cn_done cn @ [rs] \<and> r = rs_mhd_result rs)"
proof (cases "hk_upload_data_size k = 0")
  case True
  then have last: "hook_last sv k w cn = Ret (r, cn')" using assms(1,3) by (simp add: front_controller_c_hook_def)
  show ?thesis
  proof (cases "get_has_post_data (wp_request w)")
    case True
    with last obtain rq1 rs1 r1 rq rs where "post_calls sv (hk_destroy_calls k) (wp_request w, wp_response w) = Ret (rq1, rs1)"
      "front_controller_stream sv last_call (rq1, rs1) = Ret (r1, rq, rs)" "cn_ptr cn' = None"
      "cn_done cn' = cn_done cn @ [rs]" "r = rs_mhd_result rs"
      by (auto simp: hook_last_def cpp_bind_Ret_iff get_mhd_result_def Let_def)
    with keeps_posts [of _ _ _ rq1 rs1] keepsD [OF keeps_stream, of _ rq1 rs1 r1 rq rs] assms(2) show ?thesis by metis
  next
    case False
    with last obtain r1 rq rs where "front_controller sv (wp_request w, wp_response w) = Ret (r1, rq, rs)"
      "cn_ptr cn' = None" "cn_done cn' = cn_done cn @ [rs]" "r = rs_mhd_result rs"
      by (auto simp: hook_last_def cpp_bind_Ret_iff get_mhd_result_def Let_def)
    with keepsD [OF keeps_front, of _ _ r1 rq rs] assms(2) show ?thesis by metis
  qed
next
  case False
  let ?rq = "if \<not> get_has_post_data (wp_request w) then set_has_post_data True (wp_request w) else wp_request w"
  have args: "rq_get_args ?rq = rq_get_args (wp_request w)" by (simp add: set_has_post_data_def)
  have "hook_upload sv k w cn = Ret (r, cn')" using False assms(1,3) by (simp add: front_controller_c_hook_def)
  then obtain rq rs where "post_calls sv (hk_post_calls k) (?rq, wp_response w) = Ret (rq, rs)"
    "cn_ptr cn' = Some \<lparr>wp_request = rq, wp_response = rs\<rparr> \<and> cn_done cn' = cn_done cn
     \<or> cn_ptr cn' = None \<and> cn_done cn' = cn_done cn @ [rs] \<and> r = rs_mhd_result rs"
    by (auto simp: hook_upload_def cpp_bind_Ret_iff get_mhd_result_def Let_def split: if_splits)
  with keeps_posts [of "hk_post_calls k" ?rq "wp_response w" rq rs] assms(2) args show ?thesis by metis
qed

lemma hook_keeps:
  assumes "http_inv cn" and "front_controller_c_hook sv k cn = Ret (r, cn')"
  shows "http_inv cn'"
proof (cases "cn_ptr cn")
  case None
  with assms show ?thesis
    by (auto simp: front_controller_c_hook_def hook_first_def http_inv_def answered_def rs_new_def add_arg_def
        set_post_processor_def cpp_bind_Ret_iff Let_def)
next
  case (Some w)
  then have w: "answered (wp_response w)" "{''req_url'', ''method''} \<subseteq> dom (rq_get_args (wp_request w))"
    using assms(1) by (auto simp: http_inv_def)
  from hook_live [OF Some w(1) assms(2)] w(2) assms(1) show ?thesis by (auto simp: http_inv_def)
qed

end

sublocale honest_server \<subseteq> hook: step_inv "http_step sv" http_init http_inv
proof
  show "http_inv cn" if "http_init cn" for cn using that by (simp add: http_init_def http_inv_def)
  show "http_inv cn'" if "http_inv cn" "http_step sv cn r cn'" for cn r cn'
    using that hook_keeps by (auto simp: http_step_iff)
qed

subsection \<open>The sample server\<close>

text \<open>
  \<^verbatim>\<open>main\<close> of \<^verbatim>\<open>httpserver/main.cpp\<close>: \<open>opts\<close> is what boost parsed, \<open>None\<close> when it threw; then help was asked
  for or not, the port and the size of the thread pool.
\<close>

definition main_server :: "enum \<Rightarrow> u32 \<Rightarrow> u32 \<Rightarrow> HttpServer" where
  "main_server enum port tp = register_handler ''/'' (default_handler enum) (hp_new port tp 1048576)"

definition http_main :: "enum \<Rightarrow> bool \<Rightarrow> (bool \<times> u32 \<times> u32) option \<Rightarrow> unit cpp" where
  "http_main enum daemon opts =
     (case opts of
        None \<Rightarrow> Ret ()
      | Some (help, port, tp) \<Rightarrow>
          if help then Exit 0
          else cpp_bind (hp_start daemon (main_server enum port tp)) (\<lambda>_. Ret ()))"

lemma dh_keeps: "keeps (dh_handle enum)" "keeps (dh_stream enum a)"
proof -
  show "keeps (dh_handle enum)" by (auto simp: keeps_def dh_handle_result answered_def Let_def)
  show "keeps (dh_stream enum a)"
    by (auto simp: keeps_def dh_stream_result dh_taken_def answered_def Let_def split: if_splits)
qed

interpretation main_http: honest_server "main_server enum port tp"
  by unfold_locales
    (auto simp: main_server_def register_handler_def hp_new_def default_handler_def dh_keeps split: if_splits)

text \<open>
  C16: what \<^verbatim>\<open>MHD_YES\<close> means in the sample server. In every state of a connection that any calls of the
  hook can reach, a live request knows its url and method. A call that ends a request returns
  \<^verbatim>\<open>MHD_YES\<close> exactly when an attempt to queue a response with status 200 was made, and the attempts
  got the library's answers in order; so a response was queued when the library took the first
  attempt, and the hook also returns \<^verbatim>\<open>MHD_YES\<close> when the library refused all of them.
\<close>

theorem http_yes_means_attempted:
  assumes "reach http_init (http_step (main_server enum port tp)) cn" and "cn_ptr cn = Some w"
  shows "get_arg ''req_url'' (wp_request w) = the (rq_get_args (wp_request w) ''req_url'')
    \<and> ''req_url'' \<in> dom (rq_get_args (wp_request w)) \<and> ''method'' \<in> dom (rq_get_args (wp_request w))
    \<and> (front_controller_c_hook (main_server enum port tp) k cn = Ret (r, cn') \<longrightarrow> cn_ptr cn' = None \<longrightarrow>
         (\<exists>rs. cn_done cn' = cn_done cn @ [rs] \<and> r = (rs_calls rs \<noteq> [])
           \<and> map snd (rs_calls rs) = map (\<lambda>n. (200, rs_connection (wp_response w) n)) [0..<length (rs_calls rs)]
           \<and> (r \<and> rs_connection (wp_response w) 0 \<longrightarrow> (\<exists>b. (b, 200, True) \<in> set (rs_calls rs)))))"
proof -
  let ?sv = "main_server enum port tp"
  have inv: "http_inv cn" using main_http.hook.inv_reach [OF assms(1)] .
  then have w: "answered (wp_response w)" "{''req_url'', ''method''} \<subseteq> dom (rq_get_args (wp_request w))"
    using assms(2) by (auto simp: http_inv_def)
  have "\<exists>rs. cn_done cn' = cn_done cn @ [rs] \<and> r = (rs_calls rs \<noteq> [])
      \<and> map snd (rs_calls rs) = map (\<lambda>n. (200, rs_connection (wp_response w) n)) [0..<length (rs_calls rs)]
      \<and> (r \<and> rs_connection (wp_response w) 0 \<longrightarrow> (\<exists>b. (b, 200, True) \<in> set (rs_calls rs)))"
    if hook: "front_controller_c_hook ?sv k cn = Ret (r, cn')" and fin: "cn_ptr cn' = None"
  proof -
    obtain rs where rs: "answered rs" "rs_connection rs = rs_connection (wp_response w)"
      "cn_done cn' = cn_done cn @ [rs]" "r = rs_mhd_result rs"
      using main_http.hook_live [OF assms(2) w(1) hook] fin by auto
    have "\<exists>b. (b, 200, True) \<in> set (rs_calls rs)" if "rs_calls rs \<noteq> []" "rs_connection rs 0"
      using that rs(1) by (cases "rs_calls rs") (auto simp: answered_def upt_conv_Cons simp del: upt_Suc)
    with rs show ?thesis by (auto simp: answered_def)
  qed
  with w(2) show ?thesis by (auto simp: get_arg_def map_lookup_def)
qed

definition refuse_call :: hook_call where
  "refuse_call = (demo_call 0 [] [])\<lparr>hk_connection := \<lambda>n. False\<rparr>"

definition demo_live :: http_conn where
  "demo_live = demo_http_conn\<lparr>cn_ptr := Some \<lparr>wp_request = first_request refuse_call [(''a'', ''1'')],
     wp_response = rs_new (\<lambda>n. False)\<rparr>, cn_pps := [77]\<rparr>"

text \<open>The request that the library refuses to answer: the hook ends it with \<^verbatim>\<open>MHD_YES\<close> and nothing is queued.\<close>

theorem http_yes_means_attempted_witness:
  "\<exists>cn' rs. front_controller_c_hook (main_server (\<lambda>m. []) 8080 4) refuse_call demo_live = Ret (True, cn')
     \<and> cn_ptr cn' = None \<and> cn_done cn' = [rs] \<and> rs_calls rs \<noteq> [] \<and> (\<forall>c \<in> set (rs_calls rs). snd c = (200, False))"
proof -
  let ?sv = "main_server (\<lambda>m. []) 8080 4"
  have "http_step ?sv demo_http_conn True demo_live"
    by (rule hook_step [where k = refuse_call])
      (simp add: front_controller_c_hook_def hook_first_ok [where kvs = "[(''a'', ''1'')]"] refuse_call_def demo_call_def
        demo_http_conn_def demo_live_def)
  then have reach: "reach http_init (http_step ?sv) demo_live"
    by (rule reach_step [OF reach_init, rotated]) (simp add: http_init_def demo_http_conn_def)
  obtain cn' where hook: "front_controller_c_hook ?sv refuse_call demo_live = Ret (True, cn')" "cn_ptr cn' = None"
    by (simp add: front_controller_c_hook_def hook_last_def demo_live_def refuse_call_def demo_call_def rq_defs
        front_controller_def main_server_def register_handler_def hp_new_def default_handler_def dh_handle_result rs_new_def Let_def)
  obtain w where w: "cn_ptr demo_live = Some w" "rs_connection (wp_response w) = (\<lambda>n. False)"
    by (simp add: demo_live_def rs_new_def)
  from http_yes_means_attempted [OF reach w(1), of refuse_call True cn'] hook w(2) obtain rs where
    rs: "cn_done cn' = cn_done demo_live @ [rs]" "rs_calls rs \<noteq> []"
      "map snd (rs_calls rs) = map (\<lambda>n. (200, False)) [0..<length (rs_calls rs)]" by auto
  have "snd c = (200, False)" if "c \<in> set (rs_calls rs)" for c
    using that arg_cong [OF rs(3), of set] by force
  with hook rs show ?thesis by (auto simp: demo_live_def demo_http_conn_def)
qed

end
