(* ===== verification/Utils.thy ===== *)
theory Utils
  imports Prelude
begin

text \<open>
  The text and time helpers of \<^verbatim>\<open>utils.cpp\<close>: \<^verbatim>\<open>split\<close>, \<^verbatim>\<open>c_epoch_millis\<close> with the parts of the
  standard library it calls (\<^verbatim>\<open>std::stoi\<close>, \<^verbatim>\<open>timegm\<close>), \<^verbatim>\<open>hash_it\<close> and the clock readings.
  Strings are byte strings; a thrown \<^verbatim>\<open>std::exception\<close> is the left side of a sum.
\<close>

subsection \<open>split\<close>

definition split_step :: "bytes \<Rightarrow> char \<Rightarrow> nat \<Rightarrow> bytes list \<times> bytes \<Rightarrow> bytes list \<times> bytes" where
  "split_step data d i st =
     (case st of (result, buffer) \<Rightarrow>
        if data ! i = d \<and> i = length data - 1 then (result @ [buffer] @ [''''], buffer)
        else if data ! i = d \<or> i = length data - 1
        then (result @ [if data ! i \<noteq> d then buffer @ [data ! i] else buffer], [])
        else (result, buffer @ [data ! i]))"

definition split :: "bytes \<Rightarrow> char \<Rightarrow> bytes list" where
  "split data d = fst (fold (split_step data d) [0..<length data] ([], []))"

text \<open>Specification: the maximal pieces without the delimiter.\<close>

fun split_on :: "char \<Rightarrow> bytes \<Rightarrow> bytes list" where
  "split_on d [] = [[]]"
| "split_on d (c # cs) = (if c = d then [] # split_on d cs
     else (c # hd (split_on d cs)) # tl (split_on d cs))"

fun join :: "char \<Rightarrow> bytes list \<Rightarrow> bytes" where
  "join d [] = []"
| "join d [x] = x"
| "join d (x # y # ys) = x @ d # join d (y # ys)"

subsection \<open>std::stoi\<close>

datatype std_exception = Invalid_argument | Out_of_range

definition is_space :: "char \<Rightarrow> bool" where
  "is_space c \<longleftrightarrow> (let n = of_char c :: nat in n = 32 \<or> 9 \<le> n \<and> n \<le> 13)"

definition is_digit :: "char \<Rightarrow> bool" where
  "is_digit c \<longleftrightarrow> (let n = of_char c :: nat in 48 \<le> n \<and> n \<le> 57)"

definition digit_val :: "char \<Rightarrow> int" where
  "digit_val c = int (of_char c) - 48"

definition digits_val :: "bytes \<Rightarrow> int" where
  "digits_val ds = foldl (\<lambda>v c. 10 * v + digit_val c) 0 ds"

definition int_min :: int where "int_min = - (2 ^ 31)"
definition int_max :: int where "int_max = 2 ^ 31 - 1"

text \<open>
  \<^verbatim>\<open>strtol\<close> in base 10: leading white space, an optional sign, the longest run of digits; what
  follows is ignored. No digit is \<^verbatim>\<open>invalid_argument\<close>, a value outside \<^verbatim>\<open>int\<close> is \<^verbatim>\<open>out_of_range\<close>.
\<close>

definition stoi :: "bytes \<Rightarrow> std_exception + int" where
  "stoi s =
     (let t = dropWhile is_space s;
          neg = (t \<noteq> [] \<and> hd t = CHR ''-'');
          u = (if t \<noteq> [] \<and> (hd t = CHR ''-'' \<or> hd t = CHR ''+'') then tl t else t);
          ds = takeWhile is_digit u;
          v = (if neg then - digits_val ds else digits_val ds)
      in if ds = [] then Inl Invalid_argument
         else if v < int_min \<or> int_max < v then Inl Out_of_range
         else Inr v)"

subsection \<open>timegm\<close>

record tm =
  tm_year :: int
  tm_mon :: int
  tm_mday :: int
  tm_hour :: int
  tm_min :: int
  tm_sec :: int

definition leap :: "int \<Rightarrow> bool" where
  "leap y \<longleftrightarrow> y mod 4 = 0 \<and> (y mod 100 \<noteq> 0 \<or> y mod 400 = 0)"

definition leaps_upto :: "int \<Rightarrow> int" where
  "leaps_upto y = y div 4 - y div 100 + y div 400"

definition month_start :: "int list" where
  "month_start = [0, 31, 59, 90, 120, 151, 181, 212, 243, 273, 304, 334]"

definition days_to_month :: "int \<Rightarrow> int \<Rightarrow> int" where
  "days_to_month y m = month_start ! nat m + (if leap y \<and> 2 \<le> m then 1 else 0)"

text \<open>Months outside 0..11 carry into the year; all other fields count linearly.\<close>

definition timegm :: "tm \<Rightarrow> int" where
  "timegm t =
     (let y = 1900 + tm_year t + tm_mon t div 12;
          m = tm_mon t mod 12;
          days = 365 * (y - 1970) + leaps_upto (y - 1) - leaps_upto 1969
                 + days_to_month y m + tm_mday t - 1
      in ((days * 24 + tm_hour t) * 60 + tm_min t) * 60 + tm_sec t)"

subsection \<open>c_epoch_millis\<close>

text \<open>
  \<^verbatim>\<open>stoi(s) - k\<close> in \<^verbatim>\<open>int\<close>: an exception leaves the function with the result still 0, a value below
  \<^verbatim>\<open>INT_MIN\<close> is undefined behaviour.
\<close>

definition with_stoi :: "bytes \<Rightarrow> int \<Rightarrow> (int \<Rightarrow> u64 cpp) \<Rightarrow> u64 cpp" where
  "with_stoi s k f =
     (case stoi s of Inl e \<Rightarrow> Ret 0
      | Inr v \<Rightarrow> if v - k < int_min then Undef else f (v - k))"

definition c_epoch_millis :: "bytes \<Rightarrow> u64 cpp" where
  "c_epoch_millis val =
     (let dt = split val CHR '' '' in
      if length dt = 2 then
        let dd = split (dt ! 0) CHR ''-'' in
        if length dd = 3 then
          with_stoi (dd ! 0) 1900 (\<lambda>year.
          with_stoi (dd ! 1) 1 (\<lambda>mon.
          with_stoi (dd ! 2) 0 (\<lambda>mday.
            let tms = split (dt ! 1) CHR '','' in
            if length tms = 2 then
              with_stoi (tms ! 1) 0 (\<lambda>ms.
                let millis = (word_of_int ms :: u32); tt = split (tms ! 0) CHR '':'' in
                if length tt = 3 then
                  with_stoi (tt ! 0) 0 (\<lambda>hour.
                  with_stoi (tt ! 1) 0 (\<lambda>mi.
                  with_stoi (tt ! 2) 0 (\<lambda>sec.
                    let epoch_s = timegm \<lparr>tm_year = year, tm_mon = mon, tm_mday = mday,
                                          tm_hour = hour, tm_min = mi, tm_sec = sec\<rparr>
                    in Ret ((word_of_int epoch_s :: u64) * 1000 + ucast millis))))
                else Ret 0)
            else Ret 0)))
        else Ret 0
      else Ret 0)"

subsection \<open>Clock readings\<close>

text \<open>\<open>tv\<close> is what \<^verbatim>\<open>gettimeofday\<close> stored: seconds and microseconds.\<close>

definition epoch_millis_now :: "int \<times> int \<Rightarrow> u64" where
  "epoch_millis_now tv = (case tv of (tv_sec, tv_usec) \<Rightarrow> word_of_int (tv_sec * 1000 + tv_usec div 1000))"

definition epoch_micros_now :: "int \<times> int \<Rightarrow> u64" where
  "epoch_micros_now tv = (case tv of (tv_sec, tv_usec) \<Rightarrow> word_of_int (tv_sec * 1000000 + tv_usec))"

subsection \<open>hash_it\<close>

text \<open>\<^verbatim>\<open>char\<close> is signed: adding it to a \<^verbatim>\<open>uint32_t\<close> sign extends it.\<close>

definition char_u32 :: "char \<Rightarrow> u32" where
  "char_u32 c = scast (of_char c :: u8)"

definition hash_it :: "bytes \<Rightarrow> u32 cpp" where
  "hash_it val = for_u32 (length val) (\<lambda>i h. Ret (h + (31 * h + char_u32 (val ! i)))) 0"

subsection \<open>Lemmas: split\<close>

lemma split_on_nonempty [simp]: "split_on d s \<noteq> []"
  by (cases s) auto

lemma split_on_snoc:
  "split_on d (s @ [c]) = (if c = d then split_on d s @ [[]]
     else butlast (split_on d s) @ [last (split_on d s) @ [c]])"
proof (induction s)
  case (Cons x xs)
  obtain y ys where "split_on d xs = y # ys" by (meson list.exhaust split_on_nonempty)
  with Cons show ?case by (cases ys) auto
qed simp

lemma split_prefix:
  assumes "n < length s"
  shows "fold (split_step s d) [0..<n] ([], []) =
    (butlast (split_on d (take n s)), last (split_on d (take n s)))"
  using assms
proof (induction n)
  case (Suc n)
  then have IH: "fold (split_step s d) [0..<n] ([], []) =
      (butlast (split_on d (take n s)), last (split_on d (take n s)))" by simp
  have eq: "fold (split_step s d) [0..<Suc n] ([], []) =
      split_step s d n (butlast (split_on d (take n s)), last (split_on d (take n s)))"
    using IH by simp
  have "n \<noteq> length s - 1" using Suc.prems by simp
  then show ?case
    unfolding eq using Suc.prems by (simp add: split_step_def take_Suc_snoc split_on_snoc butlast_append)
qed simp

lemma split_eq: "split s d = (if s = [] then [] else split_on d s)"
proof (cases s rule: rev_cases)
  case (snoc p c)
  then have pre: "fold (split_step s d) [0..<length p] ([], []) =
      (butlast (split_on d p), last (split_on d p))"
    using split_prefix [of "length p" s d] by simp
  have "[0..<length s] = [0..<length p] @ [length p]" using snoc by simp
  then have "split s d = fst (split_step s d (length p) (butlast (split_on d p), last (split_on d p)))"
    unfolding split_def using pre by simp
  then show ?thesis using snoc by (simp add: split_step_def split_on_snoc)
qed (simp add: split_def)

lemma join_split_on: "join d (split_on d s) = s"
proof (induction s)
  case (Cons c cs)
  obtain y ys where "split_on d cs = y # ys" by (meson list.exhaust split_on_nonempty)
  with Cons show ?case by (cases ys) auto
qed simp

lemma split_on_pieces: "x \<in> set (split_on d s) \<Longrightarrow> d \<notin> set x"
proof (induction s arbitrary: x)
  case (Cons c cs)
  obtain y ys where "split_on d cs = y # ys" by (meson list.exhaust split_on_nonempty)
  with Cons show ?case by (auto split: if_splits)
qed simp

lemma split_on_clean: "d \<notin> set s \<Longrightarrow> split_on d s = [s]"
  by (induction s) auto

lemma split_on_app: "d \<notin> set s \<Longrightarrow> split_on d (s @ d # t) = s # split_on d t"
  by (induction s) auto

lemma length_split_on: "length (split_on d s) = Suc (count_list s d)"
  by (induction s) auto


subsection \<open>Lemmas: numbers in decimal\<close>

text \<open>The \<open>w\<close> last decimal digits of a number, the format of the fields of a timestamp.\<close>

definition digit_char :: "nat \<Rightarrow> char" where
  "digit_char k = char_of (48 + k)"

fun pad :: "nat \<Rightarrow> nat \<Rightarrow> bytes" where
  "pad 0 n = []"
| "pad (Suc w) n = pad w (n div 10) @ [digit_char (n mod 10)]"

lemma of_digit_char: "k < 10 \<Longrightarrow> of_char (digit_char k) = (48 + k :: nat)"
  by (simp add: digit_char_def of_char_of)

lemma length_pad [simp]: "length (pad w n) = w"
  by (induction w arbitrary: n) auto

lemma pad_digits: "c \<in> set (pad w n) \<Longrightarrow> \<exists>k < 10. c = digit_char k"
proof (induction w arbitrary: n)
  case (Suc w)
  consider "c \<in> set (pad w (n div 10))" | "c = digit_char (n mod 10)" using Suc.prems by auto
  then show ?case
  proof cases
    case 1
    then show ?thesis by (rule Suc.IH)
  next
    case 2
    then show ?thesis by (intro exI [of _ "n mod 10"]) simp
  qed
qed simp

lemma pad_is_digit: "c \<in> set (pad w n) \<Longrightarrow> is_digit c"
  by (auto dest!: pad_digits simp: is_digit_def of_digit_char)

lemma digits_val_pad: "digits_val (pad w n) = int (n mod 10 ^ w)"
proof (induction w arbitrary: n)
  case (Suc w)
  have "int (n mod 10 ^ Suc w) = 10 * int (n div 10 mod 10 ^ w) + int (n mod 10)"
    by (simp add: mod_mult2_eq)
  moreover have "digit_val (digit_char (n mod 10)) = int (n mod 10)"
    by (simp add: digit_val_def of_digit_char)
  ultimately show ?case using Suc.IH [of "n div 10"] by (simp add: digits_val_def)
qed (simp add: digits_val_def)

lemma digit_not: "is_digit c \<Longrightarrow> \<not> is_space c \<and> c \<noteq> CHR ''-'' \<and> c \<noteq> CHR ''+''"
  by (auto simp: is_digit_def is_space_def Let_def)

lemma stoi_pad:
  assumes "0 < w" "w \<le> 9" "n < 10 ^ w"
  shows "stoi (pad w n) = Inr (int n)"
proof -
  obtain c cs where pad: "pad w n = c # cs" using assms(1) by (cases "pad w n") (auto dest: arg_cong [of _ _ length])
  then have c: "\<not> is_space c" "c \<noteq> CHR ''-''" "c \<noteq> CHR ''+''"
    using pad_is_digit [of c w n] digit_not by auto
  have all: "takeWhile is_digit (pad w n) = pad w n"
    using pad_is_digit by (simp add: takeWhile_eq_all_conv)
  have "(10::nat) ^ w \<le> 10 ^ 9" using assms(2) by (intro power_increasing) simp_all
  then have "n < 10 ^ 9" using assms(3) by simp
  then show ?thesis
    using c all digits_val_pad [of w n] assms(3) pad
    by (simp add: stoi_def Let_def int_min_def int_max_def)
qed

lemma pad_free: "\<not> is_digit c \<Longrightarrow> c \<notin> set (pad w n)"
  using pad_is_digit by blast

lemma separators_no_digit [simp]:
  "\<not> is_digit CHR '' ''" "\<not> is_digit CHR ''-''" "\<not> is_digit CHR '',''" "\<not> is_digit CHR '':''"
  by (simp_all add: is_digit_def)

subsection \<open>Lemmas: the calendar\<close>

definition days_in_year :: "int \<Rightarrow> int" where
  "days_in_year y = (if leap y then 366 else 365)"

definition days_in_month :: "int \<Rightarrow> nat \<Rightarrow> int" where
  "days_in_month y m = (if m = 2 then (if leap y then 29 else 28)
     else if m \<in> {4, 6, 9, 11} then 30 else 31)"

text \<open>Specification: the days before day \<open>d\<close> of month \<open>m\<close> (1 to 12) of year \<open>y\<close>, counted from 1970-01-01.\<close>

definition day_number :: "nat \<Rightarrow> nat \<Rightarrow> nat \<Rightarrow> int" where
  "day_number y m d = (\<Sum>k = 1970..<y. days_in_year (int k)) + (\<Sum>j = 1..<m. days_in_month (int y) j)
     + int d - 1"

lemma div_pred:
  fixes y k :: int
  assumes "0 < k"
  shows "y div k - (y - 1) div k = (if y mod k = 0 then 1 else 0)"
proof (cases "y mod k = 0")
  case True
  then have "y - 1 = k * (y div k - 1) + (k - 1)"
    using mult_div_mod_eq [of k y] by (simp add: algebra_simps)
  from int_div_pos_eq [OF this] assms have "(y - 1) div k = y div k - 1" by simp
  with True show ?thesis by simp
next
  case False
  have eq: "y - 1 = k * (y div k) + (y mod k - 1)" using mult_div_mod_eq [of k y] by simp
  have "0 \<le> y mod k" "y mod k < k" using assms by simp_all
  with False have "0 \<le> y mod k - 1" "y mod k - 1 < k" by linarith+
  then have "(y - 1) div k = y div k" by (rule int_div_pos_eq [OF eq])
  with False show ?thesis by simp
qed

lemma leap_count:
  fixes a a' b b' c c' :: int
  assumes "a - a' = (if A then 1 else 0)" "b - b' = (if B then 1 else 0)" "c - c' = (if C then 1 else 0)"
    and "C \<Longrightarrow> B" "B \<Longrightarrow> A"
  shows "(a - b + c) - (a' - b' + c') = (if A \<and> (\<not> B \<or> C) then 1 else 0)"
  using assms by (auto split: if_splits)

lemma leaps_step: "leaps_upto y - leaps_upto (y - 1) = (if leap y then 1 else 0)"
proof -
  have "y mod 400 = 0 \<Longrightarrow> y mod 100 = 0" "y mod 100 = 0 \<Longrightarrow> y mod 4 = 0"
    using dvd_trans [of 100 400 y] dvd_trans [of 4 100 y] by (auto simp: mod_eq_0_iff_dvd)
  then show ?thesis
    unfolding leaps_upto_def leap_def by (intro leap_count div_pred) simp_all
qed

lemma year_days:
  "1970 \<le> y \<Longrightarrow> (\<Sum>k = 1970..<y. days_in_year (int k)) =
     365 * (int y - 1970) + leaps_upto (int y - 1) - leaps_upto 1969"
proof (induction y)
  case (Suc y)
  show ?case
  proof (cases "1970 \<le> y")
    case True
    then show ?thesis
      using Suc.IH leaps_step [of "int y"] by (cases "leap (int y)") (simp_all add: days_in_year_def)
  next
    case False
    with Suc.prems have "Suc y = 1970" by simp
    then show ?thesis by simp
  qed
qed simp

lemma month_days:
  assumes "1 \<le> m" "m \<le> 12"
  shows "(\<Sum>j = 1..<m. days_in_month y j) = days_to_month y (int m - 1)"
proof -
  have "m = 1 \<or> m = 2 \<or> m = 3 \<or> m = 4 \<or> m = 5 \<or> m = 6 \<or> m = 7 \<or> m = 8 \<or> m = 9 \<or> m = 10
      \<or> m = 11 \<or> m = 12" using assms by presburger
  then show ?thesis
    by (auto simp: days_to_month_def month_start_def days_in_month_def numeral_eq_Suc)
qed

lemma timegm_day_number:
  assumes "1970 \<le> y" "1 \<le> m" "m \<le> 12"
  shows "timegm \<lparr>tm_year = int y - 1900, tm_mon = int m - 1, tm_mday = int d,
      tm_hour = int h, tm_min = int mi, tm_sec = int s\<rparr> =
    ((day_number y m d * 24 + int h) * 60 + int mi) * 60 + int s"
proof -
  have m: "(int m - 1) div 12 = 0" "(int m - 1) mod 12 = int m - 1" using assms by auto
  show ?thesis
    unfolding timegm_def Let_def day_number_def
    using year_days [OF assms(1)] month_days [OF assms(2,3), of "int y"] m by simp
qed


subsection \<open>Lemmas: timestamps\<close>

definition timestamp :: "nat \<Rightarrow> nat \<Rightarrow> nat \<Rightarrow> nat \<Rightarrow> nat \<Rightarrow> nat \<Rightarrow> nat \<Rightarrow> bytes" where
  "timestamp y m d h mi s ms =
     (pad 4 y @ CHR ''-'' # pad 2 m @ CHR ''-'' # pad 2 d) @ CHR '' '' #
     (pad 2 h @ CHR '':'' # pad 2 mi @ CHR '':'' # pad 2 s) @ CHR '','' # pad 3 ms"

lemma split_2: "d \<notin> set a \<Longrightarrow> d \<notin> set b \<Longrightarrow> split (a @ d # b) d = [a, b]"
  by (simp add: split_eq split_on_app split_on_clean)

lemma split_3:
  "d \<notin> set a \<Longrightarrow> d \<notin> set b \<Longrightarrow> d \<notin> set c \<Longrightarrow> split (a @ d # b @ d # c) d = [a, b, c]"
  by (simp add: split_eq split_on_app split_on_clean)

lemma with_stoi_pad:
  assumes "0 < w" "w \<le> 9" "n < 10 ^ w" "k \<le> 1900"
  shows "with_stoi (pad w n) k f = f (int n - k)"
  using assms by (simp add: with_stoi_def stoi_pad int_min_def)

lemma millis_u64: "ms < 2 ^ 32 \<Longrightarrow> (ucast (word_of_int (int ms) :: u32) :: u64) = word_of_int (int ms)"
  by (simp add: unsigned_of_nat take_bit_nat_eq_self)

subsection \<open>Lemmas: hashing\<close>

lemma hash_fold:
  "length val < 2 ^ 32 \<Longrightarrow> hash_it val = Ret (foldl (\<lambda>h c. h + (31 * h + char_u32 c)) 0 val)"
proof -
  have "fold (\<lambda>i h. h + (31 * h + char_u32 (val ! i))) [0..<n] 0 =
      foldl (\<lambda>h c. h + (31 * h + char_u32 c)) 0 (take n val)" if "n \<le> length val" for n
    using that by (induction n) (simp_all add: take_Suc_snoc)
  then show "length val < 2 ^ 32 \<Longrightarrow> ?thesis"
    by (simp add: hash_it_def for_u32_bounded for_each_pure)
qed

lemma hash_shift:
  "foldl (\<lambda>h c. h + (31 * h + char_u32 c)) h0 cs =
   32 ^ length cs * h0 + foldl (\<lambda>h c. h + (31 * h + char_u32 c)) 0 cs"
proof (induction cs rule: rev_induct)
  case (snoc c cs)
  then show ?case by (simp add: algebra_simps)
qed simp

lemma hash_shift_out: "7 \<le> n \<Longrightarrow> (32 :: u32) ^ n = 0"
proof -
  assume "7 \<le> n"
  then obtain k where "n = 7 + k" by (metis le_Suc_ex)
  then have "(32 :: u32) ^ n = 32 ^ 7 * 32 ^ k" by (simp add: power_add)
  also have "(32 :: u32) ^ 7 = 0" by simp
  finally show ?thesis by simp
qed

lemma hash_suffix:
  assumes "7 \<le> length val" and "length val < 2 ^ 32"
  shows "hash_it val = hash_it (drop (length val - 7) val)"
proof -
  let ?f = "foldl (\<lambda>h c. h + (31 * h + char_u32 c))" and ?k = "length val - 7"
  have "?f 0 val = ?f (?f 0 (take ?k val)) (drop ?k val)"
    by (metis append_take_drop_id foldl_append)
  also have "\<dots> = 32 ^ length (drop ?k val) * ?f 0 (take ?k val) + ?f 0 (drop ?k val)"
    by (rule hash_shift)
  also have "(32 :: u32) ^ length (drop ?k val) = 0" using assms(1) by (intro hash_shift_out) simp
  finally show ?thesis using assms(2) by (simp add: hash_fold del: foldl_append)
qed

subsection \<open>Properties\<close>

text \<open>
  C32: \<^verbatim>\<open>split\<close> is the split at every occurrence of the delimiter. On a non-empty string it returns one
  piece more than there are delimiters, no piece contains the delimiter, and the pieces joined by
  the delimiter are the string again; the empty string gives no piece at all.
\<close>

theorem split_correct:
  "(s = [] \<longrightarrow> split s d = []) \<and>
   (s \<noteq> [] \<longrightarrow> length (split s d) = Suc (count_list s d) \<and> (\<forall>x \<in> set (split s d). d \<notin> set x)
      \<and> join d (split s d) = s)"
  by (simp add: split_eq length_split_on join_split_on split_on_pieces)

theorem split_correct_witness:
  "length (split ''a,,b,'' CHR '','') = 4 \<and> join CHR '','' (split ''a,,b,'' CHR '','') = ''a,,b,''"
  using split_correct [of "''a,,b,''" "CHR '',''"] by simp

text \<open>
  C28: \<^verbatim>\<open>c_epoch_millis\<close> converts every timestamp \<^verbatim>\<open>YYYY-MM-DD HH:MM:SS,mmm\<close> from 1970 on to the
  milliseconds since the epoch, with the days counted by the lengths of the years and months of
  the Gregorian calendar.
\<close>

theorem c_epoch_millis_correct:
  assumes "1970 \<le> y" "y \<le> 9999" "1 \<le> m" "m \<le> 12" "1 \<le> d" "d \<le> 31"
    and "h < 24" "mi < 60" "s < 60" "ms < 1000"
  shows "c_epoch_millis (timestamp y m d h mi s ms) =
    Ret (word_of_int ((((day_number y m d * 24 + int h) * 60 + int mi) * 60 + int s) * 1000 + int ms))"
proof -
  let ?D = "pad 4 y @ CHR ''-'' # pad 2 m @ CHR ''-'' # pad 2 d"
  let ?T = "pad 2 h @ CHR '':'' # pad 2 mi @ CHR '':'' # pad 2 s"
  have "split (timestamp y m d h mi s ms) CHR '' '' = [?D, ?T @ CHR '','' # pad 3 ms]"
    unfolding timestamp_def by (rule split_2) (simp_all add: pad_free)
  moreover have "split ?D CHR ''-'' = [pad 4 y, pad 2 m, pad 2 d]"
    by (rule split_3) (simp_all add: pad_free)
  moreover have "split (?T @ CHR '','' # pad 3 ms) CHR '','' = [?T, pad 3 ms]"
    by (rule split_2) (simp_all add: pad_free)
  moreover have "split ?T CHR '':'' = [pad 2 h, pad 2 mi, pad 2 s]"
    by (rule split_3) (simp_all add: pad_free)
  moreover have "ms < 2 ^ 32" using assms by simp
  ultimately show ?thesis
    using assms timegm_day_number [of y m d h mi s]
    by (simp add: c_epoch_millis_def Let_def with_stoi_pad millis_u64 del: of_int_of_nat_eq)
qed

theorem c_epoch_millis_correct_witness:
  "c_epoch_millis ''2016-08-16 23:30:53,398'' = Ret 1471390253398"
proof -
  have "timestamp 2016 8 16 23 30 53 398 = ''2016-08-16 23:30:53,398''"
    by code_simp
  moreover have "day_number 2016 8 16 = 17029"
    unfolding day_number_def using year_days [of 2016] month_days [of 8]
    by (simp add: leaps_upto_def days_to_month_def month_start_def leap_def)
  ultimately show ?thesis using c_epoch_millis_correct [of 2016 8 16 23 30 53 398] by simp
qed

text \<open>
  \<^verbatim>\<open>c_epoch_millis\<close> returns 0 for every string that does not have exactly one blank, so the
  documented format is required.
\<close>

lemma c_epoch_millis_malformed:
  assumes "count_list val CHR '' '' \<noteq> 1"
  shows "c_epoch_millis val = Ret 0"
  using assms by (simp add: c_epoch_millis_def split_eq length_split_on)

text \<open>
  The hash of a key depends on its last seven bytes only: each step multiplies by 32, so every
  earlier byte is shifted out of the 32 bits. Keys that agree on their last seven bytes go to the
  same host.
\<close>

lemma hash_it_last_seven:
  assumes "7 \<le> length val" and "length val < 2 ^ 32"
  shows "hash_it val = hash_it (drop (length val - 7) val)"
  using assms by (rule hash_suffix)

end
