(* ===== verification/Socket_Server.thy ===== *)
theory Socket_Server
  imports Socket_Utils Transition Utils
begin

text \<open>
  \<^verbatim>\<open>SocketServer\<close> (\<^verbatim>\<open>socket_server.cpp\<close>): the state of the server, one operation per method and per
  lambda of the constructor, and the step relation of its threads. A step is one run of the event
  loop body, one unit of work taken from the read or the write pool, one call of \<^verbatim>\<open>send_msg\<close> or one
  pass of the reaper. The work of the accept pool is split further: no mutex is held from the
  \<^verbatim>\<open>epoll_ctl\<close> that adds a new descriptor to the end of \<^verbatim>\<open>add\<close>, so the system calls of one
  connection and each of the three critical sections of \<^verbatim>\<open>add\<close> are steps of their own and other
  steps may come in between.
  The message handler is a parameter. Its only way to act on the server is \<^verbatim>\<open>send_msg\<close>, so it is a
  function from the calls it has seen so far and the new message to the messages it sends.
  \<open>sv_delivered\<close> is the history of these calls. The work queues stand for what the three thread
  pools hold (their own behaviour is in \<open>Thread_Pool\<close>).
\<close>

subsection \<open>State\<close>

datatype work = Add_f | Read_f sfd | Write_f sfd

type_synonym message = "bytes \<times> bytes \<times> sfd"

record SocketServer =
  sv_port :: u32
  sv_sin_port :: "16 word"
  sv_i_sfd :: sfd
  sv_ep_sfd :: sfd
  sv_rrm :: "sfd \<rightharpoonup> ReadR"
  sv_wrm :: "sfd \<rightharpoonup> WriteR"
  sv_events :: epoll_st
  sv_zm :: "sfd \<rightharpoonup> u64"
  sv_a_tp :: "work list"
  sv_r_tp :: "work list"
  sv_w_tp :: "work list"
  sv_delivered :: "message list"

type_synonym handler = "message list \<Rightarrow> bytes \<Rightarrow> bytes \<Rightarrow> sfd \<Rightarrow> message list"

subsection \<open>Start up\<close>

text \<open>The answers of the system calls of the constructor, in the order of the calls.\<close>

record start_ans =
  st_socket :: int
  st_bind :: int
  st_getfl :: int
  st_setfl :: int
  st_listen :: int
  st_epoll_create :: int
  st_epoll_ctl :: int

definition create_socket :: "int \<Rightarrow> SocketServer \<Rightarrow> SocketServer cpp" where
  "create_socket fd s = (if fd < 0 then Exit 1
     else Ret (s\<lparr>sv_i_sfd := fd, sv_sin_port := htons (ucast (sv_port s))\<rparr>))"

definition bind_socket :: "int \<Rightarrow> SocketServer \<Rightarrow> SocketServer cpp" where
  "bind_socket b_result s = (if b_result < 0 then Exit 1 else Ret s)"

definition listen_socket :: "int \<Rightarrow> SocketServer \<Rightarrow> SocketServer cpp" where
  "listen_socket listen_result s = (if listen_result < 0 then Exit 1 else Ret s)"

text \<open>The constructor up to the start of the reaper thread and of the event loop.\<close>

definition sv_new :: "u32 \<Rightarrow> start_ans \<Rightarrow> SocketServer cpp" where
  "sv_new port a =
     cpp_bind (create_socket (st_socket a)
       \<lparr>sv_port = port, sv_sin_port = 0, sv_i_sfd = 0, sv_ep_sfd = 0, sv_rrm = Map.empty,
        sv_wrm = Map.empty, sv_events = \<lparr>sfd_events = Map.empty, calls = []\<rparr>, sv_zm = Map.empty,
        sv_a_tp = [], sv_r_tp = [], sv_w_tp = [], sv_delivered = []\<rparr>) (\<lambda>s.
     cpp_bind (bind_socket (st_bind a) s) (\<lambda>s.
     cpp_bind (unblock_socket (st_getfl a) (st_setfl a) (sv_i_sfd s) (sv_events s)) (\<lambda>ev.
     cpp_bind (listen_socket (st_listen a) (s\<lparr>sv_events := ev\<rparr>)) (\<lambda>s.
     cpp_bind (create_and_config_epoll (st_epoll_create a) (st_epoll_ctl a) (sv_i_sfd s) (sv_events s))
       (\<lambda>(ep, ev). Ret (s\<lparr>sv_ep_sfd := ep, sv_events := ev\<rparr>))))))"

subsection \<open>Operations\<close>

text \<open>The three critical sections of \<^verbatim>\<open>add\<close>, under \<^verbatim>\<open>r_mutex\<close>, \<^verbatim>\<open>w_mutex\<close> and \<^verbatim>\<open>e_mutex\<close>.\<close>

definition sv_add_r :: "sfd \<Rightarrow> SocketServer \<Rightarrow> SocketServer" where
  "sv_add_r nsfd s = s\<lparr>sv_rrm := map_emplace nsfd \<lparr>rr_br = br_new EOT, rr_valid = True\<rparr> (sv_rrm s)\<rparr>"

definition sv_add_w :: "sfd \<Rightarrow> SocketServer \<Rightarrow> SocketServer" where
  "sv_add_w nsfd s = s\<lparr>sv_wrm := map_emplace nsfd \<lparr>wr_bw = bw_new, wr_valid = True\<rparr> (sv_wrm s)\<rparr>"

definition sv_add_e :: "sfd \<Rightarrow> SocketServer \<Rightarrow> SocketServer" where
  "sv_add_e nsfd s = s\<lparr>sv_events := set_mask nsfd EPOLLIN (sv_events s)\<rparr>"

definition sv_add :: "sfd \<Rightarrow> SocketServer \<Rightarrow> SocketServer" where
  "sv_add nsfd s = sv_add_e nsfd (sv_add_w nsfd (sv_add_r nsfd s))"

definition sv_a_zombied :: "u64 \<Rightarrow> sfd \<Rightarrow> SocketServer \<Rightarrow> SocketServer" where
  "sv_a_zombied now sfd s = s\<lparr>sv_zm := (sv_zm s)(sfd \<mapsto> now)\<rparr>"

definition sv_send_msg :: "char \<Rightarrow> bytes \<Rightarrow> bytes \<Rightarrow> sfd \<Rightarrow> SocketServer \<Rightarrow> SocketServer cpp" where
  "sv_send_msg junk uuid_v msg_v sfd s =
     cpp_bind (make_frame junk (uuid_v, msg_v)) (\<lambda>msg_frame.
       case sv_wrm s sfd of
         None \<Rightarrow> Ret s
       | Some wr \<Rightarrow>
           cpp_bind (if wr_valid wr then bw_write msg_frame (wr_bw wr) else Ret (wr_bw wr)) (\<lambda>bw.
             Ret (s\<lparr>sv_wrm := (sv_wrm s)(sfd \<mapsto> wr\<lparr>wr_bw := bw\<rparr>),
                    sv_events := arm EPOLLOUT (sv_ep_sfd s) sfd (sv_events s)\<rparr>)))"

text \<open>The callback of the reader of \<open>nsfd\<close>: unpack the frame and call the handler, which may send.\<close>

definition sv_call_back :: "handler \<Rightarrow> char \<Rightarrow> sfd \<Rightarrow> bytes \<Rightarrow> SocketServer \<Rightarrow> SocketServer cpp" where
  "sv_call_back handler junk nsfd msg_frame s =
     cpp_bind (decode_frame (msg_frame @ [EOT])) (\<lambda>(uuid_v, msg_v).
       for_each (handler (sv_delivered s) uuid_v msg_v nsfd) (\<lambda>(u, m, f). sv_send_msg junk u m f)
         (s\<lparr>sv_delivered := sv_delivered s @ [(uuid_v, msg_v, nsfd)]\<rparr>))"

definition sv_read_callback :: "sfd \<Rightarrow> SocketServer \<Rightarrow> SocketServer" where
  "sv_read_callback sfd s =
     s\<lparr>sv_events := toggle EPOLLIN (sv_ep_sfd s) sfd (sv_events s), sv_r_tp := sv_r_tp s @ [Read_f sfd]\<rparr>"

definition sv_write_callback :: "sfd \<Rightarrow> SocketServer \<Rightarrow> SocketServer" where
  "sv_write_callback sfd s =
     s\<lparr>sv_events := toggle EPOLLOUT (sv_ep_sfd s) sfd (sv_events s), sv_w_tp := sv_w_tp s @ [Write_f sfd]\<rparr>"

definition sv_add_callback :: "SocketServer \<Rightarrow> SocketServer" where
  "sv_add_callback s = s\<lparr>sv_a_tp := sv_a_tp s @ [Add_f]\<rparr>"

text \<open>The body of the loop over the events of \<^verbatim>\<open>process_epoll_events\<close>.\<close>

definition sv_process_event :: "u64 \<Rightarrow> u32 \<times> sfd \<Rightarrow> SocketServer \<Rightarrow> SocketServer" where
  "sv_process_event now ev s =
     (case ev of (events, fd) \<Rightarrow>
        if events AND EPOLLERR \<noteq> 0 \<or> events AND EPOLLHUP \<noteq> 0
        then (sv_a_zombied now fd s)\<lparr>sv_events := log_call (Close fd) (sv_events s)\<rparr>
        else if fd = sv_i_sfd s then sv_add_callback s
        else let s1 = (if events AND EPOLLIN \<noteq> 0 then sv_read_callback fd s else s)
             in if events AND EPOLLOUT \<noteq> 0 then sv_write_callback fd s1 else s1)"

definition sv_process_epoll_events :: "u64 \<Rightarrow> (u32 \<times> sfd) list \<Rightarrow> SocketServer \<Rightarrow> SocketServer" where
  "sv_process_epoll_events now evs s = fold (sv_process_event now) evs s"

text \<open>The work units of the three pools.\<close>

definition sv_accept :: "accept_ans list \<Rightarrow> SocketServer \<Rightarrow> SocketServer cpp" where
  "sv_accept as s = add_fd_to_epoll sv_events_update sv_events (sv_ep_sfd s) sv_add as s"

definition sv_close_read :: "u64 \<Rightarrow> sfd \<Rightarrow> SocketServer \<Rightarrow> SocketServer" where
  "sv_close_read now sfd s =
     sv_a_zombied now sfd
       (s\<lparr>sv_rrm := (sv_rrm s)(sfd := map_option (\<lambda>rr. rr\<lparr>rr_valid := False\<rparr>) (sv_rrm s sfd))\<rparr>)"

definition sv_read :: "handler \<Rightarrow> char \<Rightarrow> u64 \<Rightarrow> sfd \<Rightarrow> read_ans list \<Rightarrow> SocketServer \<Rightarrow> SocketServer cpp" where
  "sv_read handler junk now sfd as s =
     (case sv_rrm s sfd of
        None \<Rightarrow> Ret s
      | Some rr \<Rightarrow>
          if rr_valid rr then
            cpp_bind (read_from_sfd sv_events_update (sv_call_back handler junk sfd)
                (sv_close_read now sfd) (sv_ep_sfd s) sfd as (rr_br rr, s)) (\<lambda>(br, s').
              Ret (s'\<lparr>sv_rrm := (sv_rrm s')(sfd := map_option (\<lambda>rr. rr\<lparr>rr_br := br\<rparr>) (sv_rrm s' sfd))\<rparr>))
          else Ret s)"

definition sv_close_write :: "u64 \<Rightarrow> sfd \<Rightarrow> SocketServer \<Rightarrow> SocketServer" where
  "sv_close_write now sfd s =
     sv_a_zombied now sfd
       (s\<lparr>sv_wrm := (sv_wrm s)(sfd := map_option (\<lambda>wr. wr\<lparr>wr_valid := False\<rparr>) (sv_wrm s sfd))\<rparr>)"

definition sv_write :: "char \<Rightarrow> u64 \<Rightarrow> sfd \<Rightarrow> write_ans list \<Rightarrow> SocketServer \<Rightarrow> SocketServer cpp" where
  "sv_write junk now sfd as s =
     (case sv_wrm s sfd of
        None \<Rightarrow> Ret s
      | Some wr \<Rightarrow>
          if wr_valid wr then
            cpp_bind (write_to_sfd sv_events_update (sv_close_write now sfd) junk (sv_ep_sfd s) sfd as
                (wr_bw wr, s)) (\<lambda>(bw, s').
              Ret (s'\<lparr>sv_wrm := (sv_wrm s')(sfd := map_option (\<lambda>wr. wr\<lparr>wr_bw := bw\<rparr>) (sv_wrm s' sfd))\<rparr>))
          else Ret s)"

text \<open>The sections of \<^verbatim>\<open>close_n_clean\<close>, in order: the system call, \<^verbatim>\<open>r_mutex\<close>, \<^verbatim>\<open>w_mutex\<close> and \<^verbatim>\<open>e_mutex\<close>.\<close>

datatype sv_clean_pc = Close_sfd | Clean_read | Clean_write | Clean_events

fun sv_clean_section :: "sfd \<Rightarrow> sv_clean_pc \<Rightarrow> SocketServer \<Rightarrow> SocketServer" where
  "sv_clean_section sfd Close_sfd s = s\<lparr>sv_events := log_call (Close sfd) (sv_events s)\<rparr>"
| "sv_clean_section sfd Clean_read s = s\<lparr>sv_rrm := map_erase sfd (sv_rrm s)\<rparr>"
| "sv_clean_section sfd Clean_write s = s\<lparr>sv_wrm := map_erase sfd (sv_wrm s)\<rparr>"
| "sv_clean_section sfd Clean_events s =
     s\<lparr>sv_events := (sv_events s)\<lparr>sfd_events := map_erase sfd (sfd_events (sv_events s))\<rparr>\<rparr>"

definition sv_clean_sections :: "sv_clean_pc list" where
  "sv_clean_sections = [Close_sfd, Clean_read, Clean_write, Clean_events]"

definition sv_close_n_clean :: "sfd \<Rightarrow> SocketServer \<Rightarrow> SocketServer" where
  "sv_close_n_clean sfd s = fold (sv_clean_section sfd) sv_clean_sections s"

text \<open>
  One pass of \<^verbatim>\<open>reap_resources\<close>. \<open>order\<close> is the order in which the iterator visits the map, \<open>now sfd\<close>
  the clock when it visits \<open>sfd\<close>.
\<close>

definition sv_reap_one :: "(sfd \<Rightarrow> u64) \<Rightarrow> sfd \<Rightarrow> SocketServer \<times> sfd list \<Rightarrow> SocketServer \<times> sfd list" where
  "sv_reap_one now sfd sz =
     (case sz of (s, zv) \<Rightarrow>
        case sv_zm s sfd of
          None \<Rightarrow> (s, zv)
        | Some death \<Rightarrow>
            if expired (now sfd) death then (sv_close_n_clean sfd s, zv @ [sfd]) else (s, zv))"

definition sv_reap :: "(sfd \<Rightarrow> u64) \<Rightarrow> sfd list \<Rightarrow> SocketServer \<Rightarrow> SocketServer" where
  "sv_reap now order s =
     (case fold (sv_reap_one now) order (s, []) of
        (s', zv) \<Rightarrow> s'\<lparr>sv_zm := fold map_erase zv (sv_zm s')\<rparr>)"

subsection \<open>Steps\<close>

text \<open>
  Where a thread is that can be interrupted. One of the accept pool: about to call \<^verbatim>\<open>accept\<close>, or, with a
  connection that was added to epoll, before one of the three critical sections of \<^verbatim>\<open>add\<close>. The
  reaper: before it looks at the next of the zombies it has left, with those it took, or with
  sections of \<^verbatim>\<open>close_n_clean\<close> left for one of them.
\<close>

datatype sv_thread = Accepting | Adding_r sfd | Adding_w sfd | Adding_e sfd
  | Looking "sfd list" "sfd list"
  | Cleaning "sv_clean_pc list" sfd "sfd list" "sfd list"

type_synonym sv_state = "SocketServer \<times> sv_thread list"

text \<open>One pass of the loop of \<^verbatim>\<open>add_fd_to_epoll\<close> up to the callback.\<close>

definition sv_accept_one :: "conn_ans \<Rightarrow> SocketServer \<Rightarrow> (SocketServer \<times> sv_thread) cpp" where
  "sv_accept_one c s =
     (if get_name_result c = 0 then
        cpp_bind (unblock_socket (getfl_result c) (setfl_result c) (cin_fd c) (sv_events s)) (\<lambda>st.
          let s1 = s\<lparr>sv_events := log_call (Epoll_add (sv_ep_sfd s) (cin_fd c) EPOLLIN) st\<rparr>;
              add_result = (word_of_int (ctl_result c) :: u32)
          in Ret (s1, if add_result < 0 then Accepting else Adding_r (cin_fd c)))
      else Ret (s, Accepting))"

definition sv_look :: "u64 \<Rightarrow> sfd \<Rightarrow> sfd list \<Rightarrow> sfd list \<Rightarrow> SocketServer \<Rightarrow> sv_thread" where
  "sv_look now sfd order zv s =
     (case sv_zm s sfd of
        None \<Rightarrow> Looking order zv
      | Some death \<Rightarrow> if expired now death then Cleaning sv_clean_sections sfd order zv else Looking order zv)"

text \<open>
  The reaper holds \<^verbatim>\<open>z_mutex\<close> during its pass, so a unit of work that marks a descriptor, and may have
  made its resources invalid, cannot end meanwhile.
\<close>

fun sv_reaping :: "sv_thread \<Rightarrow> bool" where
  "sv_reaping (Looking order zv) = True"
| "sv_reaping (Cleaning ks sfd order zv) = True"
| "sv_reaping w = False"

definition sv_z_held :: "sv_thread list \<Rightarrow> bool" where
  "sv_z_held ws \<longleftrightarrow> list_ex sv_reaping ws"

lemma sv_z_held_simps [simp]:
  "\<not> sv_z_held []" "sv_z_held (w # ws) \<longleftrightarrow> sv_reaping w \<or> sv_z_held ws" "sv_z_held (vs @ ws) \<longleftrightarrow> sv_z_held vs \<or> sv_z_held ws"
  by (simp_all add: sv_z_held_def)

definition sv_no_mark :: "SocketServer \<Rightarrow> SocketServer \<Rightarrow> bool" where
  "sv_no_mark s s' \<longleftrightarrow> sv_zm s' = sv_zm s
     \<and> (\<forall>fd rr. sv_rrm s' fd = Some rr \<longrightarrow> \<not> rr_valid rr \<longrightarrow> (\<exists>rr0. sv_rrm s fd = Some rr0 \<and> \<not> rr_valid rr0))
     \<and> (\<forall>fd wr. sv_wrm s' fd = Some wr \<longrightarrow> \<not> wr_valid wr \<longrightarrow> (\<exists>wr0. sv_wrm s fd = Some wr0 \<and> \<not> wr_valid wr0))"

text \<open>A pool has several threads, so a unit of work may finish before an earlier one.\<close>

datatype sv_label =
    L_events "(u32 \<times> sfd) list"
  | L_accept
  | L_conn conn_ans
  | L_add sfd
  | L_accepted int
  | L_read sfd "read_ans list"
  | L_write sfd "write_ans list"
  | L_send bytes bytes sfd
  | L_reap "sfd list"
  | L_look sfd
  | L_clean sfd
  | L_took sfd
  | L_reaped

inductive sv_step :: "handler \<Rightarrow> char \<Rightarrow> sv_state \<Rightarrow> sv_label \<Rightarrow> sv_state \<Rightarrow> bool"
  for handler junk where
  sv_events_step: "s' = sv_process_epoll_events now evs s \<Longrightarrow> sv_z_held ws \<longrightarrow> sv_no_mark s s' \<Longrightarrow>
    sv_step handler junk (s, ws) (L_events evs) (s', ws)"
| sv_accept_step: "sv_a_tp s = before @ Add_f # after \<Longrightarrow>
    sv_step handler junk (s, ws) L_accept (s\<lparr>sv_a_tp := before @ after\<rparr>, Accepting # ws)"
| sv_conn_step: "sv_accept_one c s = Ret (s', w) \<Longrightarrow>
    sv_step handler junk (s, ws1 @ Accepting # ws2) (L_conn c) (s', ws1 @ w # ws2)"
| sv_add_r_step: "sv_step handler junk (s, ws1 @ Adding_r fd # ws2) (L_add fd) (sv_add_r fd s, ws1 @ Adding_w fd # ws2)"
| sv_add_w_step: "sv_step handler junk (s, ws1 @ Adding_w fd # ws2) (L_add fd) (sv_add_w fd s, ws1 @ Adding_e fd # ws2)"
| sv_add_e_step: "sv_step handler junk (s, ws1 @ Adding_e fd # ws2) (L_add fd) (sv_add_e fd s, ws1 @ Accepting # ws2)"
| sv_accepted_step: "sv_step handler junk (s, ws1 @ Accepting # ws2) (L_accepted errno) (s, ws1 @ ws2)"
| sv_read_step: "sv_r_tp s = before @ Read_f sfd # after \<Longrightarrow>
    sv_read handler junk now sfd as (s\<lparr>sv_r_tp := before @ after\<rparr>) = Ret s' \<Longrightarrow> sv_z_held ws \<longrightarrow> sv_no_mark s s' \<Longrightarrow>
    sv_step handler junk (s, ws) (L_read sfd as) (s', ws)"
| sv_write_step: "sv_w_tp s = before @ Write_f sfd # after \<Longrightarrow>
    sv_write junk now sfd as (s\<lparr>sv_w_tp := before @ after\<rparr>) = Ret s' \<Longrightarrow> sv_z_held ws \<longrightarrow> sv_no_mark s s' \<Longrightarrow>
    sv_step handler junk (s, ws) (L_write sfd as) (s', ws)"
| sv_send_step: "sv_send_msg junk u m sfd s = Ret s' \<Longrightarrow>
    sv_step handler junk (s, ws) (L_send u m sfd) (s', ws)"
| sv_reap_step: "\<not> sv_z_held ws \<Longrightarrow> distinct order \<Longrightarrow> set order = dom (sv_zm s) \<Longrightarrow>
    sv_step handler junk (s, ws) (L_reap order) (s, Looking order [] # ws)"
| sv_look_step: "sv_step handler junk (s, ws1 @ Looking (sfd # order) zv # ws2) (L_look sfd)
    (s, ws1 @ sv_look now sfd order zv s # ws2)"
| sv_clean_step: "sv_step handler junk (s, ws1 @ Cleaning (k # ks) sfd order zv # ws2) (L_clean sfd)
    (sv_clean_section sfd k s, ws1 @ Cleaning ks sfd order zv # ws2)"
| sv_took_step: "sv_step handler junk (s, ws1 @ Cleaning [] sfd order zv # ws2) (L_took sfd)
    (s, ws1 @ Looking order (zv @ [sfd]) # ws2)"
| sv_reaped_step: "sv_step handler junk (s, ws1 @ Looking [] zv # ws2) L_reaped
    (s\<lparr>sv_zm := fold map_erase zv (sv_zm s)\<rparr>, ws1 @ ws2)"

definition sv_init :: "sv_state \<Rightarrow> bool" where
  "sv_init x \<longleftrightarrow> snd x = [] \<and> (\<exists>port a. sv_new port a = Ret (fst x))"

text \<open>The descriptors that were added to epoll and whose \<^verbatim>\<open>add\<close> has not ended.\<close>

fun adder_sfd :: "sv_thread \<Rightarrow> sfd list" where
  "adder_sfd (Adding_r fd) = [fd]"
| "adder_sfd (Adding_w fd) = [fd]"
| "adder_sfd (Adding_e fd) = [fd]"
| "adder_sfd w = []"

definition adding :: "sv_thread list \<Rightarrow> sfd set" where
  "adding ws = set (concat (map adder_sfd ws))"

lemma adding_simps [simp]:
  "adding [] = {}" "adding (w # ws) = set (adder_sfd w) \<union> adding ws" "adding (vs @ ws) = adding vs \<union> adding ws"
  by (simp_all add: adding_def)

subsection \<open>The invariant\<close>

definition sv_inv :: "sfd set \<Rightarrow> SocketServer \<Rightarrow> bool" where
  "sv_inv A s \<longleftrightarrow>
     (\<forall>sfd rr. sv_rrm s sfd = Some rr \<longrightarrow> reader_ok EOT (rr_br rr)) \<and>
     (\<forall>sfd rr. sv_rrm s sfd = Some rr \<longrightarrow> \<not> rr_valid rr \<longrightarrow> sv_zm s sfd \<noteq> None) \<and>
     (\<forall>sfd wr. sv_wrm s sfd = Some wr \<longrightarrow> \<not> wr_valid wr \<longrightarrow> sv_zm s sfd \<noteq> None) \<and>
     masks_ok (sv_events s) \<and> told_ok (sv_ep_sfd s) A (sv_events s)"

text \<open>
  The resources a running reaper has erased, readers on the left and writers on the right: the marks
  of their descriptors are erased at the end of the pass, and until then none of them that came
  back is invalid.
\<close>

fun sv_taken :: "sv_thread \<Rightarrow> (sfd + sfd) list" where
  "sv_taken (Looking order zv) = map Inl zv @ map Inr zv"
| "sv_taken (Cleaning ks sfd order zv) = map Inl zv @ map Inr zv @
     (if Clean_read \<in> set ks then [] else [Inl sfd]) @ (if Clean_write \<in> set ks then [] else [Inr sfd])"
| "sv_taken w = []"

definition sv_reaped :: "sv_thread list \<Rightarrow> (sfd + sfd) set" where
  "sv_reaped ws = set (concat (map sv_taken ws))"

definition sv_live :: "(sfd + sfd) set \<Rightarrow> SocketServer \<Rightarrow> bool" where
  "sv_live Z s \<longleftrightarrow> (\<forall>f rr. Inl f \<in> Z \<longrightarrow> sv_rrm s f = Some rr \<longrightarrow> rr_valid rr)
     \<and> (\<forall>f wr. Inr f \<in> Z \<longrightarrow> sv_wrm s f = Some wr \<longrightarrow> wr_valid wr)"

definition sv_state_inv :: "sv_state \<Rightarrow> bool" where
  "sv_state_inv x \<longleftrightarrow> sv_inv (adding (snd x)) (fst x) \<and> sv_live (sv_reaped (snd x)) (fst x)"

lemma sv_reaped_simps [simp]:
  "sv_reaped [] = {}" "sv_reaped (w # ws) = set (sv_taken w) \<union> sv_reaped ws" "sv_reaped (vs @ ws) = sv_reaped vs \<union> sv_reaped ws"
  by (simp_all add: sv_reaped_def)

lemma sv_live_simps [simp]:
  "sv_live {} s" "sv_live (insert (Inl f) A) s \<longleftrightarrow> (\<forall>rr. sv_rrm s f = Some rr \<longrightarrow> rr_valid rr) \<and> sv_live A s"
  "sv_live (insert (Inr f) A) s \<longleftrightarrow> (\<forall>wr. sv_wrm s f = Some wr \<longrightarrow> wr_valid wr) \<and> sv_live A s"
  "sv_live (Inl ` F) s \<longleftrightarrow> (\<forall>f \<in> F. \<forall>rr. sv_rrm s f = Some rr \<longrightarrow> rr_valid rr)"
  "sv_live (Inr ` F) s \<longleftrightarrow> (\<forall>f \<in> F. \<forall>wr. sv_wrm s f = Some wr \<longrightarrow> wr_valid wr)"
  "sv_live (A \<union> B) s \<longleftrightarrow> sv_live A s \<and> sv_live B s"
  "sv_live Z (sv_events_update f1 s) = sv_live Z s" "sv_live Z (sv_a_tp_update f2 s) = sv_live Z s"
  "sv_live Z (sv_zm_update f3 s) = sv_live Z s"
  by (auto simp: sv_live_def)

interpretation sve: epoll_owner sv_events sv_events_update
  by unfold_locales simp

lemma sv_add_eq:
  "sv_add nsfd s =
     s\<lparr>sv_rrm := map_emplace nsfd \<lparr>rr_br = br_new EOT, rr_valid = True\<rparr> (sv_rrm s),
       sv_wrm := map_emplace nsfd \<lparr>wr_bw = bw_new, wr_valid = True\<rparr> (sv_wrm s),
       sv_events := (sv_events s)\<lparr>sfd_events := (sfd_events (sv_events s))(nsfd \<mapsto> EPOLLIN)\<rparr>\<rparr>"
  by (simp add: sv_add_def sv_add_r_def sv_add_w_def sv_add_e_def set_mask_def)

lemmas sv_defs = sv_add_r_def sv_add_w_def sv_add_e_def sv_a_zombied_def sv_read_callback_def sv_write_callback_def
  sv_add_callback_def sv_close_read_def sv_close_write_def

lemma sv_inv_add_r: "sv_inv A s \<Longrightarrow> sv_inv A (sv_add_r fd s)"
  by (auto simp: sv_inv_def sv_add_r_def map_emplace_def split: if_splits)

lemma sv_inv_add_w: "sv_inv A s \<Longrightarrow> sv_inv A (sv_add_w fd s)"
  by (auto simp: sv_inv_def sv_add_w_def map_emplace_def split: if_splits)

lemma sv_inv_add_e: "sv_inv A s \<Longrightarrow> A \<subseteq> insert fd A' \<Longrightarrow> sv_inv A' (sv_add_e fd s)"
  by (auto simp: sv_inv_def sv_add_e_def intro: masks_ok_intros told_ok_intros)

lemma sv_inv_accept_one:
  assumes "sv_inv A s" and "sv_accept_one c s = Ret (s', w)"
  shows "sv_inv (set (adder_sfd w) \<union> A) s'"
proof (cases "get_name_result c = 0")
  case True
  then obtain fl where "s' = s\<lparr>sv_events := log_call (Epoll_add (sv_ep_sfd s) (cin_fd c) EPOLLIN)
      (log_call (Fcntl_setfl (cin_fd c) fl) (sv_events s))\<rparr>" "w = Adding_r (cin_fd c)"
    using assms(2) by (auto simp: sv_accept_one_def cpp_bind_Ret_iff Let_def dest!: unblock_socket_Ret)
  moreover have "told_ok (sv_ep_sfd s) A (sv_events s)" using assms(1) by (simp add: sv_inv_def)
  ultimately show ?thesis using assms(1) by (simp add: sv_inv_def told_ok_intros)
qed (use assms in \<open>auto simp: sv_accept_one_def\<close>)

lemma sv_send_msg_frame:
  assumes "sv_send_msg junk u m f s = Ret s'"
  shows "sv_rrm s' = sv_rrm s \<and> dom (sv_wrm s') = dom (sv_wrm s) \<and> sv_zm s' = sv_zm s
    \<and> sv_delivered s' = sv_delivered s \<and> sv_ep_sfd s' = sv_ep_sfd s
    \<and> (\<forall>fd wr'. sv_wrm s' fd = Some wr' \<longrightarrow> (\<exists>wr. sv_wrm s fd = Some wr \<and> wr_valid wr' = wr_valid wr))
    \<and> (sv_events s' = sv_events s \<or> sv_events s' = arm EPOLLOUT (sv_ep_sfd s) f (sv_events s))"
proof (cases "sv_wrm s f")
  case None
  with assms show ?thesis by (auto simp: sv_send_msg_def cpp_bind_Ret_iff)
next
  case (Some wr)
  then obtain bw where "s' = s\<lparr>sv_wrm := (sv_wrm s)(f \<mapsto> wr\<lparr>wr_bw := bw\<rparr>),
      sv_events := arm EPOLLOUT (sv_ep_sfd s) f (sv_events s)\<rparr>"
    using assms by (auto simp: sv_send_msg_def cpp_bind_Ret_iff)
  with Some show ?thesis by (auto split: if_splits)
qed

lemma sv_inv_send:
  assumes "sv_inv A s" and "sv_send_msg junk u m f s = Ret s'"
  shows "sv_inv A s'"
proof -
  have "masks_ok (sv_events s')" "told_ok (sv_ep_sfd s') A (sv_events s')"
    using sv_send_msg_frame [OF assms(2)] assms(1)
    by (auto simp: sv_inv_def intro: masks_ok_intros told_ok_intros)
  with sv_send_msg_frame [OF assms(2)] assms(1) show ?thesis unfolding sv_inv_def by metis
qed

lemma sv_inv_delivered [simp]: "sv_inv A (s\<lparr>sv_delivered := d\<rparr>) = sv_inv A s"
  by (simp add: sv_inv_def)

lemma sv_inv_tp [simp]:
  "sv_inv A (s\<lparr>sv_a_tp := q\<rparr>) = sv_inv A s" "sv_inv A (s\<lparr>sv_r_tp := q\<rparr>) = sv_inv A s"
  "sv_inv A (s\<lparr>sv_w_tp := q\<rparr>) = sv_inv A s"
  by (simp_all add: sv_inv_def)

text \<open>The invariant together with the epoll descriptor, which no operation changes.\<close>

definition sv_inv_at :: "sfd set \<Rightarrow> sfd \<Rightarrow> SocketServer \<Rightarrow> bool" where
  "sv_inv_at A epf s \<longleftrightarrow> sv_inv A s \<and> sv_ep_sfd s = epf"

lemma sv_inv_call_back:
  assumes "sv_inv_at A epf s" and "sv_call_back handler junk fd f s = Ret s'"
  shows "sv_inv_at A epf s'"
proof -
  obtain u m where "for_each (handler (sv_delivered s) u m fd) (\<lambda>(u, m, f). sv_send_msg junk u m f)
      (s\<lparr>sv_delivered := sv_delivered s @ [(u, m, fd)]\<rparr>) = Ret s'"
    using assms(2) by (auto simp: sv_call_back_def cpp_bind_Ret_iff)
  then show ?thesis
    by (rule for_each_inv [where P = "sv_inv_at A epf"])
      (use assms(1) in \<open>auto simp: sv_inv_at_def intro: sv_inv_send dest: sv_send_msg_frame\<close>)
qed

lemma sv_inv_close_read: "sv_inv A s \<Longrightarrow> sv_inv A (sv_close_read now sfd s)"
  by (auto simp: sv_inv_def sv_defs)

lemma sv_inv_close_write: "sv_inv A s \<Longrightarrow> sv_inv A (sv_close_write now sfd s)"
  by (auto simp: sv_inv_def sv_defs)

lemma sv_inv_events: "sv_inv A s \<Longrightarrow> masks_ok (f (sv_events s)) \<Longrightarrow>
    told_ok (sv_ep_sfd s) A (f (sv_events s)) \<Longrightarrow> sv_inv A (sv_events_update f s)"
  by (simp add: sv_inv_def)

lemma sv_inv_arm:
  "sv_inv_at A epf s \<Longrightarrow> ev \<in> {EPOLLIN, EPOLLOUT} \<Longrightarrow> sv_inv_at A epf (sv_events_update (arm ev epf sfd) s)"
  "sv_inv_at A epf s \<Longrightarrow> ev \<in> {EPOLLIN, EPOLLOUT} \<Longrightarrow> sv_inv_at A epf (sv_events_update (toggle ev epf sfd) s)"
  by (auto simp: sv_inv_at_def sv_inv_def intro: masks_ok_intros told_ok_intros)

lemma sv_inv_store:
  "sv_inv A s \<Longrightarrow> reader_ok EOT br \<Longrightarrow>
     sv_inv A (s\<lparr>sv_rrm := (sv_rrm s)(sfd := map_option (\<lambda>rr. rr\<lparr>rr_br := br\<rparr>) (sv_rrm s sfd))\<rparr>)"
  "sv_inv A s \<Longrightarrow>
     sv_inv A (s\<lparr>sv_wrm := (sv_wrm s)(sfd := map_option (\<lambda>wr. wr\<lparr>wr_bw := bw\<rparr>) (sv_wrm s sfd))\<rparr>)"
  by (auto simp: sv_inv_def split: if_splits)

lemma sv_inv_read:
  assumes "sv_inv A s" and "sv_read handler junk now sfd as s = Ret s'"
  shows "sv_inv A s'"
proof (cases "\<exists>rr. sv_rrm s sfd = Some rr \<and> rr_valid rr")
  case True
  then obtain rr br s1 where rr: "sv_rrm s sfd = Some rr"
    and rd: "read_from_sfd sv_events_update (sv_call_back handler junk sfd) (sv_close_read now sfd)
      (sv_ep_sfd s) sfd as (rr_br rr, s) = Ret (br, s1)"
    and s': "s' = s1\<lparr>sv_rrm := (sv_rrm s1)(sfd := map_option (\<lambda>rr. rr\<lparr>rr_br := br\<rparr>) (sv_rrm s1 sfd))\<rparr>"
    using assms(2) by (auto simp: sv_read_def cpp_bind_Ret_iff)
  have "reader_ok EOT (rr_br rr)" using assms(1) rr by (auto simp: sv_inv_def)
  moreover have "sv_inv_at A (sv_ep_sfd s) s" using assms(1) by (simp add: sv_inv_at_def)
  ultimately obtain t where "reader_ok EOT br" "sv_inv_at A (sv_ep_sfd s) t"
    "s1 = sv_events_update (arm EPOLLIN (sv_ep_sfd s) sfd) t \<or> s1 = sv_close_read now sfd t"
    using read_from_sfd_inv [OF rd, of EOT "sv_inv_at A (sv_ep_sfd s)"] sv_inv_call_back by blast
  then have "sv_inv A s1" "reader_ok EOT br"
    using sv_inv_arm(1) [of A "sv_ep_sfd s" t EPOLLIN sfd] by (auto simp: sv_inv_at_def intro: sv_inv_close_read)
  then show ?thesis unfolding s' by (rule sv_inv_store)
qed (use assms in \<open>auto simp: sv_read_def split: option.splits\<close>)

lemma sv_inv_write:
  assumes "sv_inv A s" and "sv_write junk now sfd as s = Ret s'"
  shows "sv_inv A s'"
proof (cases "\<exists>wr. sv_wrm s sfd = Some wr \<and> wr_valid wr")
  case True
  then obtain wr where wr: "sv_wrm s sfd = Some wr" "wr_valid wr" by blast
  then obtain bw s1 where
    wt: "write_to_sfd sv_events_update (sv_close_write now sfd) junk (sv_ep_sfd s) sfd as (wr_bw wr, s) =
      Ret (bw, s1)"
    and s': "s' = s1\<lparr>sv_wrm := (sv_wrm s1)(sfd := map_option (\<lambda>wr. wr\<lparr>wr_bw := bw\<rparr>) (sv_wrm s1 sfd))\<rparr>"
    using assms(2) by (auto simp: sv_write_def cpp_bind_Ret_iff wr)
  have "sv_inv_at A (sv_ep_sfd s) s1"
  proof (rule write_to_sfd_inv [OF wt, of "sv_inv_at A (sv_ep_sfd s)"])
    show "sv_inv_at A (sv_ep_sfd s) (sv_events_update (log_call (Sent sfd bs)) t)"
      if "sv_inv_at A (sv_ep_sfd s) t" for t bs
      using that by (auto simp: sv_inv_at_def sv_inv_def intro: told_ok_intros)
    show "sv_inv_at A (sv_ep_sfd s) (sv_close_write now sfd t)" if "sv_inv_at A (sv_ep_sfd s) t" for t
      using that sv_inv_close_write [of A t now sfd]
      by (simp add: sv_inv_at_def sv_close_write_def sv_a_zombied_def)
  qed (use assms(1) in \<open>auto simp: sv_inv_at_def [of A _ s] intro: sv_inv_arm\<close>)
  then show ?thesis unfolding s' by (simp add: sv_inv_at_def sv_inv_store)
qed (use assms in \<open>auto simp: sv_write_def split: option.splits\<close>)

lemma sv_inv_process_event: "sv_inv A s \<Longrightarrow> sv_inv A (sv_process_event now ev s)"
proof -
  assume inv: "sv_inv A s"
  have rd: "sv_inv A (sv_read_callback fd t)" and wr: "sv_inv A (sv_write_callback fd t)" if "sv_inv A t" for fd t
    using that sv_inv_arm(2) [of A "sv_ep_sfd t" t EPOLLIN fd] sv_inv_arm(2) [of A "sv_ep_sfd t" t EPOLLOUT fd]
    by (simp_all add: sv_defs sv_inv_at_def sv_inv_def)
  have "sv_inv A ((sv_a_zombied now fd s)\<lparr>sv_events := log_call (Close fd) (sv_events s)\<rparr>)" for fd
    using inv by (simp add: sv_inv_def sv_a_zombied_def told_ok_log)
  moreover have "sv_inv A (sv_add_callback s)" using inv by (simp add: sv_add_callback_def)
  ultimately show ?thesis
    using inv rd wr
    by (auto simp: sv_process_event_def Let_def split: prod.splits)
qed

lemma sv_inv_process_events: "sv_inv A s \<Longrightarrow> sv_inv A (sv_process_epoll_events now evs s)"
  unfolding sv_process_epoll_events_def by (induction evs arbitrary: s) (auto intro: sv_inv_process_event)

lemma sv_close_n_clean_eq:
  "sv_close_n_clean sfd s =
     s\<lparr>sv_rrm := map_erase sfd (sv_rrm s), sv_wrm := map_erase sfd (sv_wrm s),
       sv_events := log_call (Close sfd)
         ((sv_events s)\<lparr>sfd_events := map_erase sfd (sfd_events (sv_events s))\<rparr>)\<rparr>"
  by (simp add: sv_close_n_clean_def sv_clean_sections_def log_call_def)

lemma sv_inv_clean: "sv_inv A s \<Longrightarrow> sv_inv A (sv_clean_section sfd k s)"
  by (cases k) (auto simp: sv_inv_def intro!: masks_ok_intros told_ok_intros split: if_splits)

lemma sv_inv_reaped: "sv_inv A s \<Longrightarrow> sv_live (Inl ` set zv \<union> Inr ` set zv) s \<Longrightarrow> sv_inv A (s\<lparr>sv_zm := fold map_erase zv (sv_zm s)\<rparr>)"
  by (auto simp: sv_inv_def fold_map_erase)

lemma sv_live_unit:
  assumes "sv_live (sv_reaped ws) s" and "sv_z_held ws \<longrightarrow> sv_no_mark s s'"
  shows "sv_live (sv_reaped ws) s'"
proof (cases "sv_z_held ws")
  case True
  with assms show ?thesis unfolding sv_live_def sv_no_mark_def by blast
next
  case False
  have "\<not> sv_reaping w \<Longrightarrow> sv_taken w = []" for w by (cases w) auto
  with False have "sv_reaped ws = {}" by (induction ws) (auto simp: sv_z_held_def)
  then show ?thesis by simp
qed

lemma sv_live_add:
  "sv_live Z s \<Longrightarrow> sv_live Z (sv_add_r fd s)" "sv_live Z s \<Longrightarrow> sv_live Z (sv_add_w fd s)"
  "sv_live Z (sv_add_e fd s) = sv_live Z s"
  by (auto simp: sv_live_def sv_add_r_def sv_add_w_def sv_add_e_def map_emplace_def split: if_splits)

lemma sv_live_send: "sv_send_msg junk u m f s = Ret s' \<Longrightarrow> sv_live Z s \<Longrightarrow> sv_live Z s'"
  using sv_send_msg_frame [of junk u m f s s'] unfolding sv_live_def by metis

lemma sv_live_clean: "sv_live Z s \<Longrightarrow> sv_live Z (sv_clean_section sfd k s)"
  by (cases k) (auto simp: sv_live_def split: if_splits)

lemma sv_live_cleaned:
  assumes "sv_live (set (sv_taken (Cleaning (k # ks) sfd order zv))) s"
  shows "sv_live (set (sv_taken (Cleaning ks sfd order zv))) (sv_clean_section sfd k s)"
  using sv_live_clean [OF assms, of sfd k] by (cases k) (auto split: if_splits)

lemma sv_look_threads [simp]:
  "set (sv_taken (sv_look now sfd order zv s)) = Inl ` set zv \<union> Inr ` set zv" "adder_sfd (sv_look now sfd order zv s) = []"
  by (auto simp: sv_look_def sv_clean_sections_def split: option.splits)

lemma sv_inv_step: "sv_step handler junk x l y \<Longrightarrow> sv_state_inv x \<Longrightarrow> sv_state_inv y"
proof (induction rule: sv_step.induct)
  case (sv_conn_step c s s' w ws1 ws2)
  then have "sv_rrm s' = sv_rrm s" "sv_wrm s' = sv_wrm s" "sv_taken w = []"
    by (cases "get_name_result c = 0"; auto simp: sv_accept_one_def cpp_bind_Ret_iff Let_def split: if_splits)+
  moreover from this have "sv_live Z s' = sv_live Z s" for Z by (simp add: sv_live_def)
  ultimately show ?case using sv_conn_step sv_inv_accept_one [of "adding (ws1 @ ws2)", OF _ sv_conn_step(1)]
    by (auto simp: sv_state_inv_def Un_left_commute)
next
  case (sv_clean_step s ws1 k ks sfd order zv ws2)
  then show ?case
    using sv_live_cleaned [of k ks sfd order zv s] sv_live_clean [of _ s sfd k] sv_inv_clean [of _ s sfd k]
    by (auto simp: sv_state_inv_def simp del: sv_taken.simps sv_clean_section.simps)
qed (auto simp: sv_state_inv_def sv_inv_reaped sv_live_add intro: sv_inv_add_r sv_inv_add_w sv_inv_add_e sv_inv_process_events
    sv_inv_send sv_live_send sv_live_unit sv_inv_read [rotated] sv_inv_write [rotated])

lemma sv_inv_new: "sv_new port a = Ret s \<Longrightarrow> sv_inv A s"
proof -
  have listen: "listen_socket l t = Ret t' \<Longrightarrow> t' = t" and bind: "bind_socket l t = Ret t' \<Longrightarrow> t' = t" for l t t'
    by (auto simp: listen_socket_def bind_socket_def split: if_splits)
  assume "sv_new port a = Ret s"
  then show ?thesis
    by (auto simp: sv_new_def create_socket_def create_and_config_epoll_def cpp_bind_Ret_iff Let_def
        sv_inv_def masks_ok_def told_ok_def dest!: listen bind unblock_socket_Ret split: if_splits)
qed

interpretation sv: step_inv "sv_step handler junk" sv_init sv_state_inv
proof unfold_locales
  show "sv_state_inv x" if "sv_init x" for x
    using that sv_inv_new by (auto simp: sv_init_def sv_state_inv_def)
qed (rule sv_inv_step)

text \<open>The steps of an accept thread that nothing comes in between are the routine of the source.\<close>

lemma add_run:
  "run (sv_step handler junk) (s, Adding_r fd # ws) (replicate 3 (L_add fd)) (sv_add fd s, Accepting # ws)"
  using sv_add_r_step [of handler junk s "[]" fd ws] sv_add_w_step [of handler junk "sv_add_r fd s" "[]" fd ws]
    sv_add_e_step [of handler junk "sv_add_w fd (sv_add_r fd s)" "[]" fd ws]
  by (auto simp: sv_add_def numeral_3_eq_3 intro!: run_cons run_nil)

lemma accept_loop_run:
  "add_fd_to_epoll sv_events_update sv_events (sv_ep_sfd s) sv_add as s = Ret s' \<Longrightarrow>
     \<exists>ls. run (sv_step handler junk) (s, Accepting # ws) ls (s', ws)"
proof (induction as arbitrary: s)
  case (Cons a as)
  show ?case
  proof (cases a)
    case (A_err e)
    with Cons.prems have "s' = s" by simp
    then show ?thesis using sv_accepted_step [of handler junk s "[]" ws e] by (auto intro: run_cons run_nil)
  next
    case (A_conn c)
    let ?go = "\<lambda>t w. sv_step handler junk (s, Accepting # ws) (L_conn c) (t, w # ws)"
    show ?thesis
    proof (cases "get_name_result c = 0")
      case False
      then have "?go s Accepting" using sv_conn_step [of c s s Accepting handler junk "[]" ws] by (simp add: sv_accept_one_def)
      with False Cons A_conn show ?thesis by (auto intro: run_cons)
    next
      case True
      let ?s = "\<lambda>st. s\<lparr>sv_events := log_call (Epoll_add (sv_ep_sfd s) (cin_fd c) EPOLLIN) st\<rparr>"
      obtain st where st: "unblock_socket (getfl_result c) (setfl_result c) (cin_fd c) (sv_events s) = Ret st"
        and rest: "add_fd_to_epoll sv_events_update sv_events (sv_ep_sfd s) sv_add as (sv_add (cin_fd c) (?s st)) = Ret s'"
        using Cons.prems(1) A_conn True by (auto simp: cpp_bind_Ret_iff Let_def)
      have "sv_ep_sfd (sv_add (cin_fd c) (?s st)) = sv_ep_sfd s" by (simp add: sv_add_eq)
      with Cons.IH [of "sv_add (cin_fd c) (?s st)"] rest obtain ls where
        ls: "run (sv_step handler junk) (sv_add (cin_fd c) (?s st), Accepting # ws) ls (s', ws)" by auto
      have "?go (?s st) (Adding_r (cin_fd c))"
        using st True sv_conn_step [of c s "?s st" "Adding_r (cin_fd c)" handler junk "[]" ws] by (simp add: sv_accept_one_def)
      from run_cons [OF this run_append [OF add_run ls]] show ?thesis by blast
    qed
  qed
qed simp

lemma sv_accept_run:
  assumes "sv_a_tp s = before @ Add_f # after" and "sv_accept as (s\<lparr>sv_a_tp := before @ after\<rparr>) = Ret s'"
  shows "\<exists>ls. run (sv_step handler junk) (s, ws) ls (s', ws)"
  using sv_accept_step [OF assms(1), of handler junk ws]
    accept_loop_run [OF assms(2) [unfolded sv_accept_def]] by (blast intro: run_cons)

text \<open>So is a pass of the reaper.\<close>

lemma sv_clean_run:
  "\<exists>ls. run (sv_step handler junk) (s, Cleaning ks sfd order zv # ws) ls
     (fold (sv_clean_section sfd) ks s, Looking order (zv @ [sfd]) # ws)"
proof (induction ks arbitrary: s)
  case Nil
  then show ?case using sv_took_step [of handler junk s "[]" sfd order zv ws] by (auto intro: run_cons run_nil)
next
  case (Cons k ks)
  have "sv_step handler junk (s, Cleaning (k # ks) sfd order zv # ws) (L_clean sfd)
      (sv_clean_section sfd k s, Cleaning ks sfd order zv # ws)"
    using sv_clean_step [of handler junk s "[]" k ks sfd order zv ws] by simp
  from run_ex_cons [of "sv_step handler junk", OF this Cons.IH] show ?case by simp
qed

lemma sv_look_run:
  "\<exists>ls. run (sv_step handler junk) (s, Looking order zv # ws) ls
     (case fold (sv_reap_one now) order (s, zv) of (s', zv') \<Rightarrow> (s', Looking [] zv' # ws))"
proof (induction order arbitrary: s zv)
  case Nil
  then show ?case by (auto intro: run_nil)
next
  case (Cons f fs)
  obtain s1 zv1 where one: "sv_reap_one now f (s, zv) = (s1, zv1)" by fastforce
  have step: "sv_step handler junk (s, Looking (f # fs) zv # ws) (L_look f) (s, sv_look (now f) f fs zv s # ws)"
    using sv_look_step [of handler junk s "[]" f fs zv ws "now f"] by simp
  have "\<exists>ls. run (sv_step handler junk) (s, sv_look (now f) f fs zv s # ws) ls (s1, Looking fs zv1 # ws)"
  proof (cases "\<exists>death. sv_zm s f = Some death \<and> expired (now f) death")
    case True
    with one have "s1 = fold (sv_clean_section f) sv_clean_sections s" "zv1 = zv @ [f]"
      by (auto simp: sv_reap_one_def sv_close_n_clean_def)
    with True sv_clean_run [of handler junk s sv_clean_sections f fs zv ws] show ?thesis by (auto simp: sv_look_def)
  next
    case False
    with one have "s1 = s" "zv1 = zv" by (auto simp: sv_reap_one_def split: option.splits)
    with False show ?thesis by (auto simp: sv_look_def intro: run_nil split: option.splits)
  qed
  then have "\<exists>ls. run (sv_step handler junk) (s, sv_look (now f) f fs zv s # ws) ls
      (case fold (sv_reap_one now) fs (s1, zv1) of (s', zv') \<Rightarrow> (s', Looking [] zv' # ws))"
    using Cons.IH by (rule run_ex_append)
  from run_ex_cons [of "sv_step handler junk", OF step this] one show ?case by simp
qed

lemma sv_reap_run:
  assumes "distinct order" and "set order = dom (sv_zm s)" and "\<not> sv_z_held ws"
  shows "\<exists>ls. run (sv_step handler junk) (s, ws) ls (sv_reap now order s, ws)"
proof -
  obtain t zv where fo: "fold (sv_reap_one now) order (s, []) = (t, zv)" by fastforce
  have "sv_step handler junk (t, Looking [] zv # ws) L_reaped (sv_reap now order s, ws)"
    using sv_reaped_step [of handler junk t "[]" zv ws] by (simp add: sv_reap_def fo)
  moreover obtain ls where "run (sv_step handler junk) (s, Looking order [] # ws) ls (t, Looking [] zv # ws)"
    using sv_look_run [of handler junk s order "[]" ws now] fo by auto
  ultimately have "\<exists>ls. run (sv_step handler junk) (s, Looking order [] # ws) ls (sv_reap now order s, ws)" by (blast intro: run_snoc)
  then show ?thesis by (rule run_ex_cons [of "sv_step handler junk", OF sv_reap_step [OF assms(3,1,2)]])
qed

subsection \<open>Delivery\<close>

text \<open>
  A message that \<^verbatim>\<open>send_msg\<close> can frame: its uuid has the 37 bytes that are copied and the size of
  its frame fits. \<open>sv_answers\<close> are the messages the handler sends for the frames \<open>fs\<close> of one
  connection, one after the other, after the history \<open>h\<close>.
\<close>

definition framable :: "message \<Rightarrow> bool" where
  "framable x \<longleftrightarrow> (case x of (u, m, f) \<Rightarrow> 37 \<le> length u \<and> length m + 38 < 2 ^ 32)"

fun sv_answers :: "handler \<Rightarrow> message list \<Rightarrow> sfd \<Rightarrow> bytes list \<Rightarrow> message list" where
  "sv_answers handler h fd [] = []"
| "sv_answers handler h fd (f # fs) =
     handler h (take 37 f) (drop 37 f) fd @ sv_answers handler (h @ [(take 37 f, drop 37 f, fd)]) fd fs"

definition sv_handle :: "handler \<Rightarrow> char \<Rightarrow> sfd \<Rightarrow> bytes \<times> bytes \<Rightarrow> SocketServer \<Rightarrow> SocketServer cpp" where
  "sv_handle handler junk nsfd um s =
     (case um of (u, m) \<Rightarrow> for_each (handler (sv_delivered s) u m nsfd) (\<lambda>(u, m, f). sv_send_msg junk u m f)
         (s\<lparr>sv_delivered := sv_delivered s @ [(u, m, nsfd)]\<rparr>))"

lemma sv_call_back_handle:
  "sv_call_back handler junk fd = (\<lambda>f s. cpp_bind (decode_frame (f @ [EOT])) (\<lambda>um. sv_handle handler junk fd um s))"
  by (intro ext arg_cong2 [of _ _ _ _ cpp_bind]) (auto simp: sv_call_back_def sv_handle_def)

lemma sv_send_msg_total:
  assumes "37 \<le> length u" and "length m + 38 < 2 ^ 32"
  shows "\<exists>s'. sv_send_msg junk u m f s = Ret s'"
proof (cases "sv_wrm s f")
  case (Some wr)
  have "bw_write (take 37 u @ m @ [EOT]) (wr_bw wr) =
      Ret (wr_bw wr\<lparr>bw_buffer := bw_buffer (wr_bw wr) @ take 37 u @ m @ [EOT]\<rparr>)"
    using assms by (intro bw_write_ok) simp
  with Some assms show ?thesis by (auto simp: sv_send_msg_def make_frame_ok)
qed (use assms in \<open>simp add: sv_send_msg_def make_frame_ok\<close>)

text \<open>What a handler call leaves as it was.\<close>

definition sv_same :: "SocketServer \<Rightarrow> SocketServer \<Rightarrow> bool" where
  "sv_same s t \<longleftrightarrow> sv_rrm t = sv_rrm s \<and> sv_zm t = sv_zm s \<and> sv_ep_sfd t = sv_ep_sfd s"

lemma sv_handle_checked:
  assumes "\<forall>(u', m', f') \<in> set (handler (sv_delivered s) u m fd). length m' < 2 ^ 32"
  shows "if \<forall>x \<in> set (handler (sv_delivered s) u m fd). framable x
    then \<exists>s'. sv_handle handler junk fd (u, m) s = Ret s' \<and> sv_same s s'
      \<and> sv_delivered s' = sv_delivered s @ [(u, m, fd)]
    else sv_handle handler junk fd (u, m) s = Undef"
proof -
  let ?d = "sv_delivered s @ [(u, m, fd)]"
  let ?P = "\<lambda>t. sv_same s t \<and> sv_delivered t = ?d"
  have "if framable x then \<exists>t'. (case x of (u, m, f) \<Rightarrow> sv_send_msg junk u m f) t = Ret t' \<and> ?P t'
      else (case x of (u, m, f) \<Rightarrow> sv_send_msg junk u m f) t = Undef"
    if x: "x \<in> set (handler (sv_delivered s) u m fd)" and t: "?P t" for x t
  proof -
    obtain u' m' f' where x': "x = (u', m', f')" by (metis prod_cases3)
    show ?thesis
    proof (cases "framable x")
      case True
      then obtain t' where "sv_send_msg junk u' m' f' t = Ret t'"
        using sv_send_msg_total [of u' m' junk f' t] x' by (auto simp: framable_def)
      with sv_send_msg_frame [OF this] t x' True show ?thesis by (auto simp: sv_same_def)
    next
      case False
      moreover have "length m' < 2 ^ 32" using assms x x' by auto
      ultimately have "make_frame junk (u', m') = Undef" using x' make_frame_undef [of u' m'] by (auto simp: framable_def)
      then show ?thesis using False x' by (simp add: sv_send_msg_def)
    qed
  qed
  then have "if \<forall>x \<in> set (handler (sv_delivered s) u m fd). framable x
      then \<exists>s'. for_each (handler (sv_delivered s) u m fd) (\<lambda>(u, m, f). sv_send_msg junk u m f)
        (s\<lparr>sv_delivered := ?d\<rparr>) = Ret s' \<and> ?P s'
      else for_each (handler (sv_delivered s) u m fd) (\<lambda>(u, m, f). sv_send_msg junk u m f)
        (s\<lparr>sv_delivered := ?d\<rparr>) = Undef"
    by (intro for_each_checked [where P = ?P]) (simp add: sv_same_def)
  then show ?thesis by (simp add: sv_handle_def)
qed

lemma sv_handle_all:
  assumes "\<forall>(u', m', f') \<in> set (sv_answers handler (sv_delivered s) fd fs). length m' < 2 ^ 32"
  shows "if \<forall>x \<in> set (sv_answers handler (sv_delivered s) fd fs). framable x
    then \<exists>s'. for_each (map frame_parts fs) (sv_handle handler junk fd) s = Ret s' \<and> sv_same s s'
      \<and> sv_delivered s' = sv_delivered s @ map (\<lambda>f. (take 37 f, drop 37 f, fd)) fs
    else for_each (map frame_parts fs) (sv_handle handler junk fd) s = Undef"
  using assms
proof (induction fs arbitrary: s)
  case (Cons f fs)
  let ?u = "take 37 f" and ?m = "drop 37 f"
  have fp: "frame_parts f = (?u, ?m)" by (simp add: frame_parts_def)
  have all: "\<forall>(u', m', f') \<in> set (handler (sv_delivered s) ?u ?m fd). length m' < 2 ^ 32" using Cons.prems by auto
  show ?case
  proof (cases "\<forall>x \<in> set (handler (sv_delivered s) ?u ?m fd). framable x")
    case True
    with sv_handle_checked [of handler s ?u ?m fd, OF all, of junk] obtain t where t: "sv_handle handler junk fd (?u, ?m) s = Ret t"
      "sv_same s t" "sv_delivered t = sv_delivered s @ [(?u, ?m, fd)]" by auto
    have eqs: "for_each (map frame_parts (f # fs)) (sv_handle handler junk fd) s =
        for_each (map frame_parts fs) (sv_handle handler junk fd) t"
      "(\<forall>x \<in> set (sv_answers handler (sv_delivered s) fd (f # fs)). framable x) \<longleftrightarrow>
        (\<forall>x \<in> set (sv_answers handler (sv_delivered t) fd fs). framable x)"
      using t True by (auto simp: fp)
    have "sv_same t s' \<longrightarrow> sv_same s s'" for s' using t(2) by (simp add: sv_same_def)
    with Cons.IH [of t] Cons.prems t(3) show ?thesis unfolding eqs by auto
  next
    case False
    with sv_handle_checked [of handler s ?u ?m fd, OF all, of junk] have "sv_handle handler junk fd (?u, ?m) s = Undef" by (simp only: if_False)
    with False show ?thesis by (auto simp: fp)
  qed
qed (simp add: sv_same_def)

lemma sv_call_back_all:
  assumes "\<forall>f \<in> set fs. length f < 2 ^ 32"
  shows "for_each fs (sv_call_back handler junk fd) s = for_each (map frame_parts fs) (sv_handle handler junk fd) s"
  using assms
proof (induction fs arbitrary: s)
  case (Cons f fs)
  then have "decode_frame (f @ [EOT]) = Ret (frame_parts f)" by (simp add: decode_frame_parts)
  with Cons show ?case
    by (cases "sv_handle handler junk fd (frame_parts f) s") (simp_all add: sv_call_back_handle)
qed simp

lemma sv_read_valid:
  "sv_rrm s sfd = Some rr \<Longrightarrow> rr_valid rr \<Longrightarrow> sv_read handler junk now sfd as s =
     cpp_bind (read_loop (sv_call_back handler junk sfd) (sv_close_read now sfd) as (rr_br rr, s))
       (\<lambda>((br, s1), b). let s2 = (if b then sv_events_update (arm EPOLLIN (sv_ep_sfd s) sfd) s1 else s1)
         in Ret (s2\<lparr>sv_rrm := (sv_rrm s2)(sfd := map_option (\<lambda>rr. rr\<lparr>rr_br := br\<rparr>) (sv_rrm s2 sfd))\<rparr>))"
  by (auto simp: sv_read_def read_from_sfd_def cpp_bind_assoc Let_def intro!: arg_cong2 [of _ _ _ _ cpp_bind])

subsection \<open>Properties: reading\<close>

text \<open>
  C8: what one run of \<^verbatim>\<open>SocketServer::read\<close> does with any bytes a peer sends, in any chunks, ended by
  any answer of the kernel, with any handler whose messages are below \<open>2 ^ 32\<close> bytes. If every message
  the handler sends in answer to the complete frames has a uuid of at least 37 bytes and a frame
  size that fits 32 bits, the run returns: every complete frame is handed to the handler once and in
  order, cut after its first 37 bytes, and the bytes after the last delimiter are kept. If the last
  answer was \<^verbatim>\<open>EAGAIN\<close> the connection stays valid, is not marked for the reaper and is armed for
  \<^verbatim>\<open>EPOLLIN\<close>. If the peer closed or any other error occurred the connection is invalid and
  marked for the reaper with the present time. If some message of the handler has a shorter uuid or
  is longer, memory out of bounds is accessed: a handler that answers with the uuid it was given, as
  that of \<^verbatim>\<open>sserver\<close>, is brought there by a peer that sends a frame of fewer than 37 bytes.
\<close>

theorem server_read_outcome:
  assumes "sv_rrm s sfd = Some rr" and "rr_valid rr" and "reader_ok EOT (rr_br rr)"
    and "\<forall>c \<in> set chunks. c \<noteq> []" and "length (br_buffer (rr_br rr)) + length (concat chunks) < 2 ^ 32"
    and "split_frames EOT (br_buffer (rr_br rr)) (concat chunks) = (fs, rest)"
    and "end_ans = R_bytes [] \<or> end_ans = R_err errno"
    and "\<forall>(u', m', f') \<in> set (sv_answers handler (sv_delivered s) sfd fs). length m' < 2 ^ 32"
  shows "if \<forall>(u', m', f') \<in> set (sv_answers handler (sv_delivered s) sfd fs).
        37 \<le> length u' \<and> length m' + 38 < 2 ^ 32
    then \<exists>s'. sv_read handler junk now sfd (map R_bytes chunks @ end_ans # as) s = Ret s'
      \<and> sv_delivered s' = sv_delivered s @ map (\<lambda>f. (take 37 f, drop 37 f, sfd)) fs
      \<and> sv_rrm s' = (sv_rrm s)(sfd \<mapsto> \<lparr>rr_br = \<lparr>br_buffer = rest, br_del = EOT\<rparr>,
                                    rr_valid = (end_ans = R_err EAGAIN)\<rparr>)
      \<and> (if end_ans = R_err EAGAIN then armed EPOLLIN (sv_events s') sfd \<and> sv_zm s' = sv_zm s
         else sv_zm s' = (sv_zm s)(sfd \<mapsto> now))
    else sv_read handler junk now sfd (map R_bytes chunks @ end_ans # as) s = Undef"
proof -
  let ?cb = "sv_call_back handler junk sfd"
  have del: "br_del (rr_br rr) = EOT" "EOT \<notin> set (br_buffer (rr_br rr))"
    using assms(3) by (auto simp: reader_ok_def)
  have "\<forall>f \<in> set fs. length f < 2 ^ 32"
    using split_frames_length [OF assms(6) del(2)] assms(5) by (meson le_less_trans)
  then have all: "for_each fs ?cb s = for_each (map frame_parts fs) (sv_handle handler junk sfd) s"
    by (rule sv_call_back_all)
  have br: "br_read ?cb (concat chunks) (rr_br rr, s) =
      cpp_bind (for_each fs ?cb s) (\<lambda>s'. Ret ((rr_br rr)\<lparr>br_buffer := rest\<rparr>, s'))"
    using del assms(6) by (simp add: br_read_frames)
  have r: "(rr_br rr)\<lparr>br_buffer := rest\<rparr> = \<lparr>br_buffer = rest, br_del = EOT\<rparr>"
    using del(1) by (cases "rr_br rr") simp
  show ?thesis
  proof (cases "\<forall>x \<in> set (sv_answers handler (sv_delivered s) sfd fs). framable x")
    case True
    then obtain s1 where s1: "for_each fs ?cb s = Ret s1" "sv_same s s1"
      "sv_delivered s1 = sv_delivered s @ map (\<lambda>f. (take 37 f, drop 37 f, sfd)) fs"
      using sv_handle_all [OF assms(8), of junk] all by auto
    have "sv_rrm s1 sfd = Some rr" using s1(2) assms(1) by (simp add: sv_same_def)
    with assms(1,2,4,7) s1 True show ?thesis
      by (cases "end_ans = R_err EAGAIN")
        (auto simp: framable_def sv_read_valid read_loop_chunks br r ReadR_updates sv_same_def sv_close_read_def sv_a_zombied_def)
  next
    case False
    then have "for_each fs ?cb s = Undef" using sv_handle_all [OF assms(8), of junk] all by (simp only: if_False)
    with False assms(1,2,4) show ?thesis by (auto simp: framable_def sv_read_valid read_loop_chunks br)
  qed
qed

text \<open>A server with one connection, on descriptor 7, with \<open>queued\<close> waiting to be sent.\<close>

definition demo_server :: "bytes \<Rightarrow> SocketServer" where
  "demo_server queued =
     \<lparr>sv_port = 8080, sv_sin_port = htons 8080, sv_i_sfd = 3, sv_ep_sfd = 4,
      sv_rrm = [7 \<mapsto> \<lparr>rr_br = br_new EOT, rr_valid = True\<rparr>],
      sv_wrm = [7 \<mapsto> \<lparr>wr_bw = \<lparr>bw_buffer = queued\<rparr>, wr_valid = True\<rparr>],
      sv_events = \<lparr>sfd_events = [7 \<mapsto> EPOLLIN], calls = [Epoll_add 4 7 EPOLLIN]\<rparr>, sv_zm = Map.empty,
      sv_a_tp = [], sv_r_tp = [], sv_w_tp = [], sv_delivered = []\<rparr>"

text \<open>A handler that answers every message with one of the same uuid.\<close>

definition replier :: "(bytes \<Rightarrow> bytes) \<Rightarrow> handler" where
  "replier rep h u m f = [(u, rep m, f)]"

text \<open>Two frames and the start of a third, all answered; and a frame of two bytes.\<close>

theorem server_read_outcome_witness:
  "(\<exists>s'. sv_read (replier rev) CHR 0x00 5 7
       (map R_bytes [replicate 37 CHR ''u'', ''ab'' @ [EOT] @ replicate 37 CHR ''v'', [EOT, CHR ''c'']] @ R_bytes [] # [])
       (demo_server []) = Ret s'
     \<and> sv_delivered s' = [(replicate 37 CHR ''u'', ''ab'', 7), (replicate 37 CHR ''v'', [], 7)]
     \<and> sv_rrm s' 7 = Some \<lparr>rr_br = \<lparr>br_buffer = ''c'', br_del = EOT\<rparr>, rr_valid = False\<rparr>
     \<and> sv_zm s' = [7 \<mapsto> 5])
   \<and> sv_read (replier rev) CHR 0x00 5 7 (map R_bytes [''ab'', [EOT]] @ R_bytes [] # []) (demo_server []) = Undef"
proof -
  let ?u = "replicate 37 CHR ''u''" and ?v = "replicate 37 CHR ''v''"
  let ?c1 = "[?u, ''ab'' @ [EOT] @ ?v, [EOT, CHR ''c'']]" and ?c2 = "[''ab'', [EOT]]"
  have "split_frames EOT [] (concat ?c1) = ([?u @ ''ab'', ?v], ''c'')" "split_frames EOT [] (concat ?c2) = ([''ab''], [])"
    using split_frames_stream [of "[?u @ ''ab'', ?v]" EOT "''c''"] split_frames_stream [of "[''ab'']" EOT "[]"]
    by (simp_all add: EOT_def)
  then show ?thesis
    using server_read_outcome [of "demo_server []" 7 "\<lparr>rr_br = br_new EOT, rr_valid = True\<rparr>" ?c1
        "[?u @ ''ab'', ?v]" "''c''" "R_bytes []" 0 "replier rev" "CHR 0x00" 5 "[]"]
      server_read_outcome [of "demo_server []" 7 "\<lparr>rr_br = br_new EOT, rr_valid = True\<rparr>" ?c2
        "[''ab'']" "[]" "R_bytes []" 0 "replier rev" "CHR 0x00" 5 "[]"]
    by (auto simp: demo_server_def br_new_def reader_ok_def replier_def EOT_def)
qed

subsection \<open>Properties: sending\<close>

lemma sv_send_msg_eq:
  assumes "37 \<le> length u" and "length m + 38 < 2 ^ 32"
  shows "sv_send_msg junk u m f s = Ret (case sv_wrm s f of None \<Rightarrow> s | Some wr \<Rightarrow>
      s\<lparr>sv_wrm := (sv_wrm s)(f \<mapsto>
           (if wr_valid wr then wr\<lparr>wr_bw := \<lparr>bw_buffer = bw_buffer (wr_bw wr) @ take 37 u @ m @ [EOT]\<rparr>\<rparr> else wr)),
        sv_events := arm EPOLLOUT (sv_ep_sfd s) f (sv_events s)\<rparr>)"
proof (cases "sv_wrm s f")
  case (Some wr)
  have "bw_write (take 37 u @ m @ [EOT]) (wr_bw wr) =
      Ret \<lparr>bw_buffer = bw_buffer (wr_bw wr) @ take 37 u @ m @ [EOT]\<rparr>"
    using assms by (cases "wr_bw wr") (simp add: bw_write_ok)
  with Some assms show ?thesis by (auto simp: sv_send_msg_def make_frame_ok)
qed (use assms in \<open>simp add: sv_send_msg_def make_frame_ok\<close>)

text \<open>
  C25: \<^verbatim>\<open>SocketServer::send_msg\<close> with a uuid of at least 37 bytes and a message whose frame size fits
  32 bits always returns. For an unknown descriptor nothing changes. For a valid connection one
  frame is appended to its writer, for an invalid one the writer is left alone; in both cases the
  descriptor waits for \<^verbatim>\<open>EPOLLOUT\<close> and no other connection is touched.
\<close>

theorem server_send_msg_result:
  assumes "37 \<le> length u" and "length m + 38 < 2 ^ 32"
  shows "sv_send_msg junk u m f s = Ret (case sv_wrm s f of None \<Rightarrow> s | Some wr \<Rightarrow>
      s\<lparr>sv_wrm := (sv_wrm s)(f \<mapsto>
           (if wr_valid wr then wr\<lparr>wr_bw := \<lparr>bw_buffer = bw_buffer (wr_bw wr) @ take 37 u @ m @ [EOT]\<rparr>\<rparr> else wr)),
        sv_events := arm EPOLLOUT (sv_ep_sfd s) f (sv_events s)\<rparr>)"
  using assms by (rule sv_send_msg_eq)

theorem server_send_msg_result_witness:
  "sv_send_msg CHR 0x00 (replicate 37 CHR ''u'') ''hi'' 9 (demo_server []) = Ret (demo_server [])"
  using server_send_msg_result [of "replicate 37 CHR ''u''" "''hi''" "CHR 0x00" 9 "demo_server []"]
  by (simp add: demo_server_def)

text \<open>
  C13: \<^verbatim>\<open>SocketServer::write\<close> conserves the bytes of a connection as long as the kernel takes every
  chunk as a whole: it returns, the bytes sent so far followed by the bytes still queued are what
  they were before, and when bytes are left the descriptor waits for \<^verbatim>\<open>EPOLLOUT\<close>, or the
  connection failed and is invalid and marked for the reaper with the present time.
\<close>

theorem server_write_conserves:
  assumes "sv_wrm s sfd = Some wr" and "wr_valid wr" and "full_writes (bw_size (wr_bw wr)) as"
  shows "\<exists>s' wr'. sv_write junk now sfd as s = Ret s' \<and> sv_wrm s' sfd = Some wr'
    \<and> sent_on sfd (calls (sv_events s')) @ bw_buffer (wr_bw wr') =
        sent_on sfd (calls (sv_events s)) @ bw_buffer (wr_bw wr)
    \<and> (bw_buffer (wr_bw wr') = [] \<or> armed EPOLLOUT (sv_events s') sfd
       \<or> \<not> wr_valid wr' \<and> sv_zm s' sfd = Some now)"
proof -
  let ?cl = "sv_close_write now sfd"
  let ?closed = "\<lambda>t. (\<forall>wr. sv_wrm t sfd = Some wr \<longrightarrow> \<not> wr_valid wr) \<and> sv_zm t sfd = Some now"
  have cl: "sv_events (?cl t) = sv_events t" "?closed (?cl t)" for t
    by (auto simp: sv_close_write_def sv_a_zombied_def)
  obtain bw s1 where
    wt: "write_to_sfd sv_events_update ?cl junk (sv_ep_sfd s) sfd as (wr_bw wr, s) = Ret (bw, s1)"
    and sent: "sent_on sfd (calls (sv_events s1)) @ bw_buffer bw =
        sent_on sfd (calls (sv_events s)) @ bw_buffer (wr_bw wr)"
    and fin: "bw_buffer bw = [] \<or> armed EPOLLOUT (sv_events s1) sfd \<or> ?closed s1"
    using sve.write_conserves [where closed = ?closed, OF cl assms(3)] by blast
  have "sv_wrm s1 sfd \<noteq> None"
    by (rule write_to_sfd_inv [OF wt, of "\<lambda>t. sv_wrm t sfd \<noteq> None"])
      (use assms(1) in \<open>auto simp: sv_close_write_def sv_a_zombied_def\<close>)
  then show ?thesis using assms(1,2) wt sent fin by (auto simp: sv_write_def)
qed

theorem server_write_conserves_witness:
  "\<exists>s' wr'. sv_write CHR 0x00 5 7 [W_ok 1024, W_err EAGAIN] (demo_server (replicate 1030 CHR ''x'')) = Ret s'
    \<and> sv_wrm s' 7 = Some wr'
    \<and> sent_on 7 (calls (sv_events s')) @ bw_buffer (wr_bw wr') = replicate 1030 CHR ''x''
    \<and> (bw_buffer (wr_bw wr') = [] \<or> armed EPOLLOUT (sv_events s') 7
       \<or> \<not> wr_valid wr' \<and> sv_zm s' 7 = Some 5)"
  using server_write_conserves [of "demo_server (replicate 1030 CHR ''x'')" 7
      "\<lparr>wr_bw = \<lparr>bw_buffer = replicate 1030 CHR ''x''\<rparr>, wr_valid = True\<rparr>"
      "[W_ok 1024, W_err EAGAIN]" "CHR 0x00" 5]
  by (simp add: demo_server_def bw_size_def)

text \<open>
  C37: when the kernel takes only \<open>r\<close> bytes of a chunk, \<^verbatim>\<open>write_to_sfd\<close> still clears the whole chunk.
  For a queue of at most 1024 bytes this means that exactly the first \<open>r\<close> bytes reach the peer and
  the rest is lost, with the queue empty and the connection valid.
\<close>

theorem server_short_write_loses_tail:
  assumes "sv_wrm s sfd = Some wr" and "wr_valid wr" and "bw_buffer (wr_bw wr) \<noteq> []"
    and "bw_size (wr_bw wr) \<le> 1024"
  shows "\<exists>s'. sv_write junk now sfd (W_ok r # as) s = Ret s'
    \<and> sv_wrm s' = (sv_wrm s)(sfd \<mapsto> wr\<lparr>wr_bw := bw_new\<rparr>)
    \<and> sent_on sfd (calls (sv_events s')) = sent_on sfd (calls (sv_events s)) @ take r (bw_buffer (wr_bw wr))"
proof -
  have "chunk_size (wr_bw wr) = length (bw_buffer (wr_bw wr))"
    using assms(4) by (auto simp: chunk_size_def bw_size_def)
  moreover have "w\<lparr>bw_buffer := []\<rparr> = bw_new" for w :: BufferedWriter by (cases w) (simp add: bw_new_def)
  ultimately show ?thesis
    using assms by (auto simp: sv_write_def write_to_sfd_ok write_to_sfd_empty)
qed

theorem server_short_write_loses_tail_witness:
  "\<exists>s'. sv_write CHR 0x00 5 7 [W_ok 2] (demo_server ''hello'') = Ret s'
    \<and> sv_wrm s' = (sv_wrm (demo_server ''hello''))(7 \<mapsto> \<lparr>wr_bw = bw_new, wr_valid = True\<rparr>)
    \<and> sent_on 7 (calls (sv_events s')) = ''he''"
  using server_short_write_loses_tail [of "demo_server ''hello''" 7
      "\<lparr>wr_bw = \<lparr>bw_buffer = ''hello''\<rparr>, wr_valid = True\<rparr>" "CHR 0x00" 5 2 "[]"]
  by (simp add: demo_server_def bw_size_def)

subsection \<open>One request\<close>

lemma split_one_frame:
  "EOT \<notin> set (u @ m) \<Longrightarrow> split_frames EOT [] (u @ m @ [EOT]) = ([u @ m], [])"
  using split_frames_stream [of "[u @ m]" EOT "[]"] by simp

lemma sv_read_one:
  assumes "sv_rrm s sfd = Some \<lparr>rr_br = br_new EOT, rr_valid = True\<rparr>" and "sv_wrm s sfd = Some wr" and "wr_valid wr"
    and "valid_msg (u, m)" and "length (rep m) + 38 < 2 ^ 32"
    and "\<forall>c \<in> set chunks. c \<noteq> []" and "concat chunks = u @ m @ [EOT]"
  shows "\<exists>s'. sv_read (replier rep) junk now sfd (map R_bytes chunks @ [R_err EAGAIN]) s = Ret s'
    \<and> sv_delivered s' = sv_delivered s @ [(u, m, sfd)] \<and> sv_rrm s' = sv_rrm s
    \<and> sv_wrm s' = (sv_wrm s)(sfd \<mapsto> wr\<lparr>wr_bw := \<lparr>bw_buffer = bw_buffer (wr_bw wr) @ u @ rep m @ [EOT]\<rparr>\<rparr>)
    \<and> sent_on sfd (calls (sv_events s')) = sent_on sfd (calls (sv_events s))"
proof -
  have u: "length u = 37" "EOT \<notin> set (u @ m)" "length m + 38 < 2 ^ 32" using assms(4) by (auto simp: valid_msg_def)
  let ?s1 = "(s\<lparr>sv_delivered := sv_delivered s @ [(u, m, sfd)]\<rparr>)
      \<lparr>sv_wrm := (sv_wrm s)(sfd \<mapsto> wr\<lparr>wr_bw := \<lparr>bw_buffer = bw_buffer (wr_bw wr) @ u @ rep m @ [EOT]\<rparr>\<rparr>),
       sv_events := arm EPOLLOUT (sv_ep_sfd s) sfd (sv_events s)\<rparr>"
  have "sv_handle (replier rep) junk sfd (u, m) s = Ret ?s1"
    using u(1) assms(2,3,5) by (simp add: sv_handle_def replier_def sv_send_msg_eq)
  moreover have "frame_parts (u @ m) = (u, m)" using u(1) by (simp add: frame_parts_def)
  ultimately have "for_each [u @ m] (sv_call_back (replier rep) junk sfd) s = Ret ?s1"
    using u(1,3) by (subst sv_call_back_all) simp_all
  then have "br_read (sv_call_back (replier rep) junk sfd) (concat chunks) (br_new EOT, s) = Ret (br_new EOT, ?s1)"
    using split_one_frame [OF u(2)] by (simp add: br_read_frames br_new_def assms(7))
  with assms(1,6) show ?thesis
    by (auto simp: sv_read_valid read_loop_chunks br_new_def)
qed

lemma sv_write_all:
  assumes "sv_wrm s sfd = Some wr" and "wr_valid wr" and "full_writes (bw_size (wr_bw wr)) as"
    and "\<forall>a \<in> set as. \<forall>e. a \<noteq> W_err e"
  shows "\<exists>s'. sv_write junk now sfd as s = Ret s' \<and> sv_wrm s' = (sv_wrm s)(sfd \<mapsto> wr\<lparr>wr_bw := bw_new\<rparr>)
    \<and> sent_on sfd (calls (sv_events s')) = sent_on sfd (calls (sv_events s)) @ bw_buffer (wr_bw wr)"
proof -
  obtain s' where "write_to_sfd sv_events_update (sv_close_write now sfd) junk (sv_ep_sfd s) sfd as (wr_bw wr, s) =
      Ret (bw_new, s')" "sv_wrm s' = sv_wrm s"
    "sent_on sfd (calls (sv_events s')) = sent_on sfd (calls (sv_events s)) @ bw_buffer (wr_bw wr)"
    using sve.write_all [OF assms(3,4), of "\<lambda>t. sv_wrm t = sv_wrm s" s sfd "sv_close_write now sfd" junk "sv_ep_sfd s"]
    by auto
  then show ?thesis using assms(1,2) by (simp add: sv_write_def)
qed

subsection \<open>Properties: life of a connection\<close>

definition demo_start :: start_ans where
  "demo_start = \<lparr>st_socket = 3, st_bind = 0, st_getfl = 2, st_setfl = 0, st_listen = 0,
     st_epoll_create = 4, st_epoll_ctl = 0\<rparr>"

definition demo_boot :: SocketServer where
  "demo_boot = \<lparr>sv_port = 8080, sv_sin_port = htons (ucast (8080 :: u32)), sv_i_sfd = 3, sv_ep_sfd = 4,
      sv_rrm = Map.empty, sv_wrm = Map.empty,
      sv_events = \<lparr>sfd_events = Map.empty,
        calls = [Fcntl_setfl 3 (2 OR O_NONBLOCK), Epoll_add 4 3 EPOLLIN]\<rparr>, sv_zm = Map.empty,
      sv_a_tp = [], sv_r_tp = [], sv_w_tp = [], sv_delivered = []\<rparr>"

lemma demo_boot_new: "sv_new 8080 demo_start = Ret demo_boot"
  by (simp add: sv_new_def demo_start_def demo_boot_def create_socket_def bind_socket_def listen_socket_def
      unblock_socket_def create_and_config_epoll_def log_call_def Let_def)

lemma demo_boot_reach: "reach sv_init (sv_step handler junk) (demo_boot, [])"
  by (rule reach_init) (use demo_boot_new in \<open>auto simp: sv_init_def\<close>)

text \<open>The server after it accepted a first connection, on descriptor 7.\<close>

definition demo_conn_ans :: conn_ans where
  "demo_conn_ans = \<lparr>cin_fd = 7, get_name_result = 0, getfl_result = 2, setfl_result = 0, ctl_result = 0\<rparr>"

definition demo_conn :: SocketServer where
  "demo_conn = demo_boot\<lparr>sv_rrm := [7 \<mapsto> \<lparr>rr_br = br_new EOT, rr_valid = True\<rparr>],
     sv_wrm := [7 \<mapsto> \<lparr>wr_bw = bw_new, wr_valid = True\<rparr>],
     sv_events := \<lparr>sfd_events = [7 \<mapsto> EPOLLIN],
       calls = [Fcntl_setfl 3 (2 OR O_NONBLOCK), Epoll_add 4 3 EPOLLIN,
                Fcntl_setfl 7 (2 OR O_NONBLOCK), Epoll_add 4 7 EPOLLIN]\<rparr>\<rparr>"

lemma demo_conn_reach: "reach sv_init (sv_step handler junk) (demo_conn, [])"
proof -
  let ?s = "demo_boot\<lparr>sv_a_tp := [Add_f]\<rparr>"
  have "sv_step handler junk (demo_boot, []) (L_events [(EPOLLIN, 3)]) (?s, [])"
    using sv_events_step [OF refl, where now = 0 and evs = "[(EPOLLIN, 3)]" and s = demo_boot and ws = "[]" and handler = handler
        and junk = junk]
    by (simp add: sv_process_epoll_events_def sv_process_event_def sv_add_callback_def demo_boot_def ev_bits)
  then have "reach sv_init (sv_step handler junk) (?s, [])" by (rule reach_step [OF demo_boot_reach])
  moreover have "sv_accept [A_conn demo_conn_ans, A_err EAGAIN] (?s\<lparr>sv_a_tp := [] @ []\<rparr>) = Ret demo_conn"
    by (simp add: sv_accept_def demo_conn_ans_def demo_boot_def demo_conn_def unblock_socket_def log_call_def
        sv_add_eq map_emplace_def)
  then obtain ls where "run (sv_step handler junk) (?s, []) ls (demo_conn, [])"
    using sv_accept_run [of ?s "[]" "[]" _ demo_conn handler junk "[]"] by (auto simp: demo_boot_def)
  ultimately show ?thesis by (rule reach_run)
qed

text \<open>
  C27: the constructor of \<^verbatim>\<open>SocketServer\<close> ends the process with status 1 as soon as one of its seven
  system calls fails, and otherwise leaves a server without connections whose listening socket is
  non-blocking and registered with epoll for \<^verbatim>\<open>EPOLLIN\<close>, in this order, with the low 16 bits of
  the port in network byte order.
\<close>

theorem server_start_result:
  "sv_new port a =
     (if st_socket a < 0 \<or> st_bind a < 0 \<or> st_getfl a < 0 \<or> st_setfl a < 0 \<or> st_listen a < 0
         \<or> st_epoll_create a < 0 \<or> st_epoll_ctl a < 0
      then Exit 1
      else Ret \<lparr>sv_port = port,
        sv_sin_port = word_cat (ucast port :: 8 word) (ucast (drop_bit 8 port) :: 8 word),
        sv_i_sfd = st_socket a, sv_ep_sfd = st_epoll_create a, sv_rrm = Map.empty, sv_wrm = Map.empty,
        sv_events = \<lparr>sfd_events = Map.empty,
          calls = [Fcntl_setfl (st_socket a) (word_of_int (st_getfl a) OR O_NONBLOCK),
                   Epoll_add (st_epoll_create a) (st_socket a) EPOLLIN]\<rparr>,
        sv_zm = Map.empty, sv_a_tp = [], sv_r_tp = [], sv_w_tp = [], sv_delivered = []\<rparr>)"
proof -
  have "htons (ucast port) = word_cat (ucast port :: 8 word) (ucast (drop_bit 8 port) :: 8 word)"
    by (rule bit_word_eqI) (auto simp: htons_def bit_simps bit_word_cat_iff)
  then show ?thesis
    by (simp add: sv_new_def create_socket_def bind_socket_def listen_socket_def unblock_socket_def
        create_and_config_epoll_def log_call_def Let_def)
qed

text \<open>
  C4: in every state the server can reach, from any successful start, under any answers of the
  kernel, any handler and any order of its threads' steps, connections being accepted and reaped one
  critical section at a time (a unit of read or write work and a message sent are one step each):
  every reader holds an unfinished frame free of the delimiter; no dead
  connection is forgotten, resources that are no longer valid are marked for the reaper; every event
  mask is made of \<^verbatim>\<open>EPOLLIN\<close> and \<^verbatim>\<open>EPOLLOUT\<close>; and it is what the server's epoll instance was last
  asked to report for the descriptor, except that it may be the \<^verbatim>\<open>EPOLLIN\<close> that \<^verbatim>\<open>add\<close> stores
  without telling the kernel, or that the connection was added to epoll and its \<^verbatim>\<open>add\<close> has not ended.
\<close>

theorem server_invariant:
  assumes "reach sv_init (sv_step handler junk) (s, ws)"
  shows "(\<forall>fd rr. sv_rrm s fd = Some rr \<longrightarrow>
         br_del (rr_br rr) = EOT \<and> EOT \<notin> set (br_buffer (rr_br rr)) \<and> (rr_valid rr \<or> fd \<in> dom (sv_zm s)))
    \<and> (\<forall>fd wr. sv_wrm s fd = Some wr \<longrightarrow> wr_valid wr \<or> fd \<in> dom (sv_zm s))
    \<and> (\<forall>fd e. sfd_events (sv_events s) fd = Some e \<longrightarrow>
         e \<in> {0, EPOLLIN, EPOLLOUT, EPOLLIN OR EPOLLOUT}
         \<and> (registered (sv_ep_sfd s) fd (calls (sv_events s)) = Some e \<or> e = EPOLLIN \<or> fd \<in> adding ws))"
  using sv.inv_reach [OF assms]
  unfolding sv_state_inv_def sv_inv_def reader_ok_def masks_ok_def told_ok_def ev_mask_def fst_conv snd_conv
  by (intro conjI) (simp_all add: domIff, metis+)

text \<open>A peer closed the connection on descriptor 7, and it was read.\<close>

theorem server_invariant_witness:
  "\<exists>s. reach sv_init (sv_step (replier rev) CHR 0x00) (s, [])
     \<and> (\<exists>rr. sv_rrm s 7 = Some rr \<and> \<not> rr_valid rr \<and> EOT \<notin> set (br_buffer (rr_br rr))) \<and> 7 \<in> dom (sv_zm s)
     \<and> sfd_events (sv_events s) 7 = Some 0 \<and> registered 4 7 (calls (sv_events s)) = Some 0"
proof -
  let ?s1 = "sv_process_epoll_events 5 [(EPOLLIN, 7)] demo_conn"
  have "reach sv_init (sv_step (replier rev) CHR 0x00) (?s1, [])"
    by (rule reach_step [OF demo_conn_reach sv_events_step [OF refl]]) simp
  moreover obtain s where s: "sv_read (replier rev) CHR 0x00 5 7 [R_bytes ''ab'', R_bytes []] (?s1\<lparr>sv_r_tp := []\<rparr>) = Ret s"
    "\<exists>rr. sv_rrm s 7 = Some rr \<and> \<not> rr_valid rr"
    "sfd_events (sv_events s) 7 = Some 0" "sv_ep_sfd s = 4"
    by (simp add: sv_read_def read_from_sfd_def br_read_frames sv_process_epoll_events_def sv_process_event_def
        sv_read_callback_def sv_close_read_def sv_a_zombied_def demo_conn_def demo_boot_def br_new_def ev_bits EOT_def)
  ultimately have r: "reach sv_init (sv_step (replier rev) CHR 0x00) (s, [])"
    by (elim reach_step) (rule sv_read_step [where before = "[]" and after = "[]"],
      simp_all add: sv_process_epoll_events_def sv_process_event_def sv_read_callback_def demo_conn_def demo_boot_def ev_bits)
  from server_invariant [OF r] s show ?thesis using r by (fastforce simp: ev_bits)
qed



text \<open>The descriptors a pass of the reaper takes.\<close>

definition sv_dead :: "(sfd \<Rightarrow> u64) \<Rightarrow> SocketServer \<Rightarrow> sfd \<Rightarrow> bool" where
  "sv_dead now s f = (case sv_zm s f of None \<Rightarrow> False | Some death \<Rightarrow> expired (now f) death)"

lemma reap_fold:
  assumes "distinct order"
  shows "case fold (sv_reap_one now) order (s, zv) of (s', zv') \<Rightarrow>
     zv' = zv @ filter (sv_dead now s) order
     \<and> s' = fold sv_close_n_clean (filter (sv_dead now s) order) s"
  using assms
proof (induction order arbitrary: s zv)
  case (Cons f fs)
  have zm: "sv_dead now (sv_close_n_clean f s) = sv_dead now s"
    by (intro ext) (simp add: sv_dead_def sv_close_n_clean_eq)
  show ?case
  proof (cases "sv_dead now s f")
    case True
    then have "sv_reap_one now f (s, zv) = (sv_close_n_clean f s, zv @ [f])" by (auto simp: sv_reap_one_def sv_dead_def split: option.splits)
    with True Cons.IH [where s = "sv_close_n_clean f s" and zv = "zv @ [f]"] Cons.prems show ?thesis by (simp add: zm)
  next
    case False
    then have "sv_reap_one now f (s, zv) = (s, zv)" by (auto simp: sv_reap_one_def sv_dead_def split: option.splits)
    with False Cons.IH [where s = s and zv = zv] Cons.prems show ?thesis by simp
  qed
qed simp

lemma close_all:
  "sv_rrm (fold sv_close_n_clean fs s) f = (if f \<in> set fs then None else sv_rrm s f)"
  "sv_wrm (fold sv_close_n_clean fs s) f = (if f \<in> set fs then None else sv_wrm s f)"
  "sfd_events (sv_events (fold sv_close_n_clean fs s)) f = (if f \<in> set fs then None else sfd_events (sv_events s) f)"
  "calls (sv_events (fold sv_close_n_clean fs s)) = calls (sv_events s) @ map Close fs"
  "sv_zm (fold sv_close_n_clean fs s) = sv_zm s"
  by (induction fs arbitrary: s) (auto simp: sv_close_n_clean_eq)

text \<open>
  C26: one pass of the reaper, whatever the order in which it visits the zombies. A descriptor marked
  more than 60000 ms ago, as a difference of 64 bit clocks, loses its read resources, its write
  resources, its event mask and its mark; every other descriptor keeps all four; exactly the
  expired descriptors are closed, each once.
\<close>

theorem server_reap_result:
  assumes "distinct order" and "set order = dom (sv_zm s)"
  shows "(\<forall>f. sv_rrm (sv_reap now order s) f = (if sv_dead now s f then None else sv_rrm s f))
    \<and> (\<forall>f. sv_wrm (sv_reap now order s) f = (if sv_dead now s f then None else sv_wrm s f))
    \<and> (\<forall>f. sfd_events (sv_events (sv_reap now order s)) f =
         (if sv_dead now s f then None else sfd_events (sv_events s) f))
    \<and> (\<forall>f. sv_zm (sv_reap now order s) f = (if sv_dead now s f then None else sv_zm s f))
    \<and> calls (sv_events (sv_reap now order s)) = calls (sv_events s) @ map Close (filter (sv_dead now s) order)"
proof -
  obtain s' zv where fo: "fold (sv_reap_one now) order (s, []) = (s', zv)" by fastforce
  then have eqs: "zv = filter (sv_dead now s) order" "s' = fold sv_close_n_clean (filter (sv_dead now s) order) s"
    using reap_fold [OF assms(1), where now = now and s = s and zv = "[]"] by simp_all
  have "f \<in> set (filter (sv_dead now s) order) \<longleftrightarrow> sv_dead now s f" for f
    using assms(2) by (auto simp: sv_dead_def split: option.splits)
  then show ?thesis by (simp add: sv_reap_def fo eqs close_all fold_map_erase)
qed

text \<open>
  C39: the reaper closes a healthy connection. When epoll reports an error on \<open>fd\<close> the event loop
  closes it and marks it, but keeps its resources; the kernel may then give the same number to a
  new connection. The new connection gets the old resources if there were any, and the old mark
  is not withdrawn, so a pass of the reaper more than 60000 ms after the error closes the new
  connection and drops its resources.
\<close>

theorem server_reused_descriptor_reaped:
  assumes "s1 = sv_process_event t (EPOLLHUP, fd) s" and "s2 = sv_add fd s1"
    and "distinct order" and "set order = dom (sv_zm s2)" and "expired (now fd) t"
  shows "(\<forall>rr. sv_rrm s fd = Some rr \<longrightarrow> sv_rrm s2 fd = Some rr)
    \<and> (\<forall>wr. sv_wrm s fd = Some wr \<longrightarrow> sv_wrm s2 fd = Some wr)
    \<and> sv_rrm s2 fd \<noteq> None
    \<and> sv_rrm (sv_reap now order s2) fd = None \<and> sv_wrm (sv_reap now order s2) fd = None
    \<and> Close fd \<in> set (drop (length (calls (sv_events s2))) (calls (sv_events (sv_reap now order s2))))"
proof -
  have zm: "sv_zm s2 fd = Some t"
    by (simp add: assms(1,2) sv_process_event_def sv_add_eq sv_a_zombied_def EPOLLHUP_def EPOLLERR_def)
  obtain s' zv where fo: "fold (sv_reap_one now) order (s2, []) = (s', zv)" by fastforce
  then have eqs: "zv = filter (sv_dead now s2) order" "s' = fold sv_close_n_clean (filter (sv_dead now s2) order) s2"
    using reap_fold [OF assms(3), where now = now and s = s2 and zv = "[]"] by simp_all
  have "fd \<in> set (filter (sv_dead now s2) order)" using zm assms(4,5) by (auto simp: sv_dead_def)
  then have "sv_rrm (sv_reap now order s2) fd = None" "sv_wrm (sv_reap now order s2) fd = None"
    "Close fd \<in> set (drop (length (calls (sv_events s2))) (calls (sv_events (sv_reap now order s2))))"
    by (simp_all add: sv_reap_def fo eqs close_all del: set_filter)
  then show ?thesis
    by (simp add: assms(1,2) sv_process_event_def sv_add_eq sv_a_zombied_def EPOLLHUP_def)
qed

theorem server_reap_result_witness:
  "(\<forall>f. sv_zm (sv_reap (\<lambda>_. 70000) [7, 9] ((demo_server [])\<lparr>sv_zm := [7 \<mapsto> 5000, 9 \<mapsto> 20000]\<rparr>)) f =
      (if f = 7 then None else [7 \<mapsto> 5000, 9 \<mapsto> 20000 :: u64] f))"
  using server_reap_result [of "[7, 9]" "(demo_server [])\<lparr>sv_zm := [7 \<mapsto> 5000, 9 \<mapsto> 20000]\<rparr>" "\<lambda>_. 70000"]
  by (simp add: sv_dead_def expired_def demo_server_def insert_commute)

theorem server_reused_descriptor_reaped_witness:
  "sv_rrm (sv_reap (\<lambda>_. 70000) [7] (sv_add 7 (sv_process_event 5000 (EPOLLHUP, 7) (demo_server ''x'')))) 7 = None"
  using server_reused_descriptor_reaped [of "sv_process_event 5000 (EPOLLHUP, 7) (demo_server ''x'')" 5000 7
      "demo_server ''x''" "sv_add 7 (sv_process_event 5000 (EPOLLHUP, 7) (demo_server ''x''))" "[7]" "\<lambda>_. 70000"]
  by (simp add: sv_process_event_def sv_add_eq sv_a_zombied_def demo_server_def EPOLLHUP_def EPOLLERR_def expired_def)

end
