(* ===== verification/Digest.thy ===== *)
theory Digest
  imports Frames
begin

text \<open>
  The digest and uuid helpers of \<^verbatim>\<open>utils.cpp\<close>. \<^verbatim>\<open>boost::uuids::detail::sha1\<close> is a parameter: a
  function from the hashed bytes to the five words \<^verbatim>\<open>get_digest\<close> stores. The uuid library is a
  parameter too: the sixteen bytes \<^verbatim>\<open>uuid_generate\<close> stores and the text \<^verbatim>\<open>uuid_unparse_lower\<close> writes.
\<close>

subsection \<open>Definitions\<close>

text \<open>\<^verbatim>\<open>const char *text = val.c_str(); ... std::strlen(text)\<close>: the bytes up to the first zero byte.\<close>

definition c_text :: "bytes \<Rightarrow> bytes" where
  "c_text val = takeWhile (\<lambda>c. c \<noteq> CHR 0x00) val"

definition word_bytes :: "u32 \<Rightarrow> u8 list" where
  "word_bytes h =
     [ucast (drop_bit 24 h), ucast (drop_bit 24 (push_bit 8 h)),
      ucast (drop_bit 24 (push_bit 16 h)), ucast (drop_bit 24 (push_bit 24 h))]"

definition sha1_byte_arr :: "(bytes \<Rightarrow> u32 list) \<Rightarrow> bytes \<Rightarrow> u8 list" where
  "sha1_byte_arr sha1 val = (let hash = sha1 (c_text val) in
     concat (map (\<lambda>i. word_bytes (hash ! i)) [0..<5]))"

definition hex_char :: "nat \<Rightarrow> char" where
  "hex_char k = (if k < 10 then char_of (48 + k) else char_of (87 + k))"

text \<open>\<^verbatim>\<open>ss << std::hex << h\<close>: lower case, no leading zeros.\<close>

fun hex_of :: "nat \<Rightarrow> bytes" where
  "hex_of n = (if n < 16 then [hex_char n] else hex_of (n div 16) @ [hex_char (n mod 16)])"

declare hex_of.simps [simp del]

definition sha1_hex_str :: "(bytes \<Rightarrow> u32 list) \<Rightarrow> bytes \<Rightarrow> bytes" where
  "sha1_hex_str sha1 val = (let hash = sha1 (c_text val) in
     concat (map (\<lambda>i. hex_of (unat (hash ! i))) [0..<5]))"

definition gen_uuid :: "u8 list \<Rightarrow> u8 list cpp" where
  "gen_uuid uuid = for_each [0..<16] (\<lambda>i uuid_v. cpp_bind (rd_at uuid i) (\<lambda>b. Ret (uuid_v @ [b]))) []"

text \<open>\<open>out\<close> is the text \<^verbatim>\<open>uuid_unparse_lower\<close> writes, followed by a zero byte, into \<^verbatim>\<open>char uuid_str[37]\<close>.\<close>

definition build_uuid_str :: "bytes \<Rightarrow> bytes cpp" where
  "build_uuid_str out = (if length out = 36 then Ret (out @ [CHR 0x00]) else Undef)"

text \<open>The word a big-endian group of four bytes stands for.\<close>

definition bytes_word :: "u8 list \<Rightarrow> u32" where
  "bytes_word bs = foldl (\<lambda>w b. push_bit 8 w OR ucast b) 0 bs"

subsection \<open>Lemmas\<close>

lemma length_word_bytes [simp]: "length (word_bytes h) = 4"
  by (simp add: word_bytes_def)

lemma bytes_word_bytes: "bytes_word (word_bytes h) = h"
  unfolding bytes_word_def word_bytes_def
proof (rule bit_word_eqI)
  fix n
  assume "n < LENGTH(32)"
  then consider "n < 8" | "8 \<le> n" "n < 16" | "16 \<le> n" "n < 24" | "24 \<le> n" "n < 32" by fastforce
  then show "bit (foldl (\<lambda>w b. push_bit 8 w OR ucast b) (0 :: u32) [ucast (drop_bit 24 h) :: u8,
      ucast (drop_bit 24 (push_bit 8 h)), ucast (drop_bit 24 (push_bit 16 h)),
      ucast (drop_bit 24 (push_bit 24 h))]) n = bit h n"
    by cases (auto simp: bit_simps)
qed

lemma length_hex_of: "n < 16 ^ Suc k \<Longrightarrow> length (hex_of n) = Suc k \<longleftrightarrow> 16 ^ k \<le> n \<or> k = 0"
proof (induction k arbitrary: n)
  case 0
  then show ?case by (simp add: hex_of.simps)
next
  case (Suc k)
  show ?case
  proof (cases "n < 16")
    case True
    moreover have "(1::nat) \<le> 16 ^ k" by simp
    ultimately have "n < 16 * 16 ^ k" by linarith
    with True show ?thesis by (simp add: hex_of.simps)
  next
    case False
    have "n div 16 < 16 ^ Suc k" using Suc.prems by (simp add: less_mult_imp_div_less)
    from Suc.IH [OF this] False show ?thesis
      by (auto simp: hex_of.simps [of n] less_eq_div_iff_mult_less_eq)
  qed
qed

lemma length_hex_of_le: "n < 16 ^ Suc k \<Longrightarrow> length (hex_of n) \<le> Suc k"
proof (induction k arbitrary: n)
  case 0
  then show ?case by (simp add: hex_of.simps)
next
  case (Suc k)
  then show ?case
    by (subst hex_of.simps) (simp add: less_mult_imp_div_less)
qed


lemma five: "length xs = 5 \<Longrightarrow> map (\<lambda>i. xs ! i) [0..<5] = xs"
  by (metis map_nth)

lemma concat_five:
  "length xs = 5 \<Longrightarrow> concat (map (\<lambda>i. f (xs ! i)) [0..<5]) = concat (map f xs)"
  using arg_cong [OF five, of xs "\<lambda>ys. concat (map f ys)"] by (simp add: comp_def)

lemma nth_group:
  "(\<And>x. length (f x) = k) \<Longrightarrow> i < length xs \<Longrightarrow> take k (drop (k * i) (concat (map f xs))) = f (xs ! i)"
proof (induction xs arbitrary: i)
  case (Cons x xs)
  then show ?case by (cases i) (simp_all add: add.commute)
qed simp

lemma hex_groups: "length (concat (map f xs)) \<le> k * length xs" if "\<And>x. length (f x) \<le> k"
  using that by (induction xs) (auto simp: add_mono)

lemma hex_groups_full:
  "(\<And>x. length (f x) \<le> k) \<Longrightarrow>
   length (concat (map f xs)) = k * length xs \<longleftrightarrow> (\<forall>x \<in> set xs. length (f x) = k)"
proof (induction xs)
  case (Cons x xs)
  have "length (f x) \<le> k" "length (concat (map f xs)) \<le> k * length xs"
    using Cons.prems hex_groups by blast+
  then have "length (f x) + length (concat (map f xs)) = k + k * length xs \<longleftrightarrow>
      length (f x) = k \<and> length (concat (map f xs)) = k * length xs" by linarith
  with Cons show ?case by simp
qed simp

subsection \<open>Properties\<close>

text \<open>
  \<^verbatim>\<open>sha1_byte_arr\<close> is the big-endian layout of the digest: twenty bytes, and each group of four
  bytes is the corresponding word of the digest again.
\<close>

lemma sha1_bytes_layout:
  assumes "\<And>text. length (sha1 text) = 5"
  shows "length (sha1_byte_arr sha1 val) = 20 \<and>
    (\<forall>i < 5. bytes_word (take 4 (drop (4 * i) (sha1_byte_arr sha1 val))) = sha1 (c_text val) ! i)"
proof -
  have arr: "sha1_byte_arr sha1 val = concat (map word_bytes (sha1 (c_text val)))"
    using assms by (simp add: sha1_byte_arr_def Let_def concat_five)
  have "length (concat (map word_bytes ws)) = 4 * length ws" for ws by (induction ws) auto
  then show ?thesis using assms by (simp add: arr nth_group bytes_word_bytes)
qed

text \<open>
  \<^verbatim>\<open>sha1_hex_str\<close> never has more than 40 digits, and it has the 40 digits of a SHA-1 digest exactly
  when no word of the digest is below \<open>2 ^ 28\<close>: the stream prints each word without leading zeros.
\<close>

lemma sha1_hex_length:
  assumes "\<And>text. length (sha1 text) = 5"
  shows "length (sha1_hex_str sha1 val) \<le> 40 \<and>
    (length (sha1_hex_str sha1 val) = 40 \<longleftrightarrow> (\<forall>w \<in> set (sha1 (c_text val)). 2 ^ 28 \<le> unat w))"
proof -
  have str: "sha1_hex_str sha1 val = concat (map (\<lambda>w. hex_of (unat w)) (sha1 (c_text val)))"
    using assms by (simp add: sha1_hex_str_def Let_def concat_five [of _ "\<lambda>w. hex_of (unat w)"])
  have lt: "unat w < 16 ^ Suc 7" for w :: u32 using unsigned_less [of w] by simp
  then have le: "length (hex_of (unat w)) \<le> 8" for w :: u32
    using length_hex_of_le [of "unat w" 7] by simp
  have "length (hex_of (unat w)) = 8 \<longleftrightarrow> 2 ^ 28 \<le> unat w" for w :: u32
    using length_hex_of [OF lt, of w] by simp
  then show ?thesis
    using hex_groups [of "\<lambda>w. hex_of (unat w)" 8 "sha1 (c_text val)"] le assms
      hex_groups_full [of "\<lambda>w. hex_of (unat w)" 8 "sha1 (c_text val)"] by (simp add: str)
qed

text \<open>
  The string \<^verbatim>\<open>build_uuid_str\<close> makes of a textual uuid (36 hexadecimal digits and dashes) is a
  legal uuid of a message frame: 37 bytes, without the end of transmission byte.
\<close>

lemma uuid_str_frames:
  assumes "length out = 36" and "\<forall>c \<in> set out. c = CHR ''-'' \<or> (\<exists>k < 16. c = hex_char k)"
    and "EOT \<notin> set msg" and "length msg + 38 < 2 ^ 32"
  shows "\<exists>uid. build_uuid_str out = Ret uid \<and> valid_msg (uid, msg)"
proof -
  have hex: "hex_char k \<noteq> EOT" if "k < 16" for k
  proof -
    have "of_char (hex_char k) \<noteq> (4 :: nat)" using that by (simp add: hex_char_def of_char_of)
    then show ?thesis by (auto simp: EOT_def)
  qed
  have "CHR ''-'' \<noteq> EOT" by (simp add: EOT_def)
  with assms(2) hex have "EOT \<notin> set out" by metis
  then show ?thesis using assms by (simp add: build_uuid_str_def valid_msg_def EOT_def)
qed

end
