(* ===== verification/Socket_Client.thy ===== *)
theory Socket_Client
  imports Socket_Utils Transition Utils Digest
begin

text \<open>
  \<^verbatim>\<open>SocketClient\<close> (\<^verbatim>\<open>socket_client.cpp\<close>): connections to the desired hosts, the table of callbacks that
  wait for a reply, the retry list and the reaper. As in \<open>Socket_Server\<close> the kernel's answers are
  arguments. A step is one run of the event loop body or one unit of work of a pool; the loops that
  connect, retry and reap and the calls of \<^verbatim>\<open>send_msg\<close> are split at the mutexes they take, with the
  place of each thread in the state, so steps of other threads may come in between. A response callback is a value of type \<open>'cb\<close>: it runs
  with \<^verbatim>\<open>call_backs_mutex\<close> held, so it cannot use the client; what the client sees of it is whether it
  throws, the parameter \<open>throws\<close>. \<open>sc_answers\<close> is the history of the calls of callbacks,
  \<open>sc_regs\<close> that of their registrations.
\<close>

subsection \<open>State\<close>

record HostStatus =
  is_healthy :: bool
  hs_sfd :: sfd
  hs_ep_sfd :: sfd

text \<open>What \<^verbatim>\<open>h_status[node]\<close> inserts for a missing node.\<close>

definition hs_default :: HostStatus where
  "hs_default = \<lparr>is_healthy = False, hs_sfd = 0, hs_ep_sfd = 0\<rparr>"

record 'cb SocketClient =
  sc_desired_hosts :: "bytes list"
  sc_h_status :: "bytes \<rightharpoonup> HostStatus"
  sc_zm :: "sfd \<rightharpoonup> u64"
  sc_conns :: "sfd \<rightharpoonup> bytes"
  sc_call_backs :: "sfd \<rightharpoonup> (bytes \<rightharpoonup> 'cb)"
  sc_rrm :: "sfd \<rightharpoonup> ReadR"
  sc_wrm :: "sfd \<rightharpoonup> WriteR"
  sc_events :: epoll_st
  sc_e_hosts :: "bytes list"
  sc_r_tp :: "(sfd \<times> sfd) list"
  sc_w_tp :: "(sfd \<times> sfd) list"
  sc_answers :: "('cb \<times> bytes) list"
  sc_regs :: "'cb list"

definition sc_new :: "bytes list \<Rightarrow> 'cb SocketClient" where
  "sc_new desired_hosts =
     \<lparr>sc_desired_hosts = desired_hosts, sc_h_status = Map.empty, sc_zm = Map.empty, sc_conns = Map.empty,
      sc_call_backs = Map.empty, sc_rrm = Map.empty, sc_wrm = Map.empty,
      sc_events = \<lparr>sfd_events = Map.empty, calls = []\<rparr>, sc_e_hosts = [], sc_r_tp = [], sc_w_tp = [],
      sc_answers = [], sc_regs = []\<rparr>"

subsection \<open>Connecting\<close>

text \<open>
  The answers of the calls of \<^verbatim>\<open>make_connection\<close>: the address \<^verbatim>\<open>gethostbyname\<close> found, if any, and the
  system calls in their order; \<open>mc_junk\<close> are the indeterminate descriptors of a status that is
  stored without a connection.
\<close>

record mc_ans =
  mc_h_addr :: "bytes option"
  mc_socket :: int
  mc_connect :: int
  mc_getfl :: int
  mc_setfl :: int
  mc_epoll_create :: int
  mc_epoll_ctl :: int
  mc_junk :: "sfd \<times> sfd"

definition set_status :: "bytes \<Rightarrow> HostStatus \<Rightarrow> 'cb SocketClient \<Rightarrow> 'cb SocketClient" where
  "set_status node status s = s\<lparr>sc_h_status := (sc_h_status s)(node \<mapsto> status)\<rparr>"

definition no_conn :: "mc_ans \<Rightarrow> HostStatus" where
  "no_conn a = \<lparr>is_healthy = False, hs_sfd = fst (mc_junk a), hs_ep_sfd = snd (mc_junk a)\<rparr>"

text \<open>
  \<^verbatim>\<open>make_connection\<close> up to its first mutex (\<open>mc_start\<close>), and where it goes on: with a connection it
  enters the sections of \<^verbatim>\<open>conn_mutex\<close>, \<^verbatim>\<open>e_mutex\<close> and \<^verbatim>\<open>hs_mutex\<close>, without one only the last.
\<close>

datatype mc_pc = Mc_conns bytes sfd sfd | Mc_events bytes sfd sfd | Mc_status bytes HostStatus bool

definition mc_start :: "mc_ans \<Rightarrow> bytes \<Rightarrow> 'cb SocketClient \<Rightarrow> (mc_pc \<times> 'cb SocketClient) cpp" where
  "mc_start a node s =
     (let hp = split node CHR '':''
      in cpp_bind (rd_at hp 0) (\<lambda>host.
         cpp_bind (rd_at hp 1) (\<lambda>port_str.
           case stoi port_str of
             Inl e \<Rightarrow> Ret (Mc_status node (no_conn a) False, s)
           | Inr port \<Rightarrow>
               let sfd = mc_socket a
               in if sfd < 0 then Ret (Mc_status node (no_conn a) False, s)
                  else case mc_h_addr a of
                    None \<Rightarrow> Undef
                  | Some h_addr \<Rightarrow>
                      let ev = log_call (Connect sfd h_addr (htons (ucast (word_of_int port :: u32)))) (sc_events s)
                      in if mc_connect a < 0
                         then Ret (Mc_status node (no_conn a) False, s\<lparr>sc_events := ev\<rparr>)
                         else
                           cpp_bind (unblock_socket (mc_getfl a) (mc_setfl a) sfd ev) (\<lambda>ev.
                           cpp_bind (create_and_config_epoll (mc_epoll_create a) (mc_epoll_ctl a) sfd ev)
                             (\<lambda>(ep_sfd, ev). Ret (Mc_conns node sfd ep_sfd, s\<lparr>sc_events := ev\<rparr>))))))"

definition mc_conns :: "bytes \<Rightarrow> sfd \<Rightarrow> 'cb SocketClient \<Rightarrow> 'cb SocketClient" where
  "mc_conns node sfd s = s\<lparr>sc_conns := (sc_conns s)(sfd \<mapsto> node)\<rparr>"

definition mc_events :: "sfd \<Rightarrow> 'cb SocketClient \<Rightarrow> 'cb SocketClient" where
  "mc_events sfd s = s\<lparr>sc_events := set_mask sfd EPOLLIN (sc_events s)\<rparr>"

definition conn_status :: "sfd \<Rightarrow> sfd \<Rightarrow> HostStatus" where
  "conn_status sfd ep_sfd = \<lparr>is_healthy = True, hs_sfd = sfd, hs_ep_sfd = ep_sfd\<rparr>"

text \<open>One section and what follows it, another section or the return of the result.\<close>

fun mc_section :: "mc_pc \<Rightarrow> 'cb SocketClient \<Rightarrow> (mc_pc + bool) \<times> 'cb SocketClient" where
  "mc_section (Mc_conns node sfd ep_sfd) s = (Inl (Mc_events node sfd ep_sfd), mc_conns node sfd s)"
| "mc_section (Mc_events node sfd ep_sfd) s = (Inl (Mc_status node (conn_status sfd ep_sfd) True), mc_events sfd s)"
| "mc_section (Mc_status node status success) s = (Inr success, set_status node status s)"

text \<open>All sections that are left, without interruption.\<close>

fun mc_rest :: "mc_pc \<Rightarrow> 'cb SocketClient \<Rightarrow> bool \<times> 'cb SocketClient" where
  "mc_rest (Mc_conns node sfd ep_sfd) s =
     (True, set_status node (conn_status sfd ep_sfd) (mc_events sfd (mc_conns node sfd s)))"
| "mc_rest (Mc_events node sfd ep_sfd) s = (True, set_status node (conn_status sfd ep_sfd) (mc_events sfd s))"
| "mc_rest (Mc_status node status success) s = (success, set_status node status s)"

definition make_connection :: "mc_ans \<Rightarrow> bytes \<Rightarrow> 'cb SocketClient \<Rightarrow> (bool \<times> 'cb SocketClient) cpp" where
  "make_connection a node s = cpp_bind (mc_start a node s) (\<lambda>(pc, s1). Ret (mc_rest pc s1))"

text \<open>The loop of \<^verbatim>\<open>connect_to_hosts\<close>; \<open>ans i\<close> are the answers for the \<open>i\<close>th host.\<close>

definition connect_to_hosts :: "(nat \<Rightarrow> mc_ans) \<Rightarrow> 'cb SocketClient \<Rightarrow> (u32 \<times> 'cb SocketClient) cpp" where
  "connect_to_hosts ans s =
     for_each (List.enumerate 0 (sc_desired_hosts s))
       (\<lambda>(i, t) (s_conns, s).
          cpp_bind (make_connection (ans i) t s) (\<lambda>(ok, s).
            if ok then Ret (s_conns + 1, s)
            else Ret (s_conns, s\<lparr>sc_e_hosts := sc_e_hosts s @ [t]\<rparr>)))
       (0, s)"

text \<open>\<^verbatim>\<open>v.erase(v.begin() + i)\<close>.\<close>

definition erase_at :: "nat \<Rightarrow> 'a list \<Rightarrow> 'a list cpp" where
  "erase_at i xs = (if i < length xs then Ret (take i xs @ drop (Suc i) xs) else Undef)"

text \<open>One round of \<^verbatim>\<open>retry_conn\<close>: both loops.\<close>

definition retry_conn :: "(nat \<Rightarrow> mc_ans) \<Rightarrow> 'cb SocketClient \<Rightarrow> 'cb SocketClient cpp" where
  "retry_conn ans s =
     cpp_bind (for_u32 (length (sc_e_hosts s))
         (\<lambda>i (sci, s).
            cpp_bind (rd_at (sc_e_hosts s) i) (\<lambda>node.
            cpp_bind (make_connection (ans i) node s) (\<lambda>(ok, s).
              Ret (if ok then sci @ [i] else sci, s))))
         ([], s)) (\<lambda>(sci, s).
       cpp_bind (for_u32 (length sci) (\<lambda>i hosts. erase_at (sci ! i) hosts) (sc_e_hosts s)) (\<lambda>hosts.
         Ret (s\<lparr>sc_e_hosts := hosts\<rparr>)))"

subsection \<open>Death of a connection\<close>

definition sc_a_zombied :: "u64 \<Rightarrow> sfd \<Rightarrow> 'cb SocketClient \<Rightarrow> 'cb SocketClient" where
  "sc_a_zombied now sfd s =
     (let node = map_at (sc_conns s) [] sfd
      in s\<lparr>sc_conns := map_emplace sfd [] (sc_conns s),
           sc_h_status := (sc_h_status s)(node \<mapsto>
             (map_at (sc_h_status s) hs_default node)\<lparr>is_healthy := False\<rparr>),
           sc_zm := (sc_zm s)(sfd \<mapsto> now)\<rparr>)"

text \<open>
  The sections of \<^verbatim>\<open>close_n_clean\<close>, in order: \<^verbatim>\<open>conn_mutex\<close>, the two system calls, \<^verbatim>\<open>call_backs_mutex\<close>,
  \<^verbatim>\<open>r_mutex\<close>, \<^verbatim>\<open>w_mutex\<close> and \<^verbatim>\<open>e_mutex\<close>.
\<close>

datatype clean_pc = K_conns | K_close | K_call_backs | K_read | K_write | K_events

fun clean_section :: "sfd \<Rightarrow> sfd \<Rightarrow> clean_pc \<Rightarrow> 'cb SocketClient \<Rightarrow> 'cb SocketClient" where
  "clean_section ep_sfd sfd K_conns s = s\<lparr>sc_conns := map_erase sfd (sc_conns s)\<rparr>"
| "clean_section ep_sfd sfd K_close s = s\<lparr>sc_events := log_call (Close ep_sfd) (log_call (Close sfd) (sc_events s))\<rparr>"
| "clean_section ep_sfd sfd K_call_backs s = s\<lparr>sc_call_backs := map_erase sfd (sc_call_backs s)\<rparr>"
| "clean_section ep_sfd sfd K_read s = s\<lparr>sc_rrm := map_erase sfd (sc_rrm s)\<rparr>"
| "clean_section ep_sfd sfd K_write s = s\<lparr>sc_wrm := map_erase sfd (sc_wrm s)\<rparr>"
| "clean_section ep_sfd sfd K_events s =
     s\<lparr>sc_events := (sc_events s)\<lparr>sfd_events := map_erase sfd (sfd_events (sc_events s))\<rparr>\<rparr>"

definition clean_sections :: "clean_pc list" where
  "clean_sections = [K_conns, K_close, K_call_backs, K_read, K_write, K_events]"

definition sc_close_n_clean :: "sfd \<Rightarrow> sfd \<Rightarrow> 'cb SocketClient \<Rightarrow> 'cb SocketClient" where
  "sc_close_n_clean ep_sfd sfd s = fold (clean_section ep_sfd sfd) clean_sections s"

text \<open>One pass of \<^verbatim>\<open>reap_resources\<close>; \<open>ans sfd\<close> are the answers of the reconnection after \<open>sfd\<close>.\<close>

definition sc_reap_one ::
  "(sfd \<Rightarrow> u64) \<Rightarrow> (sfd \<Rightarrow> mc_ans) \<Rightarrow> sfd \<Rightarrow> 'cb SocketClient \<times> sfd list \<Rightarrow> ('cb SocketClient \<times> sfd list) cpp" where
  "sc_reap_one now ans sfd sz =
     (case sz of (s, zv) \<Rightarrow>
        case sc_zm s sfd of
          None \<Rightarrow> Ret (s, zv)
        | Some death \<Rightarrow>
            if expired (now sfd) death then
              let node = map_at (sc_conns s) [] sfd;
                  ep_sfd = hs_ep_sfd (map_at (sc_h_status s) hs_default node);
                  s1 = s\<lparr>sc_h_status := map_emplace node hs_default (sc_h_status s)\<rparr>
              in cpp_bind (make_connection (ans sfd) node (sc_close_n_clean ep_sfd sfd s1)) (\<lambda>(ok, s2).
                   Ret (if ok then s2 else s2\<lparr>sc_e_hosts := sc_e_hosts s2 @ [node]\<rparr>, zv @ [sfd]))
            else Ret (s, zv))"

definition sc_reap ::
  "(sfd \<Rightarrow> u64) \<Rightarrow> (sfd \<Rightarrow> mc_ans) \<Rightarrow> sfd list \<Rightarrow> 'cb SocketClient \<Rightarrow> 'cb SocketClient cpp" where
  "sc_reap now ans order s =
     cpp_bind (for_each order (sc_reap_one now ans) (s, [])) (\<lambda>(s', zv).
       Ret (s'\<lparr>sc_zm := fold map_erase zv (sc_zm s')\<rparr>))"

subsection \<open>Events\<close>

definition sc_read_callback :: "sfd \<Rightarrow> sfd \<Rightarrow> 'cb SocketClient \<Rightarrow> 'cb SocketClient" where
  "sc_read_callback ep_sfd sfd s =
     s\<lparr>sc_events := toggle EPOLLIN ep_sfd sfd (sc_events s), sc_r_tp := sc_r_tp s @ [(ep_sfd, sfd)]\<rparr>"

definition sc_write_callback :: "sfd \<Rightarrow> sfd \<Rightarrow> 'cb SocketClient \<Rightarrow> 'cb SocketClient" where
  "sc_write_callback ep_sfd sfd s =
     s\<lparr>sc_events := toggle EPOLLOUT ep_sfd sfd (sc_events s), sc_w_tp := sc_w_tp s @ [(ep_sfd, sfd)]\<rparr>"

definition sc_process_event :: "u64 \<Rightarrow> sfd \<Rightarrow> u32 \<times> sfd \<Rightarrow> 'cb SocketClient \<Rightarrow> 'cb SocketClient" where
  "sc_process_event now ep_sfd ev s =
     (case ev of (events, fd) \<Rightarrow>
        if events AND EPOLLERR \<noteq> 0 \<or> events AND EPOLLHUP \<noteq> 0
        then (sc_a_zombied now fd s)\<lparr>sc_events := log_call (Close fd) (log_call (Close ep_sfd) (sc_events s))\<rparr>
        else let s1 = (if events AND EPOLLIN \<noteq> 0 then sc_read_callback ep_sfd fd s else s)
             in if events AND EPOLLOUT \<noteq> 0 then sc_write_callback ep_sfd fd s1 else s1)"

text \<open>One turn of the loop; \<open>None\<close> is a failed \<^verbatim>\<open>epoll_wait\<close>, which ends it.\<close>

definition sc_process_epoll_events ::
  "u64 \<Rightarrow> sfd \<Rightarrow> (u32 \<times> sfd) list option \<Rightarrow> 'cb SocketClient \<Rightarrow> 'cb SocketClient" where
  "sc_process_epoll_events now ep_sfd n_events s =
     (case n_events of
        None \<Rightarrow> s\<lparr>sc_events := log_call (Close ep_sfd) (sc_events s)\<rparr>
      | Some evs \<Rightarrow> fold (sc_process_event now ep_sfd) evs s)"

subsection \<open>Reading and writing\<close>

text \<open>The callback of the reader of \<open>sfd\<close>: look up who asked, call it, forget it.\<close>

definition sc_call_back ::
  "('cb \<Rightarrow> bytes \<Rightarrow> bool) \<Rightarrow> u64 \<Rightarrow> sfd \<Rightarrow> bytes \<Rightarrow> 'cb SocketClient \<Rightarrow> 'cb SocketClient cpp" where
  "sc_call_back throws now sfd msg_frame s =
     cpp_bind (decode_frame (msg_frame @ [EOT])) (\<lambda>(uuid_str, msg_v).
       let cbs = map_at (sc_call_backs s) Map.empty sfd;
           s1 = s\<lparr>sc_call_backs := map_emplace sfd Map.empty (sc_call_backs s)\<rparr>
       in case cbs uuid_str of
            None \<Rightarrow> Ret s1
          | Some da_callback \<Rightarrow>
              let s2 = s1\<lparr>sc_answers := sc_answers s1 @ [(da_callback, msg_v)]\<rparr>;
                  s3 = (if throws da_callback msg_v then sc_a_zombied now sfd s2 else s2)
              in Ret (s3\<lparr>sc_call_backs := (sc_call_backs s3)(sfd \<mapsto> map_erase uuid_str cbs)\<rparr>))"

definition sc_close_read :: "u64 \<Rightarrow> sfd \<Rightarrow> 'cb SocketClient \<Rightarrow> 'cb SocketClient" where
  "sc_close_read now sfd s =
     sc_a_zombied now sfd
       (s\<lparr>sc_rrm := (sc_rrm s)(sfd := map_option (\<lambda>rr. rr\<lparr>rr_valid := False\<rparr>) (sc_rrm s sfd))\<rparr>)"

definition sc_read ::
  "('cb \<Rightarrow> bytes \<Rightarrow> bool) \<Rightarrow> u64 \<Rightarrow> sfd \<Rightarrow> sfd \<Rightarrow> read_ans list \<Rightarrow> 'cb SocketClient \<Rightarrow> 'cb SocketClient cpp" where
  "sc_read throws now ep_sfd sfd as s =
     (let nrr = \<lparr>rr_br = br_new EOT, rr_valid = True\<rparr>;
          rr = map_at (sc_rrm s) nrr sfd;
          s1 = s\<lparr>sc_rrm := map_emplace sfd nrr (sc_rrm s)\<rparr>
      in if rr_valid rr then
           cpp_bind (read_from_sfd sc_events_update (sc_call_back throws now sfd) (sc_close_read now sfd)
               ep_sfd sfd as (rr_br rr, s1)) (\<lambda>(br, s').
             Ret (s'\<lparr>sc_rrm := (sc_rrm s')(sfd := map_option (\<lambda>rr. rr\<lparr>rr_br := br\<rparr>) (sc_rrm s' sfd))\<rparr>))
         else Ret s1)"

definition sc_close_write :: "u64 \<Rightarrow> sfd \<Rightarrow> 'cb SocketClient \<Rightarrow> 'cb SocketClient" where
  "sc_close_write now sfd s =
     sc_a_zombied now sfd
       (s\<lparr>sc_wrm := (sc_wrm s)(sfd := map_option (\<lambda>wr. wr\<lparr>wr_valid := False\<rparr>) (sc_wrm s sfd))\<rparr>)"

definition new_wr :: WriteR where
  "new_wr = \<lparr>wr_bw = bw_new, wr_valid = True\<rparr>"

definition sc_write ::
  "char \<Rightarrow> u64 \<Rightarrow> sfd \<Rightarrow> sfd \<Rightarrow> write_ans list \<Rightarrow> 'cb SocketClient \<Rightarrow> 'cb SocketClient cpp" where
  "sc_write junk now ep_sfd sfd as s =
     (let wr = map_at (sc_wrm s) new_wr sfd;
          s1 = s\<lparr>sc_wrm := map_emplace sfd new_wr (sc_wrm s)\<rparr>
      in if wr_valid wr then
           cpp_bind (write_to_sfd sc_events_update (sc_close_write now sfd) junk ep_sfd sfd as (wr_bw wr, s1))
             (\<lambda>(bw, s').
               Ret (s'\<lparr>sc_wrm := (sc_wrm s')(sfd := map_option (\<lambda>wr. wr\<lparr>wr_bw := bw\<rparr>) (sc_wrm s' sfd))\<rparr>))
         else Ret s1)"

subsection \<open>Sending\<close>

text \<open>
  The non-blocking \<^verbatim>\<open>send_msg\<close> to the host of index \<open>ni\<close>. The array behind \<^verbatim>\<open>uuid_str.c_str()\<close> ends with a
  zero byte; \<open>resp_callback\<close> is \<open>None\<close> for an empty \<^verbatim>\<open>std::function\<close>.
\<close>

definition sc_enqueue :: "bytes \<Rightarrow> sfd \<Rightarrow> sfd \<Rightarrow> 'cb SocketClient \<Rightarrow> (bool \<times> 'cb SocketClient) cpp" where
  "sc_enqueue msg_frame ep_sfd sfd s =
     (let wr = map_at (sc_wrm s) new_wr sfd;
          s1 = s\<lparr>sc_wrm := map_emplace sfd new_wr (sc_wrm s)\<rparr>
      in if wr_valid wr
         then cpp_bind (bw_write msg_frame (wr_bw wr)) (\<lambda>bw.
                Ret (True, s1\<lparr>sc_wrm := (sc_wrm s1)(sfd \<mapsto> wr\<lparr>wr_bw := bw\<rparr>),
                              sc_events := arm EPOLLOUT ep_sfd sfd (sc_events s1)\<rparr>))
         else Ret (False, s1))"

definition sc_register :: "sfd \<Rightarrow> bytes \<Rightarrow> 'cb option \<Rightarrow> 'cb SocketClient \<Rightarrow> 'cb SocketClient" where
  "sc_register sfd uuid_str resp_callback s =
     (case resp_callback of
        None \<Rightarrow> s
      | Some cb \<Rightarrow> s\<lparr>sc_call_backs := (sc_call_backs s)(sfd \<mapsto>
                       (map_at (sc_call_backs s) Map.empty sfd)(uuid_str \<mapsto> cb)),
                     sc_regs := sc_regs s @ [cb]\<rparr>)"

definition sc_send_msg ::
  "char \<Rightarrow> bytes \<Rightarrow> nat \<Rightarrow> u32 \<Rightarrow> 'cb option \<Rightarrow> bytes \<Rightarrow> 'cb SocketClient \<Rightarrow> (bool \<times> 'cb SocketClient) cpp" where
  "sc_send_msg junk data msg_size ni resp_callback uuid_str s =
     cpp_bind (rd_at (sc_desired_hosts s) (unat ni)) (\<lambda>host.
       let status = map_at (sc_h_status s) hs_default host;
           s1 = s\<lparr>sc_h_status := map_emplace host hs_default (sc_h_status s)\<rparr>
       in if is_healthy status then
            let s2 = sc_register (hs_sfd status) uuid_str resp_callback s1
            in cpp_bind (pack_frame_ptr (uuid_str @ [CHR 0x00]) data msg_size
                   (replicate (unat (frame_size msg_size)) junk)) (\<lambda>msg_frame.
                 sc_enqueue msg_frame (hs_ep_sfd status) (hs_sfd status) s2)
          else Ret (False, s1))"

text \<open>The non-blocking \<^verbatim>\<open>send_msg\<close> by key; \<open>out\<close> is the text of the fresh uuid.\<close>

definition route :: "bytes \<Rightarrow> nat \<Rightarrow> u32 cpp" where
  "route hash_key n =
     cpp_bind (hash_it hash_key) (\<lambda>hash. if n = 0 then Undef else Ret (of_nat (unat hash mod n)))"

definition sc_send_key ::
  "char \<Rightarrow> bytes \<Rightarrow> nat \<Rightarrow> bytes \<Rightarrow> 'cb option \<Rightarrow> bytes \<Rightarrow> 'cb SocketClient \<Rightarrow> (bool \<times> 'cb SocketClient) cpp" where
  "sc_send_key junk data msg_size hash_key resp_callback out s =
     cpp_bind (route hash_key (length (sc_desired_hosts s))) (\<lambda>ni.
     cpp_bind (build_uuid_str out) (\<lambda>uuid_str.
       sc_send_msg junk data msg_size ni resp_callback uuid_str s))"

text \<open>
  The blocking \<^verbatim>\<open>send_msg\<close>. The other threads may act between any two of its steps: \<open>between\<close> is
  what they do after the descriptor was read and before the message is sent, \<open>wait success\<close> what
  they do from the send to the end of the wait, which a failed send skips. The callback \<open>cb\<close> stores
  the reply in \<^verbatim>\<open>result\<close>, with \<open>None\<close> for a \<^verbatim>\<open>result\<close> that was not assigned, and sets
  \<^verbatim>\<open>success\<close>.
\<close>

definition reply_of :: "'cb \<Rightarrow> nat \<Rightarrow> 'cb SocketClient \<Rightarrow> bytes option" where
  "reply_of cb n s =
     (case filter (\<lambda>a. fst a = cb) (drop n (sc_answers s)) of
        [] \<Rightarrow> None | a # as \<Rightarrow> Some (snd (last (a # as))))"

definition sc_unregister :: "sfd \<Rightarrow> bytes \<Rightarrow> 'cb SocketClient \<Rightarrow> 'cb SocketClient" where
  "sc_unregister sfd uuid_str s =
     s\<lparr>sc_call_backs := (sc_call_backs s)(sfd \<mapsto> map_erase uuid_str (map_at (sc_call_backs s) Map.empty sfd))\<rparr>"

definition sc_send_block ::
  "char \<Rightarrow> bytes \<Rightarrow> nat \<Rightarrow> u32 \<Rightarrow> 'cb \<Rightarrow> bytes \<Rightarrow> ('cb SocketClient \<Rightarrow> 'cb SocketClient cpp) \<Rightarrow>
   (bool \<Rightarrow> 'cb SocketClient \<Rightarrow> 'cb SocketClient cpp) \<Rightarrow>
   'cb SocketClient \<Rightarrow> ((bool \<times> bytes option) \<times> 'cb SocketClient) cpp" where
  "sc_send_block junk data msg_size ni cb out between wait s =
     cpp_bind (rd_at (sc_desired_hosts s) (unat ni)) (\<lambda>host.
       let sfd = hs_sfd (map_at (sc_h_status s) hs_default host);
           s0 = s\<lparr>sc_h_status := map_emplace host hs_default (sc_h_status s)\<rparr>
       in cpp_bind (build_uuid_str out) (\<lambda>uuid_str.
          cpp_bind (between s0) (\<lambda>s1.
          cpp_bind (sc_send_msg junk data msg_size ni (Some cb) uuid_str s1) (\<lambda>(sent, s2).
          cpp_bind (wait sent s2) (\<lambda>s3.
            let success = (sent \<or> reply_of cb (length (sc_answers s2)) s3 \<noteq> None)
            in Ret ((success, reply_of cb (length (sc_answers s1)) s3), sc_unregister sfd uuid_str s3))))))"

definition sc_send_block_key ::
  "char \<Rightarrow> bytes \<Rightarrow> nat \<Rightarrow> bytes \<Rightarrow> 'cb \<Rightarrow> bytes \<Rightarrow> ('cb SocketClient \<Rightarrow> 'cb SocketClient cpp) \<Rightarrow>
   (bool \<Rightarrow> 'cb SocketClient \<Rightarrow> 'cb SocketClient cpp) \<Rightarrow>
   'cb SocketClient \<Rightarrow> ((bool \<times> bytes option) \<times> 'cb SocketClient) cpp" where
  "sc_send_block_key junk data msg_size hash_key cb out between wait s =
     cpp_bind (route hash_key (length (sc_desired_hosts s))) (\<lambda>ni.
       sc_send_block junk data msg_size ni cb out between wait s)"

subsection \<open>Steps\<close>

text \<open>
  The loops that make connections, between two runs of the loop body: \<^verbatim>\<open>connect_to_hosts\<close> with the
  hosts it has left and its counter, \<^verbatim>\<open>retry_conn\<close> with its index and the successes so far,
  \<^verbatim>\<open>reap_resources\<close> with the zombies it has left and those it took, and the same with the sections
  of \<^verbatim>\<open>close_n_clean\<close> that are left for a zombie, before it reconnects to the node of the zombie.
\<close>

datatype caller =
    Connecting "bytes list" u32
  | Retrying nat "nat list"
  | Reaping "sfd list" "sfd list"
  | Reconnecting "clean_pc list" bytes sfd sfd "sfd list" "sfd list"

datatype 'cb thread =
    Loop caller
  | In_make caller "mc_pc + bool"
  | Send_register HostStatus bytes "'cb option" bytes nat
  | Send_enqueue HostStatus bytes bytes nat

type_synonym 'cb sc_state = "'cb SocketClient \<times> 'cb thread list"

text \<open>\<^verbatim>\<open>retry_conn\<close> holds \<^verbatim>\<open>eh_mutex\<close> and \<^verbatim>\<open>reap_resources\<close> holds \<^verbatim>\<open>z_mutex\<close> during their passes.\<close>

fun caller_of :: "'cb thread \<Rightarrow> caller option" where
  "caller_of (Loop c) = Some c"
| "caller_of (In_make c r) = Some c"
| "caller_of t = None"

fun holds_eh :: "caller \<Rightarrow> bool" where
  "holds_eh (Retrying i sci) = True"
| "holds_eh c = False"

fun holds_z :: "caller \<Rightarrow> bool" where
  "holds_z (Reaping order zv) = True"
| "holds_z (Reconnecting ks node ep_sfd sfd order zv) = True"
| "holds_z c = False"

definition eh_held :: "'cb thread list \<Rightarrow> bool" where
  "eh_held ts \<longleftrightarrow> list_ex (\<lambda>t. case caller_of t of None \<Rightarrow> False | Some c \<Rightarrow> holds_eh c) ts"

definition z_held :: "'cb thread list \<Rightarrow> bool" where
  "z_held ts \<longleftrightarrow> list_ex (\<lambda>t. case caller_of t of None \<Rightarrow> False | Some c \<Rightarrow> holds_z c) ts"

text \<open>The node a loop connects to next, if any.\<close>

fun next_node :: "caller \<Rightarrow> 'cb SocketClient \<Rightarrow> bytes option" where
  "next_node (Connecting [] n) s = None"
| "next_node (Connecting (t # ts) n) s = Some t"
| "next_node (Retrying i sci) s = (if i < length (sc_e_hosts s) then Some (sc_e_hosts s ! i) else None)"
| "next_node (Reaping order zv) s = None"
| "next_node (Reconnecting ks node ep_sfd sfd order zv) s = (if ks = [] then Some node else None)"

text \<open>What a loop does with the result of \<^verbatim>\<open>make_connection\<close>, and whether this takes \<^verbatim>\<open>eh_mutex\<close>.\<close>

definition push_host :: "bytes \<Rightarrow> 'cb SocketClient \<Rightarrow> 'cb SocketClient" where
  "push_host node s = s\<lparr>sc_e_hosts := sc_e_hosts s @ [node]\<rparr>"

fun made :: "caller \<Rightarrow> bool \<Rightarrow> 'cb SocketClient \<Rightarrow> caller \<times> 'cb SocketClient" where
  "made (Connecting (t # ts) n) ok s = (if ok then (Connecting ts (n + 1), s) else (Connecting ts n, push_host t s))"
| "made (Retrying i sci) ok s = (Retrying (Suc i) (if ok then sci @ [i] else sci), s)"
| "made (Reconnecting [] node ep_sfd sfd order zv) ok s = (Reaping order (zv @ [sfd]), if ok then s else push_host node s)"
| "made c ok s = (c, s)"

definition pushes :: "caller \<Rightarrow> bool \<Rightarrow> bool" where
  "pushes c ok \<longleftrightarrow> \<not> ok \<and> \<not> holds_eh c"

text \<open>
  A unit of work that takes \<^verbatim>\<open>z_mutex\<close> cannot end while the reaper holds it. Such a unit marks a
  descriptor and may have made a resource invalid; one that did not leaves the marks alone and
  makes nothing invalid.
\<close>

definition no_mark :: "'cb SocketClient \<Rightarrow> 'cb SocketClient \<Rightarrow> bool" where
  "no_mark s s' \<longleftrightarrow> sc_zm s' = sc_zm s
     \<and> (\<forall>fd rr. sc_rrm s' fd = Some rr \<longrightarrow> \<not> rr_valid rr \<longrightarrow> (\<exists>rr0. sc_rrm s fd = Some rr0 \<and> \<not> rr_valid rr0))
     \<and> (\<forall>fd wr. sc_wrm s' fd = Some wr \<longrightarrow> \<not> wr_valid wr \<longrightarrow> (\<exists>wr0. sc_wrm s fd = Some wr0 \<and> \<not> wr_valid wr0))"

text \<open>The reaper's look at a zombie: an expired one is cleaned and its node reconnected next.\<close>

definition sc_reap_look :: "u64 \<Rightarrow> sfd \<Rightarrow> sfd list \<Rightarrow> sfd list \<Rightarrow> 'cb SocketClient \<Rightarrow> caller \<times> 'cb SocketClient" where
  "sc_reap_look now sfd order zv s =
     (case sc_zm s sfd of
        None \<Rightarrow> (Reaping order zv, s)
      | Some death \<Rightarrow>
          if expired now death then
            let node = map_at (sc_conns s) [] sfd;
                ep_sfd = hs_ep_sfd (map_at (sc_h_status s) hs_default node);
                s1 = s\<lparr>sc_h_status := map_emplace node hs_default (sc_h_status s)\<rparr>
            in (Reconnecting clean_sections node ep_sfd sfd order zv, s1)
          else (Reaping order zv, s))"

text \<open>The start of the non-blocking \<^verbatim>\<open>send_msg\<close>: the status of the host.\<close>

definition sc_send_start ::
  "u32 \<Rightarrow> 'cb SocketClient \<Rightarrow> (HostStatus \<times> 'cb SocketClient) cpp" where
  "sc_send_start ni s =
     cpp_bind (rd_at (sc_desired_hosts s) (unat ni)) (\<lambda>host.
       Ret (map_at (sc_h_status s) hs_default host,
            s\<lparr>sc_h_status := map_emplace host hs_default (sc_h_status s)\<rparr>))"

datatype sc_label =
    C_connect | C_retry | C_reap "sfd list"
  | C_dial bytes | C_section | C_made bool | C_look sfd | C_clean sfd | C_end
  | C_events sfd | C_read sfd | C_write sfd
  | C_send bytes | C_register bytes | C_enqueue bytes | C_unregister bytes

text \<open>
  \<open>sc_unregister_step\<close> is the end of a blocking \<^verbatim>\<open>send_msg\<close>, whose start is a \<open>sc_send_step\<close> with its own
  callback.
\<close>

inductive sc_step :: "('cb \<Rightarrow> bytes \<Rightarrow> bool) \<Rightarrow> char \<Rightarrow> 'cb sc_state \<Rightarrow> sc_label \<Rightarrow> 'cb sc_state \<Rightarrow> bool"
  for throws junk where
  sc_connect_step: "sc_step throws junk (s, ts) C_connect (s, Loop (Connecting (sc_desired_hosts s) 0) # ts)"
| sc_retry_step: "\<not> eh_held ts \<Longrightarrow> sc_step throws junk (s, ts) C_retry (s, Loop (Retrying 0 []) # ts)"
| sc_reap_step: "\<not> z_held ts \<Longrightarrow> distinct order \<Longrightarrow> set order = dom (sc_zm s) \<Longrightarrow>
    sc_step throws junk (s, ts) (C_reap order) (s, Loop (Reaping order []) # ts)"
| sc_dial_step: "next_node c s = Some node \<Longrightarrow> mc_start a node s = Ret (pc, s') \<Longrightarrow>
    sc_step throws junk (s, ts1 @ Loop c # ts2) (C_dial node) (s', ts1 @ In_make c (Inl pc) # ts2)"
| sc_section_step: "mc_section pc s = (r, s') \<Longrightarrow>
    sc_step throws junk (s, ts1 @ In_make c (Inl pc) # ts2) C_section (s', ts1 @ In_make c r # ts2)"
| sc_made_step: "pushes c ok \<longrightarrow> \<not> eh_held (ts1 @ ts2) \<Longrightarrow> made c ok s = (c', s') \<Longrightarrow>
    sc_step throws junk (s, ts1 @ In_make c (Inr ok) # ts2) (C_made ok) (s', ts1 @ Loop c' # ts2)"
| sc_look_step: "sc_reap_look now sfd order zv s = (c', s') \<Longrightarrow>
    sc_step throws junk (s, ts1 @ Loop (Reaping (sfd # order) zv) # ts2) (C_look sfd) (s', ts1 @ Loop c' # ts2)"
| sc_clean_step: "sc_step throws junk (s, ts1 @ Loop (Reconnecting (k # ks) node ep_sfd sfd order zv) # ts2) (C_clean sfd)
    (clean_section ep_sfd sfd k s, ts1 @ Loop (Reconnecting ks node ep_sfd sfd order zv) # ts2)"
| sc_connected_step: "sc_step throws junk (s, ts1 @ Loop (Connecting [] n) # ts2) C_end (s, ts1 @ ts2)"
| sc_retried_step: "length (sc_e_hosts s) \<le> i \<Longrightarrow>
    for_u32 (length sci) (\<lambda>i hosts. erase_at (sci ! i) hosts) (sc_e_hosts s) = Ret hosts \<Longrightarrow>
    sc_step throws junk (s, ts1 @ Loop (Retrying i sci) # ts2) C_end (s\<lparr>sc_e_hosts := hosts\<rparr>, ts1 @ ts2)"
| sc_reaped_step: "sc_step throws junk (s, ts1 @ Loop (Reaping [] zv) # ts2) C_end
    (s\<lparr>sc_zm := fold map_erase zv (sc_zm s)\<rparr>, ts1 @ ts2)"
| sc_events_step: "s' = sc_process_epoll_events now ep_sfd evs s \<Longrightarrow> z_held ts \<longrightarrow> no_mark s s' \<Longrightarrow>
    sc_step throws junk (s, ts) (C_events ep_sfd) (s', ts)"
| sc_read_step: "sc_r_tp s = before @ (ep_sfd, sfd) # after \<Longrightarrow>
    sc_read throws now ep_sfd sfd as (s\<lparr>sc_r_tp := before @ after\<rparr>) = Ret s' \<Longrightarrow> z_held ts \<longrightarrow> no_mark s s' \<Longrightarrow>
    sc_step throws junk (s, ts) (C_read sfd) (s', ts)"
| sc_write_step: "sc_w_tp s = before @ (ep_sfd, sfd) # after \<Longrightarrow>
    sc_write junk now ep_sfd sfd as (s\<lparr>sc_w_tp := before @ after\<rparr>) = Ret s' \<Longrightarrow> z_held ts \<longrightarrow> no_mark s s' \<Longrightarrow>
    sc_step throws junk (s, ts) (C_write sfd) (s', ts)"
| sc_send_step: "sc_send_start ni s = Ret (status, s') \<Longrightarrow>
    sc_step throws junk (s, ts) (C_send uuid_str)
      (s', if is_healthy status then Send_register status uuid_str cb data n # ts else ts)"
| sc_register_step: "sc_step throws junk (s, ts1 @ Send_register status uuid_str cb data n # ts2) (C_register uuid_str)
    (sc_register (hs_sfd status) uuid_str cb s, ts1 @ Send_enqueue status uuid_str data n # ts2)"
| sc_enqueue_step: "pack_frame_ptr (uuid_str @ [CHR 0x00]) data n (replicate (unat (frame_size n)) junk) = Ret msg_frame \<Longrightarrow>
    sc_enqueue msg_frame (hs_ep_sfd status) (hs_sfd status) s = Ret (ok, s') \<Longrightarrow>
    sc_step throws junk (s, ts1 @ Send_enqueue status uuid_str data n # ts2) (C_enqueue uuid_str) (s', ts1 @ ts2)"
| sc_unregister_step: "sc_step throws junk (s, ts) (C_unregister uuid_str) (sc_unregister sfd uuid_str s, ts)"

definition sc_init :: "'cb sc_state \<Rightarrow> bool" where
  "sc_init x \<longleftrightarrow> x = (sc_new (sc_desired_hosts (fst x)), [])"

interpretation sce: epoll_owner sc_events sc_events_update
  by unfold_locales simp

subsection \<open>Connections: the invariant\<close>

definition sc_conn_ok :: "'cb SocketClient \<Rightarrow> bool" where
  "sc_conn_ok s \<longleftrightarrow>
     (\<forall>sfd rr. sc_rrm s sfd = Some rr \<longrightarrow> reader_ok EOT (rr_br rr)) \<and>
     (\<forall>sfd rr. sc_rrm s sfd = Some rr \<longrightarrow> \<not> rr_valid rr \<longrightarrow> sc_zm s sfd \<noteq> None) \<and>
     (\<forall>sfd wr. sc_wrm s sfd = Some wr \<longrightarrow> \<not> wr_valid wr \<longrightarrow> sc_zm s sfd \<noteq> None) \<and>
     masks_ok (sc_events s)"

lemma sc_conn_ok_other [simp]:
  "sc_conn_ok (s\<lparr>sc_call_backs := x\<rparr>) = sc_conn_ok s" "sc_conn_ok (s\<lparr>sc_answers := y\<rparr>) = sc_conn_ok s"
  "sc_conn_ok (s\<lparr>sc_regs := r\<rparr>) = sc_conn_ok s" "sc_conn_ok (s\<lparr>sc_h_status := h\<rparr>) = sc_conn_ok s"
  "sc_conn_ok (s\<lparr>sc_conns := c\<rparr>) = sc_conn_ok s" "sc_conn_ok (s\<lparr>sc_e_hosts := e\<rparr>) = sc_conn_ok s"
  "sc_conn_ok (s\<lparr>sc_r_tp := q\<rparr>) = sc_conn_ok s" "sc_conn_ok (s\<lparr>sc_w_tp := q\<rparr>) = sc_conn_ok s"
  by (simp_all add: sc_conn_ok_def)

lemma sc_conn_ok_events: "sc_conn_ok s \<Longrightarrow> masks_ok (f (sc_events s)) \<Longrightarrow> sc_conn_ok (sc_events_update f s)"
  by (simp add: sc_conn_ok_def)

lemma sc_conn_ok_arm:
  "sc_conn_ok s \<Longrightarrow> ev \<in> {EPOLLIN, EPOLLOUT} \<Longrightarrow> sc_conn_ok (sc_events_update (arm ev epf sfd) s)"
  "sc_conn_ok s \<Longrightarrow> ev \<in> {EPOLLIN, EPOLLOUT} \<Longrightarrow> sc_conn_ok (sc_events_update (toggle ev epf sfd) s)"
  by (rule sc_conn_ok_events; auto simp: sc_conn_ok_def intro: masks_ok_intros)+

lemma sc_conn_ok_zombied: "sc_conn_ok s \<Longrightarrow> sc_conn_ok (sc_a_zombied now sfd s)"
  by (simp add: sc_conn_ok_def sc_a_zombied_def Let_def)

lemma sc_conn_ok_close:
  "sc_conn_ok s \<Longrightarrow> sc_conn_ok (sc_close_read now sfd s)"
  "sc_conn_ok s \<Longrightarrow> sc_conn_ok (sc_close_write now sfd s)"
  by (auto simp: sc_conn_ok_def sc_close_read_def sc_close_write_def sc_a_zombied_def Let_def split: if_splits)

lemma sc_conn_ok_emplace:
  "sc_conn_ok s \<Longrightarrow> reader_ok EOT (rr_br rr) \<Longrightarrow> rr_valid rr \<Longrightarrow> sc_conn_ok (s\<lparr>sc_rrm := map_emplace sfd rr (sc_rrm s)\<rparr>)"
  "sc_conn_ok s \<Longrightarrow> wr_valid wr \<Longrightarrow> sc_conn_ok (s\<lparr>sc_wrm := map_emplace sfd wr (sc_wrm s)\<rparr>)"
  by (auto simp: sc_conn_ok_def map_emplace_def)

lemma sc_conn_ok_store:
  "sc_conn_ok s \<Longrightarrow> reader_ok EOT br \<Longrightarrow>
     sc_conn_ok (s\<lparr>sc_rrm := (sc_rrm s)(sfd := map_option (\<lambda>rr. rr\<lparr>rr_br := br\<rparr>) (sc_rrm s sfd))\<rparr>)"
  "sc_conn_ok s \<Longrightarrow>
     sc_conn_ok (s\<lparr>sc_wrm := (sc_wrm s)(sfd := map_option (\<lambda>wr. wr\<lparr>wr_bw := bw\<rparr>) (sc_wrm s sfd))\<rparr>)"
  by (auto simp: sc_conn_ok_def split: if_splits)

lemma sc_conn_ok_call_back:
  "sc_conn_ok s \<Longrightarrow> sc_call_back throws now fd f s = Ret s' \<Longrightarrow> sc_conn_ok s'"
  by (auto simp: sc_call_back_def cpp_bind_Ret_iff Let_def sc_conn_ok_zombied split: option.splits if_splits)

lemma make_connection_eq:
  "make_connection a node s =
     (let hp = split node CHR '':''
      in cpp_bind (rd_at hp 0) (\<lambda>host.
         cpp_bind (rd_at hp 1) (\<lambda>port_str.
           case stoi port_str of
             Inl e \<Rightarrow> Ret (False, set_status node (no_conn a) s)
           | Inr port \<Rightarrow>
               let sfd = mc_socket a
               in if sfd < 0 then Ret (False, set_status node (no_conn a) s)
                  else case mc_h_addr a of
                    None \<Rightarrow> Undef
                  | Some h_addr \<Rightarrow>
                      let ev = log_call (Connect sfd h_addr (htons (ucast (word_of_int port :: u32)))) (sc_events s)
                      in if mc_connect a < 0
                         then Ret (False, set_status node (no_conn a) (s\<lparr>sc_events := ev\<rparr>))
                         else
                           cpp_bind (unblock_socket (mc_getfl a) (mc_setfl a) sfd ev) (\<lambda>ev.
                           cpp_bind (create_and_config_epoll (mc_epoll_create a) (mc_epoll_ctl a) sfd ev)
                             (\<lambda>(ep_sfd, ev).
                               Ret (True, set_status node
                                 \<lparr>is_healthy = True, hs_sfd = sfd, hs_ep_sfd = ep_sfd\<rparr>
                                 (s\<lparr>sc_conns := (sc_conns s)(sfd \<mapsto> node),
                                    sc_events := ev\<lparr>sfd_events := (sfd_events ev)(sfd \<mapsto> EPOLLIN)\<rparr>\<rparr>)))))))"
proof -
  have "cpp_bind (create_and_config_epoll (mc_epoll_create a) (mc_epoll_ctl a) (mc_socket a) ev)
      (\<lambda>(ep_sfd, ev). Ret (mc_rest (Mc_conns node (mc_socket a) ep_sfd) (s\<lparr>sc_events := ev\<rparr>))) =
    cpp_bind (create_and_config_epoll (mc_epoll_create a) (mc_epoll_ctl a) (mc_socket a) ev)
      (\<lambda>(ep_sfd, ev). Ret (True, set_status node \<lparr>is_healthy = True, hs_sfd = mc_socket a, hs_ep_sfd = ep_sfd\<rparr>
        (s\<lparr>sc_conns := (sc_conns s)(mc_socket a \<mapsto> node),
           sc_events := ev\<lparr>sfd_events := (sfd_events ev)(mc_socket a \<mapsto> EPOLLIN)\<rparr>\<rparr>)))" for ev
    by (simp add: mc_conns_def mc_events_def set_mask_def conn_status_def set_status_def)
  then show ?thesis
    by (simp add: make_connection_def mc_start_def Let_def cpp_bind_assoc cpp_bind_branch
        case_prod_unfold cong: option.case_cong sum.case_cong if_cong)
qed

text \<open>The three ways \<^verbatim>\<open>make_connection\<close> returns.\<close>

lemma make_connection_cases:
  assumes "make_connection a node s = Ret (ok, s')"
  obtains (failed) "\<not> ok" "s' = set_status node (no_conn a) s"
  | (refused) h pt where "\<not> ok" "s' = set_status node (no_conn a)
      (s\<lparr>sc_events := log_call (Connect (mc_socket a) h pt) (sc_events s)\<rparr>)"
  | (connected) h pt fl where "ok" "0 \<le> mc_socket a"
      "s' = set_status node \<lparr>is_healthy = True, hs_sfd = mc_socket a, hs_ep_sfd = mc_epoll_create a\<rparr>
        (s\<lparr>sc_conns := (sc_conns s)(mc_socket a \<mapsto> node),
           sc_events := (log_call (Epoll_add (mc_epoll_create a) (mc_socket a) EPOLLIN)
             (log_call (Fcntl_setfl (mc_socket a) fl) (log_call (Connect (mc_socket a) h pt) (sc_events s))))
             \<lparr>sfd_events := (sfd_events (sc_events s))(mc_socket a \<mapsto> EPOLLIN)\<rparr>\<rparr>)"
proof -
  obtain ps where body: "(case stoi ps of Inl e \<Rightarrow> Ret (False, set_status node (no_conn a) s)
      | Inr port \<Rightarrow> let sfd = mc_socket a in if sfd < 0 then Ret (False, set_status node (no_conn a) s)
        else case mc_h_addr a of None \<Rightarrow> Undef | Some h_addr \<Rightarrow>
          let ev = log_call (Connect sfd h_addr (htons (ucast (word_of_int port :: u32)))) (sc_events s)
          in if mc_connect a < 0 then Ret (False, set_status node (no_conn a) (s\<lparr>sc_events := ev\<rparr>))
             else cpp_bind (unblock_socket (mc_getfl a) (mc_setfl a) sfd ev) (\<lambda>ev.
               cpp_bind (create_and_config_epoll (mc_epoll_create a) (mc_epoll_ctl a) sfd ev) (\<lambda>(ep_sfd, ev).
                 Ret (True, set_status node \<lparr>is_healthy = True, hs_sfd = sfd, hs_ep_sfd = ep_sfd\<rparr>
                   (s\<lparr>sc_conns := (sc_conns s)(sfd \<mapsto> node),
                      sc_events := ev\<lparr>sfd_events := (sfd_events ev)(sfd \<mapsto> EPOLLIN)\<rparr>\<rparr>))))) = Ret (ok, s')"
    using assms unfolding make_connection_eq cpp_bind_Ret_iff Let_def by blast
  show thesis
  proof (cases "(\<exists>e. stoi ps = Inl e) \<or> mc_socket a < 0")
    case True
    then show thesis using body failed by (cases "stoi ps") auto
  next
    case False
    then obtain port where "stoi ps = Inr port" "0 \<le> mc_socket a" by (cases "stoi ps") auto
    then show thesis
      using body refused connected
      by (cases "mc_h_addr a"; cases "mc_connect a < 0")
        (auto simp: Let_def cpp_bind_Ret_iff create_and_config_epoll_def dest!: unblock_socket_Ret split: if_splits)
  qed
qed

text \<open>What it leaves alone.\<close>

lemma make_connection_frame:
  assumes "make_connection a node s = Ret (ok, s')"
  shows "sc_rrm s' = sc_rrm s" "sc_wrm s' = sc_wrm s" "sc_zm s' = sc_zm s" "sc_e_hosts s' = sc_e_hosts s"
    "sc_call_backs s' = sc_call_backs s" "sc_answers s' = sc_answers s" "sc_regs s' = sc_regs s"
    "sc_desired_hosts s' = sc_desired_hosts s"
    "\<exists>st. sc_h_status s' = (sc_h_status s)(node \<mapsto> st) \<and> is_healthy st = ok"
  using assms by (cases rule: make_connection_cases; force simp: set_status_def no_conn_def)+

lemma make_connection_calls:
  assumes "make_connection a node s = Ret (ok, s')"
  shows "\<exists>more. calls (sc_events s') = calls (sc_events s) @ more"
  using assms by (cases rule: make_connection_cases) (auto simp: set_status_def)

text \<open>The parts of \<^verbatim>\<open>make_connection\<close> and of the loops around it.\<close>

lemma mc_start_frame:
  assumes "mc_start a node s = Ret (pc, s')"
  shows "\<exists>cs. s' = s\<lparr>sc_events := (sc_events s)\<lparr>calls := calls (sc_events s) @ cs\<rparr>\<rparr>"
proof -
  let ?hp = "split node CHR '':''"
  have keep: "\<exists>cs. s = s\<lparr>sc_events := (sc_events s)\<lparr>calls := calls (sc_events s) @ cs\<rparr>\<rparr>"
    by (intro exI [of _ "[]"]) simp
  have len: "Suc 0 < length ?hp" using assms by (cases "Suc 0 < length ?hp") (auto simp: mc_start_def cpp_bind_Ret_iff)
  then have rds: "rd_at ?hp 0 = Ret (?hp ! 0)" "rd_at ?hp (Suc 0) = Ret (?hp ! Suc 0)"
    by (auto intro!: rd_at_in)
  show ?thesis
  proof (cases "(\<exists>e. stoi (?hp ! Suc 0) = Inl e) \<or> mc_socket a < 0")
    case True
    then have "s' = s" using assms rds by (cases "stoi (?hp ! Suc 0)") (auto simp: mc_start_def Let_def)
    then show ?thesis using keep by simp
  next
    case False
    then obtain port where "stoi (?hp ! Suc 0) = Inr port" "0 \<le> mc_socket a" by (cases "stoi (?hp ! Suc 0)") auto
    then show ?thesis
      using assms rds by (cases "mc_h_addr a"; cases "mc_connect a < 0")
        (auto simp: mc_start_def Let_def cpp_bind_Ret_iff create_and_config_epoll_def log_call_def dest!: unblock_socket_Ret split: if_splits)
  qed
qed

lemma mc_section_cases:
  assumes "mc_section pc s = (r, s')"
  obtains h c where "s' = s\<lparr>sc_h_status := h\<rparr> \<or> s' = s\<lparr>sc_conns := c\<rparr> \<or> (\<exists>sfd. s' = mc_events sfd s)"
  using assms by (cases pc) (auto simp: set_status_def mc_conns_def)

lemma made_cases:
  assumes "made c ok s = (c', s')"
  obtains h where "s' = s\<lparr>sc_e_hosts := h\<rparr>"
proof -
  have keep: "\<exists>h. s = s\<lparr>sc_e_hosts := h\<rparr>" by (rule exI [of _ "sc_e_hosts s"]) simp
  have "\<exists>h. s' = s\<lparr>sc_e_hosts := h\<rparr>"
    using assms keep by (induction c ok s rule: made.induct) (auto simp: push_host_def split: if_splits)
  then show thesis using that by blast
qed

lemma sc_close_n_clean_eq:
  "sc_close_n_clean ep_sfd sfd s =
     s\<lparr>sc_conns := map_erase sfd (sc_conns s), sc_call_backs := map_erase sfd (sc_call_backs s),
       sc_rrm := map_erase sfd (sc_rrm s), sc_wrm := map_erase sfd (sc_wrm s),
       sc_events := (log_call (Close ep_sfd) (log_call (Close sfd) (sc_events s)))
         \<lparr>sfd_events := map_erase sfd (sfd_events (sc_events s))\<rparr>\<rparr>"
  by (simp add: sc_close_n_clean_def clean_sections_def log_call_def)

lemma sc_conn_ok_clean: "sc_conn_ok s \<Longrightarrow> sc_conn_ok (clean_section ep sfd k s)"
  using masks_ok_erase [of "sc_events s" sfd] by (cases k) (auto simp: sc_conn_ok_def)

lemma sc_conn_ok_read:
  assumes "sc_conn_ok s" and "sc_read throws now epf sfd as s = Ret s'"
  shows "sc_conn_ok s'"
proof -
  let ?nrr = "\<lparr>rr_br = br_new EOT, rr_valid = True\<rparr>"
  let ?rr = "map_at (sc_rrm s) ?nrr sfd" and ?s = "s\<lparr>sc_rrm := map_emplace sfd ?nrr (sc_rrm s)\<rparr>"
  have ok: "sc_conn_ok ?s" using assms(1) by (simp add: sc_conn_ok_emplace)
  have "reader_ok EOT (rr_br ?rr)"
    using assms(1) by (cases "sc_rrm s sfd") (auto simp: sc_conn_ok_def)
  show ?thesis
  proof (cases "rr_valid ?rr")
    case True
    then obtain br s1 where rd: "read_from_sfd sc_events_update (sc_call_back throws now sfd)
        (sc_close_read now sfd) epf sfd as (rr_br ?rr, ?s) = Ret (br, s1)"
      and s': "s' = s1\<lparr>sc_rrm := (sc_rrm s1)(sfd := map_option (\<lambda>rr. rr\<lparr>rr_br := br\<rparr>) (sc_rrm s1 sfd))\<rparr>"
      using assms(2) by (auto simp: sc_read_def Let_def cpp_bind_Ret_iff)
    from read_from_sfd_inv [OF rd \<open>reader_ok EOT (rr_br ?rr)\<close>, of sc_conn_ok] ok sc_conn_ok_call_back
    obtain u where "reader_ok EOT br" "sc_conn_ok u"
      "s1 = sc_events_update (arm EPOLLIN epf sfd) u \<or> s1 = sc_close_read now sfd u" by blast
    then show ?thesis unfolding s' by (intro sc_conn_ok_store) (auto intro: sc_conn_ok_arm sc_conn_ok_close)
  qed (use assms(2) ok in \<open>simp add: sc_read_def Let_def\<close>)
qed

lemma sc_conn_ok_write:
  assumes "sc_conn_ok s" and "sc_write junk now epf sfd as s = Ret s'"
  shows "sc_conn_ok s'"
proof -
  let ?wr = "map_at (sc_wrm s) new_wr sfd" and ?s = "s\<lparr>sc_wrm := map_emplace sfd new_wr (sc_wrm s)\<rparr>"
  have ok: "sc_conn_ok ?s" using assms(1) by (simp add: sc_conn_ok_emplace new_wr_def)
  show ?thesis
  proof (cases "wr_valid ?wr")
    case True
    then obtain bw s1 where
      wt: "write_to_sfd sc_events_update (sc_close_write now sfd) junk epf sfd as (wr_bw ?wr, ?s) = Ret (bw, s1)"
      and s': "s' = s1\<lparr>sc_wrm := (sc_wrm s1)(sfd := map_option (\<lambda>wr. wr\<lparr>wr_bw := bw\<rparr>) (sc_wrm s1 sfd))\<rparr>"
      using assms(2) by (auto simp: sc_write_def Let_def cpp_bind_Ret_iff)
    have "sc_conn_ok s1"
    proof (rule write_to_sfd_inv [OF wt, of sc_conn_ok])
      show "sc_conn_ok (sc_events_update (log_call (Sent sfd bs)) u)" if "sc_conn_ok u" for u bs
        using that by (intro sc_conn_ok_events) (auto simp: sc_conn_ok_def)
    qed (use ok in \<open>auto intro: sc_conn_ok_arm sc_conn_ok_close\<close>)
    then show ?thesis unfolding s' by (rule sc_conn_ok_store)
  qed (use assms(2) ok in \<open>simp add: sc_write_def Let_def\<close>)
qed

lemma sc_conn_ok_enqueue: "sc_conn_ok s \<Longrightarrow> sc_enqueue f epf sfd s = Ret (ok, s') \<Longrightarrow> sc_conn_ok s'"
proof -
  assume ok: "sc_conn_ok s" and enq: "sc_enqueue f epf sfd s = Ret (ok, s')"
  let ?wr = "map_at (sc_wrm s) new_wr sfd" and ?s = "s\<lparr>sc_wrm := map_emplace sfd new_wr (sc_wrm s)\<rparr>"
  have ok': "sc_conn_ok ?s" using ok by (simp add: sc_conn_ok_emplace new_wr_def)
  show ?thesis
  proof (cases "wr_valid ?wr")
    case True
    then obtain bw where "s' = ?s\<lparr>sc_wrm := (sc_wrm ?s)(sfd \<mapsto> ?wr\<lparr>wr_bw := bw\<rparr>),
        sc_events := arm EPOLLOUT epf sfd (sc_events s)\<rparr>"
      using enq by (auto simp: sc_enqueue_def Let_def cpp_bind_Ret_iff)
    with sc_conn_ok_arm(1) [OF ok', of EPOLLOUT epf sfd] True show ?thesis by (auto simp: sc_conn_ok_def)
  qed (use enq ok' in \<open>simp add: sc_enqueue_def Let_def\<close>)
qed

lemma sc_conn_ok_register [simp]: "sc_conn_ok (sc_register sfd u cb s) = sc_conn_ok s"
  by (simp add: sc_register_def sc_conn_ok_def split: option.splits)

lemma sc_conn_ok_process_event: "sc_conn_ok s \<Longrightarrow> sc_conn_ok (sc_process_event now epf ev s)"
proof -
  assume ok: "sc_conn_ok s"
  have rd: "sc_conn_ok (sc_read_callback epf fd t)" and wr: "sc_conn_ok (sc_write_callback epf fd t)"
    if "sc_conn_ok t" for fd and t :: "'a SocketClient"
    using sc_conn_ok_arm(2) [OF that, of EPOLLIN epf fd] sc_conn_ok_arm(2) [OF that, of EPOLLOUT epf fd]
    by (simp_all add: sc_read_callback_def sc_write_callback_def sc_conn_ok_def)
  have "sc_conn_ok ((sc_a_zombied now fd s)\<lparr>sc_events := log_call (Close fd) (log_call (Close epf) (sc_events s))\<rparr>)" for fd
    using sc_conn_ok_zombied [OF ok, of now fd] ok
    by (simp add: sc_conn_ok_def sc_a_zombied_def Let_def)
  with ok rd wr show ?thesis
    by (auto simp: sc_process_event_def Let_def split: prod.splits)
qed

lemma sc_conn_ok_process_events: "sc_conn_ok s \<Longrightarrow> sc_conn_ok (sc_process_epoll_events now epf evs s)"
proof -
  assume ok: "sc_conn_ok s"
  have "sc_conn_ok t \<Longrightarrow> sc_conn_ok (fold (sc_process_event now epf) es t)" for es and t :: "'a SocketClient"
    by (induction es arbitrary: t) (simp_all add: sc_conn_ok_process_event)
  with ok show ?thesis
    by (auto simp: sc_process_epoll_events_def sc_conn_ok_def split: option.splits)
qed

text \<open>
  The resources a running reaper has erased, readers on the left and writers on the right: the marks
  of their descriptors are erased at the end of the pass, and until then none of them that came
  back is invalid.
\<close>

fun taken :: "caller \<Rightarrow> (sfd + sfd) list" where
  "taken (Reaping order zv) = map Inl zv @ map Inr zv"
| "taken (Reconnecting ks node ep_sfd sfd order zv) = map Inl zv @ map Inr zv @
     (if K_read \<in> set ks then [] else [Inl sfd]) @ (if K_write \<in> set ks then [] else [Inr sfd])"
| "taken c = []"

definition reaped :: "'cb thread list \<Rightarrow> (sfd + sfd) set" where
  "reaped ts = set (concat (map (\<lambda>t. case caller_of t of None \<Rightarrow> [] | Some c \<Rightarrow> taken c) ts))"

definition live :: "(sfd + sfd) set \<Rightarrow> 'cb SocketClient \<Rightarrow> bool" where
  "live Z s \<longleftrightarrow> (\<forall>f rr. Inl f \<in> Z \<longrightarrow> sc_rrm s f = Some rr \<longrightarrow> rr_valid rr)
     \<and> (\<forall>f wr. Inr f \<in> Z \<longrightarrow> sc_wrm s f = Some wr \<longrightarrow> wr_valid wr)"

lemma reaped_simps [simp]:
  "reaped [] = {}" "reaped (Loop c # ts) = set (taken c) \<union> reaped ts"
  "reaped (In_make c r # ts) = set (taken c) \<union> reaped ts"
  "reaped (Send_register h u cb d n # ts) = reaped ts" "reaped (Send_enqueue h u d n # ts) = reaped ts"
  "reaped (us @ ts) = reaped us \<union> reaped ts"
  by (simp_all add: reaped_def)

lemma live_simps [simp]:
  "live {} s" "live (insert (Inl f) A) s \<longleftrightarrow> (\<forall>rr. sc_rrm s f = Some rr \<longrightarrow> rr_valid rr) \<and> live A s"
  "live (insert (Inr f) A) s \<longleftrightarrow> (\<forall>wr. sc_wrm s f = Some wr \<longrightarrow> wr_valid wr) \<and> live A s"
  "live (Inl ` F) s \<longleftrightarrow> (\<forall>f \<in> F. \<forall>rr. sc_rrm s f = Some rr \<longrightarrow> rr_valid rr)"
  "live (Inr ` F) s \<longleftrightarrow> (\<forall>f \<in> F. \<forall>wr. sc_wrm s f = Some wr \<longrightarrow> wr_valid wr)"
  "live (A \<union> B) s \<longleftrightarrow> live A s \<and> live B s"
  "live Z (sc_events_update f1 s) = live Z s" "live Z (sc_h_status_update f2 s) = live Z s"
  "live Z (sc_conns_update f3 s) = live Z s" "live Z (sc_e_hosts_update f4 s) = live Z s"
  "live Z (sc_zm_update f5 s) = live Z s" "live Z (sc_register sfd u cb s) = live Z s"
  "live Z (sc_unregister sfd u s) = live Z s"
  by (auto simp: live_def sc_register_def sc_unregister_def split: option.splits)

lemma not_z_held: "\<not> z_held ts \<Longrightarrow> reaped ts = {}"
proof -
  have "\<not> holds_z c \<Longrightarrow> taken c = []" for c by (cases c) auto
  then show "\<not> z_held ts \<Longrightarrow> ?thesis"
    by (induction ts) (auto simp: z_held_def reaped_def split: option.splits)
qed

lemma live_unit:
  assumes "live (reaped ts) s" and "z_held ts \<longrightarrow> no_mark s s'"
  shows "live (reaped ts) s'"
proof (cases "z_held ts")
  case True
  with assms show ?thesis unfolding live_def no_mark_def by blast
qed (simp add: not_z_held)

lemma live_clean: "live Z s \<Longrightarrow> live Z (clean_section ep sfd k s)"
  by (cases k) (auto simp: live_def split: if_splits)

lemma live_cleaned:
  assumes "live (set (taken (Reconnecting (k # ks) node ep sfd order zv))) s"
  shows "live (set (taken (Reconnecting ks node ep sfd order zv))) (clean_section ep sfd k s)"
  using live_clean [OF assms, of ep sfd k] by (cases k) (auto split: if_splits)

lemma live_enqueue: "sc_enqueue f epf sfd s = Ret (ok, s') \<Longrightarrow> live Z s \<Longrightarrow> live Z s'"
  by (auto simp: live_def sc_enqueue_def Let_def cpp_bind_Ret_iff map_emplace_def map_at_def new_wr_def
      split: if_splits option.splits)

lemma made_taken: "made c ok s = (c', s') \<Longrightarrow> set (taken c') = set (taken c)"
  by (induction c ok s rule: made.induct) (auto split: if_splits)

text \<open>At the end of a pass the resources left on the descriptors taken are valid.\<close>

lemma sc_conn_ok_reaped: "sc_conn_ok s \<Longrightarrow> live (Inl ` set zv \<union> Inr ` set zv) s \<Longrightarrow> sc_conn_ok (s\<lparr>sc_zm := fold map_erase zv (sc_zm s)\<rparr>)"
  by (auto simp: sc_conn_ok_def fold_map_erase)

lemma sc_reap_look_inv:
  assumes "sc_reap_look now sfd order zv s = (c', s')" and "sc_conn_ok s" and "live (Inl ` set zv \<union> Inr ` set zv \<union> Z) s"
  shows "sc_conn_ok s' \<and> live (set (taken c') \<union> Z) s'"
  using assms by (auto simp: sc_reap_look_def clean_sections_def Let_def split: option.splits if_splits)

lemma sc_send_start_Ret: "sc_send_start ni s = Ret (status, s') \<Longrightarrow> \<exists>h. s' = s\<lparr>sc_h_status := h\<rparr>"
  by (auto simp: sc_send_start_def cpp_bind_Ret_iff)

definition sc_threads_ok :: "'cb sc_state \<Rightarrow> bool" where
  "sc_threads_ok x \<longleftrightarrow> sc_conn_ok (fst x) \<and> live (reaped (snd x)) (fst x)"

lemma sc_conn_ok_calls: "sc_conn_ok s \<Longrightarrow> sc_conn_ok (s\<lparr>sc_events := (sc_events s)\<lparr>calls := cs\<rparr>\<rparr>)"
  by (simp add: sc_conn_ok_def masks_ok_def)

lemma sc_conn_ok_mc_events: "sc_conn_ok s \<Longrightarrow> sc_conn_ok (mc_events sfd s)"
  by (simp add: sc_conn_ok_def mc_events_def masks_ok_set)

lemma sc_threads_ok_step: "sc_step throws junk x l y \<Longrightarrow> sc_threads_ok x \<Longrightarrow> sc_threads_ok y"
proof (induction rule: sc_step.induct)
  case (sc_dial_step c s node a pc s' ts1 ts2)
  then show ?case using mc_start_frame [OF sc_dial_step(2)] by (auto simp: sc_threads_ok_def sc_conn_ok_calls)
next
  case (sc_section_step pc s r s' ts1 c ts2)
  from sc_section_step(1) show ?case
    by (rule mc_section_cases) (use sc_section_step(2) in
        \<open>auto simp: sc_threads_ok_def sc_conn_ok_mc_events, simp_all add: mc_events_def\<close>)
next
  case (sc_made_step c ok ts1 ts2 s c' s')
  from sc_made_step(2) show ?case
    by (rule made_cases) (use made_taken [OF sc_made_step(2)] sc_made_step(3) in \<open>auto simp: sc_threads_ok_def\<close>)
next
  case (sc_look_step now sfd order zv s c' s' ts1 ts2)
  then show ?case
    using sc_reap_look_inv [OF sc_look_step(1), of "reaped (ts1 @ ts2)"] by (auto simp: sc_threads_ok_def)
next
  case (sc_clean_step s ts1 k ks node ep_sfd sfd order zv ts2)
  then show ?case
    using live_cleaned [of k ks node ep_sfd sfd order zv s] live_clean [of _ s ep_sfd sfd k] sc_conn_ok_clean [of s ep_sfd sfd k]
    by (auto simp: sc_threads_ok_def simp del: taken.simps clean_section.simps)
next
  case (sc_send_step ni s status s' ts uuid_str cb data n)
  then show ?case by (auto simp: sc_threads_ok_def dest!: sc_send_start_Ret)
next
  case (sc_unregister_step s ts uuid_str sfd)
  then show ?case by (auto simp: sc_threads_ok_def) (simp add: sc_unregister_def)
qed (auto simp: sc_threads_ok_def sc_conn_ok_reaped
    intro: live_unit live_enqueue sc_conn_ok_process_events sc_conn_ok_enqueue [rotated]
      sc_conn_ok_read [rotated] sc_conn_ok_write [rotated])

lemma sc_conn_ok_new: "sc_conn_ok (sc_new hosts)"
  by (simp add: sc_conn_ok_def sc_new_def masks_ok_def)

subsection \<open>Callbacks: each is called at most once\<close>

definition sc_cb :: "'cb SocketClient \<Rightarrow> sfd \<Rightarrow> bytes \<Rightarrow> 'cb option" where
  "sc_cb s sfd uuid_str = map_at (sc_call_backs s) Map.empty sfd uuid_str"

lemma sc_cb_other [simp]:
  "sc_cb (sc_rrm_update f1 s) = sc_cb s" "sc_cb (sc_wrm_update f2 s) = sc_cb s"
  "sc_cb (sc_events_update f3 s) = sc_cb s" "sc_cb (sc_h_status_update f4 s) = sc_cb s"
  "sc_cb (sc_conns_update f5 s) = sc_cb s" "sc_cb (sc_zm_update f6 s) = sc_cb s"
  "sc_cb (sc_e_hosts_update f7 s) = sc_cb s" "sc_cb (sc_answers_update f8 s) = sc_cb s"
  by (simp_all add: sc_cb_def fun_eq_iff)

text \<open>
  If no callback was registered twice, then none was called twice, only registered ones were
  called, and one that still waits has not been called and waits in one place.
\<close>

definition once_ok :: "'cb SocketClient \<Rightarrow> bool" where
  "once_ok s \<longleftrightarrow> (distinct (sc_regs s) \<longrightarrow>
     distinct (map fst (sc_answers s)) \<and> fst ` set (sc_answers s) \<subseteq> set (sc_regs s) \<and>
     (\<forall>f u cb. sc_cb s f u = Some cb \<longrightarrow> cb \<in> set (sc_regs s) \<and> cb \<notin> fst ` set (sc_answers s)) \<and>
     (\<forall>f u f' u' cb. sc_cb s f u = Some cb \<longrightarrow> sc_cb s f' u' = Some cb \<longrightarrow> f = f' \<and> u = u'))"

lemma once_ok_shrink:
  "once_ok s \<Longrightarrow> sc_regs s' = sc_regs s \<Longrightarrow> sc_answers s' = sc_answers s \<Longrightarrow>
   (\<And>f u cb. sc_cb s' f u = Some cb \<Longrightarrow> sc_cb s f u = Some cb) \<Longrightarrow> once_ok s'"
  unfolding once_ok_def by metis

lemma once_ok_same:
  "once_ok s \<Longrightarrow> sc_regs s' = sc_regs s \<Longrightarrow> sc_answers s' = sc_answers s \<Longrightarrow>
   sc_call_backs s' = sc_call_backs s \<Longrightarrow> once_ok s'"
  by (erule once_ok_shrink) (simp_all add: sc_cb_def)

lemma once_ok_other [simp]:
  "once_ok (s\<lparr>sc_rrm := x1\<rparr>) = once_ok s" "once_ok (s\<lparr>sc_wrm := x2\<rparr>) = once_ok s"
  "once_ok (sc_events_update f s) = once_ok s" "once_ok (s\<lparr>sc_h_status := x3\<rparr>) = once_ok s"
  "once_ok (s\<lparr>sc_conns := x4\<rparr>) = once_ok s" "once_ok (s\<lparr>sc_e_hosts := x5\<rparr>) = once_ok s"
  "once_ok (s\<lparr>sc_r_tp := x6\<rparr>) = once_ok s" "once_ok (s\<lparr>sc_w_tp := x6\<rparr>) = once_ok s"
  "once_ok (s\<lparr>sc_zm := x7\<rparr>) = once_ok s"
  by (simp_all add: once_ok_def sc_cb_def)

lemma once_ok_zombied [simp]:
  "once_ok (sc_a_zombied now sfd s) = once_ok s" "once_ok (sc_close_read now sfd s) = once_ok s"
  "once_ok (sc_close_write now sfd s) = once_ok s"
  by (simp_all add: sc_close_read_def sc_close_write_def sc_a_zombied_def Let_def once_ok_def sc_cb_def)

lemma once_ok_register:
  assumes "once_ok s"
  shows "once_ok (sc_register sfd u cb s)"
proof (cases cb)
  case (Some c)
  let ?s = "sc_register sfd u cb s"
  have cb: "sc_cb ?s f v = (if f = sfd \<and> v = u then Some c else sc_cb s f v)" for f v
    using Some by (simp add: sc_register_def sc_cb_def)
  have "sc_regs ?s = sc_regs s @ [c]" "sc_answers ?s = sc_answers s"
    using Some by (simp_all add: sc_register_def)
  with assms show ?thesis unfolding once_ok_def cb by (auto split: if_splits)
qed (use assms in \<open>simp add: sc_register_def\<close>)

text \<open>One reply: the callback waiting for it, if any, is called and forgotten.\<close>

lemma sc_call_back_result:
  assumes "decode_frame (f @ [EOT]) = Ret (u, m)"
  shows "\<exists>s'. sc_call_back throws now sfd f s = Ret s'
    \<and> sc_answers s' = sc_answers s @ (case sc_cb s sfd u of None \<Rightarrow> [] | Some cb \<Rightarrow> [(cb, m)])
    \<and> (\<forall>g v. sc_cb s' g v = (if g = sfd \<and> v = u then None else sc_cb s g v))
    \<and> sc_regs s' = sc_regs s \<and> sc_rrm s' = sc_rrm s \<and> sc_wrm s' = sc_wrm s \<and> sc_events s' = sc_events s
    \<and> ((case sc_cb s sfd u of None \<Rightarrow> True | Some cb \<Rightarrow> \<not> throws cb m) \<longrightarrow>
         sc_zm s' = sc_zm s \<and> sc_h_status s' = sc_h_status s \<and> sc_conns s' = sc_conns s)"
proof (cases "sc_cb s sfd u")
  case None
  then show ?thesis
    using assms by (auto simp: sc_call_back_def Let_def sc_cb_def map_at_def map_emplace_def split: option.splits)
next
  case (Some cb)
  then show ?thesis
    using assms by (auto simp: sc_call_back_def Let_def sc_cb_def sc_a_zombied_def)
qed

lemma once_ok_call_back:
  assumes "once_ok s" and "sc_call_back throws now sfd f s = Ret s'"
  shows "once_ok s'"
proof -
  obtain u m where "decode_frame (f @ [EOT]) = Ret (u, m)"
    using assms(2) by (auto simp: sc_call_back_def cpp_bind_Ret_iff)
  from sc_call_back_result [OF this, of throws now sfd s] assms(2)
  have ans: "sc_answers s' = sc_answers s @ (case sc_cb s sfd u of None \<Rightarrow> [] | Some cb \<Rightarrow> [(cb, m)])"
    and cb: "\<And>g v. sc_cb s' g v = (if g = sfd \<and> v = u then None else sc_cb s g v)"
    and regs: "sc_regs s' = sc_regs s" by auto
  show ?thesis
  proof (cases "sc_cb s sfd u")
    case None
    with assms(1) ans cb regs show ?thesis by (auto elim!: once_ok_shrink split: if_splits)
  next
    case (Some c)
    with ans have "sc_answers s' = sc_answers s @ [(c, m)]" by simp
    with assms(1) Some show ?thesis
      unfolding once_ok_def cb regs by (auto split: if_splits; blast)
  qed
qed

lemma once_ok_enqueue: "once_ok s \<Longrightarrow> sc_enqueue f epf sfd s = Ret (ok, s') \<Longrightarrow> once_ok s'"
  by (erule once_ok_same) (auto simp: sc_enqueue_def Let_def cpp_bind_Ret_iff split: if_splits)

lemma sc_conn_ok_reader:
  "sc_conn_ok s \<Longrightarrow> reader_ok EOT (rr_br (map_at (sc_rrm s) \<lparr>rr_br = br_new EOT, rr_valid = True\<rparr> sfd))"
  by (cases "sc_rrm s sfd") (auto simp: sc_conn_ok_def)

lemma once_ok_read:
  assumes "sc_read throws now epf sfd as s = Ret s'" and "once_ok s" and "sc_conn_ok s"
  shows "once_ok s'"
proof -
  let ?nrr = "\<lparr>rr_br = br_new EOT, rr_valid = True\<rparr>"
  let ?rr = "map_at (sc_rrm s) ?nrr sfd" and ?s = "s\<lparr>sc_rrm := map_emplace sfd ?nrr (sc_rrm s)\<rparr>"
  show ?thesis
  proof (cases "rr_valid ?rr")
    case True
    then obtain br s1 where rd: "read_from_sfd sc_events_update (sc_call_back throws now sfd)
        (sc_close_read now sfd) epf sfd as (rr_br ?rr, ?s) = Ret (br, s1)" and s': "once_ok s' = once_ok s1"
      using assms(1) by (auto simp: sc_read_def Let_def cpp_bind_Ret_iff)
    have "\<exists>u. once_ok u \<and> (s1 = sc_events_update (arm EPOLLIN epf sfd) u \<or> s1 = sc_close_read now sfd u)"
      using read_from_sfd_inv [OF rd sc_conn_ok_reader [OF assms(3)], of once_ok] assms(2) once_ok_call_back
      unfolding once_ok_other by blast
    then show ?thesis unfolding s' by auto
  qed (use assms in \<open>auto simp: sc_read_def Let_def\<close>)
qed

lemma once_ok_write: "sc_write junk now epf sfd as s = Ret s' \<Longrightarrow> once_ok s \<Longrightarrow> once_ok s'"
  by (auto simp: sc_write_def Let_def cpp_bind_Ret_iff split: if_splits
      elim!: write_to_sfd_inv [where P = once_ok])

lemma once_ok_process_events: "once_ok s \<Longrightarrow> once_ok (sc_process_epoll_events now epf evs s)"
proof -
  assume ok: "once_ok s"
  have "once_ok (sc_process_event now epf ev t) = once_ok t" for ev and t :: "'a SocketClient"
    by (simp add: sc_process_event_def sc_read_callback_def sc_write_callback_def Let_def split: prod.splits)
  then have "once_ok (fold (sc_process_event now epf) es t) = once_ok t" for es and t :: "'a SocketClient"
    by (induction es arbitrary: t) simp_all
  with ok show ?thesis by (auto simp: sc_process_epoll_events_def split: option.splits)
qed

lemma once_ok_clean: "once_ok s \<Longrightarrow> once_ok (clean_section ep sfd k s)"
  by (erule once_ok_shrink; cases k) (auto simp: sc_cb_def map_at_def split: if_splits)

lemma once_ok_unregister: "once_ok s \<Longrightarrow> once_ok (sc_unregister sfd u s)"
  by (erule once_ok_shrink) (auto simp: sc_unregister_def sc_cb_def split: if_splits)

lemma once_ok_look: "sc_reap_look now sfd order zv s = (c', s') \<Longrightarrow> once_ok s \<Longrightarrow> once_ok s'"
  by (auto simp: sc_reap_look_def Let_def split: option.splits if_splits)

definition sc_inv :: "'cb sc_state \<Rightarrow> bool" where
  "sc_inv x \<longleftrightarrow> sc_threads_ok x \<and> once_ok (fst x)"

lemma once_ok_step: "sc_step throws junk x l y \<Longrightarrow> sc_conn_ok (fst x) \<Longrightarrow> once_ok (fst x) \<Longrightarrow> once_ok (fst y)"
proof (induction rule: sc_step.induct)
  case (sc_dial_step c s node a pc s' ts1 ts2)
  then show ?case by (auto dest!: mc_start_frame)
next
  case (sc_section_step pc s r s' ts1 c ts2)
  from sc_section_step(1) show ?case
    by (rule mc_section_cases) (use sc_section_step(3) in \<open>auto simp: mc_events_def\<close>)
next
  case (sc_made_step c ok ts1 ts2 s c' s')
  from sc_made_step(2) show ?case by (rule made_cases) (use sc_made_step(4) in simp)
next
  case (sc_send_step ni s status s' ts uuid_str cb data n)
  then show ?case by (auto dest!: sc_send_start_Ret)
qed (auto intro: once_ok_look once_ok_clean once_ok_process_events once_ok_register once_ok_enqueue [rotated] once_ok_unregister
    elim!: once_ok_read once_ok_write)

interpretation sc: step_inv "sc_step throws junk" sc_init sc_inv
proof
  show "sc_inv x" if "sc_init x" for x :: "'a sc_state"
  proof -
    have "x = (sc_new (sc_desired_hosts (fst x)), [])" using that by (simp add: sc_init_def)
    moreover have "sc_inv (sc_new hosts :: 'a SocketClient, [])" for hosts
      using sc_conn_ok_new by (simp add: sc_inv_def sc_threads_ok_def once_ok_def sc_new_def sc_cb_def)
    ultimately show ?thesis by metis
  qed
  show "sc_inv y" if "sc_inv x" "sc_step throws junk x e y" for e and x y :: "'a sc_state"
    using that sc_threads_ok_step once_ok_step unfolding sc_inv_def sc_threads_ok_def by blast
qed

subsection \<open>Runs without interruption\<close>

text \<open>
  The steps of one thread that nothing comes in between are the routine of the source:
  \<^verbatim>\<open>make_connection\<close> and the three loops around it, and \<^verbatim>\<open>send_msg\<close>.
\<close>

lemma mc_rest_run:
  "run (sc_step throws junk) (s, In_make c (Inl pc) # ts) (replicate (case pc of Mc_conns _ _ _ \<Rightarrow> 3 | Mc_events _ _ _ \<Rightarrow> 2 | _ \<Rightarrow> 1) C_section)
     (snd (mc_rest pc s), In_make c (Inr (fst (mc_rest pc s))) # ts)"
proof -
  have st: "sc_step throws junk (t, In_make c (Inl pc) # ts) C_section (snd (mc_section pc t), In_make c (fst (mc_section pc t)) # ts)"
    for t pc using sc_section_step [of pc t _ _ throws junk "[]" c ts] by (metis append_Nil prod.collapse)
  show ?thesis
  proof (cases pc)
    case (Mc_conns node sfd ep)
    let ?t = "mc_conns node sfd s"
    show ?thesis
      using st [of s pc] st [of ?t "Mc_events node sfd ep"]
        st [of "mc_events sfd ?t" "Mc_status node (conn_status sfd ep) True"] Mc_conns
      by (auto simp: numeral_3_eq_3 intro!: run_cons run_nil)
  next
    case (Mc_events node sfd ep)
    show ?thesis
      using st [of s pc] st [of "mc_events sfd s" "Mc_status node (conn_status sfd ep) True"] Mc_events
      by (auto simp: numeral_2_eq_2 intro!: run_cons run_nil)
  next
    case (Mc_status node status ok)
    then show ?thesis using st [of s pc] by (auto intro!: run_cons run_nil)
  qed
qed

lemma make_connection_run:
  assumes "next_node c s = Some node" and "make_connection a node s = Ret (ok, s1)"
    and "pushes c ok \<longrightarrow> \<not> eh_held ts" and "made c ok s1 = (c', s')"
  shows "\<exists>ls. run (sc_step throws junk) (s, Loop c # ts) ls (s', Loop c' # ts)"
proof -
  obtain pc s0 where pc: "mc_start a node s = Ret (pc, s0)" "mc_rest pc s0 = (ok, s1)"
    using assms(2) by (auto simp: make_connection_def cpp_bind_Ret_iff)
  have "sc_step throws junk (s, Loop c # ts) (C_dial node) (s0, In_make c (Inl pc) # ts)"
    using sc_dial_step [OF assms(1) pc(1), of throws junk "[]"] by simp
  moreover have "sc_step throws junk (s1, In_make c (Inr ok) # ts) (C_made ok) (s', Loop c' # ts)"
    using sc_made_step [of c ok "[]" ts s1 c' s' throws junk] assms(3,4) by simp
  ultimately show ?thesis
    using mc_rest_run [of throws junk s0 c pc ts] pc(2) by (auto intro: run_cons run_snoc)
qed

lemma connect_run:
  assumes "connect_to_hosts ans s = Ret (n, s')" and "\<not> eh_held ts"
  shows "\<exists>ls. run (sc_step throws junk) (s, ts) ls (s', ts)"
proof -
  let ?body = "\<lambda>(i, t) (s_conns, s). cpp_bind (make_connection (ans i) t s) (\<lambda>(ok, s).
      if ok then Ret (s_conns + 1, s) else Ret (s_conns, s\<lparr>sc_e_hosts := sc_e_hosts s @ [t]\<rparr>))"
  have "\<exists>ls. run (sc_step throws junk) (s, Loop (Connecting hs m) # ts) ls (s', Loop (Connecting [] n) # ts)"
    if "for_each (List.enumerate k hs) ?body (m, s) = Ret (n, s')" for hs k m s
    using that
  proof (induction hs arbitrary: k m s)
    case Nil
    then show ?case by (auto intro: run_nil)
  next
    case (Cons h hs)
    then obtain ok s1 where mc: "make_connection (ans k) h s = Ret (ok, s1)"
      and rest: "for_each (List.enumerate (Suc k) hs) ?body
        (if ok then (m + 1, s1) else (m, s1\<lparr>sc_e_hosts := sc_e_hosts s1 @ [h]\<rparr>)) = Ret (n, s')"
      by (auto simp: cpp_bind_Ret_iff split: if_splits)
    have "\<exists>ls. run (sc_step throws junk) (s, Loop (Connecting (h # hs) m) # ts) ls
        (if ok then s1 else push_host h s1, Loop (Connecting hs (if ok then m + 1 else m)) # ts)"
      using assms(2) by (intro make_connection_run [OF _ mc]) auto
    moreover have "\<exists>ls. run (sc_step throws junk) (if ok then s1 else push_host h s1,
        Loop (Connecting hs (if ok then m + 1 else m)) # ts) ls (s', Loop (Connecting [] n) # ts)"
      using Cons.IH rest by (auto simp: push_host_def split: if_splits)
    ultimately show ?case by (rule run_ex_append)
  qed
  then obtain ls where "run (sc_step throws junk) (s, Loop (Connecting (sc_desired_hosts s) 0) # ts) ls
      (s', Loop (Connecting [] n) # ts)"
    using assms(1) unfolding connect_to_hosts_def by blast
  moreover have "sc_step throws junk (s', Loop (Connecting [] n) # ts) C_end (s', ts)"
    using sc_connected_step [of throws junk s' "[]" n ts] by simp
  ultimately show ?thesis by (meson run_ex_cons run_snoc sc_connect_step)
qed

lemma clean_run:
  "\<exists>ls. run (sc_step throws junk) (s, Loop (Reconnecting ks node ep_sfd sfd order zv) # ts) ls
     (fold (clean_section ep_sfd sfd) ks s, Loop (Reconnecting [] node ep_sfd sfd order zv) # ts)"
proof (induction ks arbitrary: s)
  case Nil
  then show ?case by (auto intro: run_nil)
next
  case (Cons k ks)
  have "sc_step throws junk (s, Loop (Reconnecting (k # ks) node ep_sfd sfd order zv) # ts) (C_clean sfd)
      (clean_section ep_sfd sfd k s, Loop (Reconnecting ks node ep_sfd sfd order zv) # ts)"
    using sc_clean_step [of throws junk s "[]" k ks node ep_sfd sfd order zv ts] by simp
  from run_ex_cons [of "sc_step throws junk", OF this Cons.IH] show ?case by simp
qed

lemma sc_reap_look_one:
  assumes "sc_reap_look (now sfd) sfd order zv s = (c, s0)"
  shows "c = Reaping order zv \<and> s0 = s \<and> sc_reap_one now ans sfd (s, zv) = Ret (s, zv)
    \<or> (\<exists>node ep_sfd. c = Reconnecting clean_sections node ep_sfd sfd order zv \<and> sc_reap_one now ans sfd (s, zv) =
        cpp_bind (make_connection (ans sfd) node (sc_close_n_clean ep_sfd sfd s0)) (\<lambda>(ok, s2). Ret (if ok then s2 else push_host node s2, zv @ [sfd])))"
  using assms unfolding sc_reap_look_def sc_reap_one_def Let_def push_host_def
  by (cases "sc_zm s sfd"; cases "expired (now sfd) (the (sc_zm s sfd))") auto

lemma reap_run:
  assumes "sc_reap now ans order s = Ret s'" and "distinct order" and "set order = dom (sc_zm s)"
    and "\<not> z_held ts" and "\<not> eh_held ts"
  shows "\<exists>ls. run (sc_step throws junk) (s, ts) ls (s', ts)"
proof -
  have "\<exists>ls. run (sc_step throws junk) (s, Loop (Reaping order zv) # ts) ls (t, Loop (Reaping [] zv') # ts)"
    if "for_each order (sc_reap_one now ans) (s, zv) = Ret (t, zv')" for order s zv t zv'
    using that
  proof (induction order arbitrary: s zv)
    case Nil
    then show ?case by (auto intro: run_nil)
  next
    case (Cons f fs)
    then obtain s1 zv1 where one: "sc_reap_one now ans f (s, zv) = Ret (s1, zv1)"
      and rest: "for_each fs (sc_reap_one now ans) (s1, zv1) = Ret (t, zv')" by (auto simp: cpp_bind_Ret_iff)
    obtain c s0 where look: "sc_reap_look (now f) f fs zv s = (c, s0)" by fastforce
    then have step: "sc_step throws junk (s, Loop (Reaping (f # fs) zv) # ts) (C_look f) (s0, Loop c # ts)"
      using sc_look_step [of "now f" f fs zv s c s0 throws junk "[]" ts] by simp
    have "\<exists>ls. run (sc_step throws junk) (s0, Loop c # ts) ls (s1, Loop (Reaping fs zv1) # ts)"
      using sc_reap_look_one [of now f, OF look, of ans]
    proof (elim disjE exE conjE)
      assume "c = Reaping fs zv" "s0 = s" "sc_reap_one now ans f (s, zv) = Ret (s, zv)"
      with one show ?thesis by (auto intro: run_nil)
    next
      fix node ep
      let ?c = "Reconnecting [] node ep f fs zv" and ?s = "sc_close_n_clean ep f s0"
      assume c: "c = Reconnecting clean_sections node ep f fs zv" and "sc_reap_one now ans f (s, zv) =
        cpp_bind (make_connection (ans f) node ?s) (\<lambda>(ok, s2). Ret (if ok then s2 else push_host node s2, zv @ [f]))"
      with one obtain ok s2 where "make_connection (ans f) node ?s = Ret (ok, s2)"
        "s1 = (if ok then s2 else push_host node s2)" "zv1 = zv @ [f]" by (auto simp: cpp_bind_Ret_iff)
      with assms(5) have "\<exists>ls. run (sc_step throws junk) (?s, Loop ?c # ts) ls (s1, Loop (Reaping fs zv1) # ts)"
        by (intro make_connection_run [of _ _ node "ans f" ok s2]) auto
      then show ?thesis
        using clean_run [of throws junk s0 clean_sections node ep f fs zv ts] unfolding c sc_close_n_clean_def
        by (rule run_ex_append [rotated])
    qed
    then have "\<exists>ls. run (sc_step throws junk) (s0, Loop c # ts) ls (t, Loop (Reaping [] zv') # ts)"
      using Cons.IH [OF rest] by (rule run_ex_append)
    then show ?case by (rule run_ex_cons [of "sc_step throws junk", OF step])
  qed
  moreover obtain t zv where "for_each order (sc_reap_one now ans) (s, []) = Ret (t, zv)"
    and s': "s' = t\<lparr>sc_zm := fold map_erase zv (sc_zm t)\<rparr>"
    using assms(1) by (auto simp: sc_reap_def cpp_bind_Ret_iff)
  ultimately obtain ls where "run (sc_step throws junk) (s, Loop (Reaping order []) # ts) ls (t, Loop (Reaping [] zv) # ts)"
    by blast
  moreover have "sc_step throws junk (t, Loop (Reaping [] zv) # ts) C_end (s', ts)"
    using sc_reaped_step [of throws junk t "[]" zv ts] s' by simp
  ultimately have "\<exists>ls. run (sc_step throws junk) (s, Loop (Reaping order []) # ts) ls (s', ts)" by (blast intro: run_snoc)
  then show ?thesis by (rule run_ex_cons [of "sc_step throws junk", OF sc_reap_step [OF assms(4,2,3)]])
qed

lemma send_run:
  assumes "sc_send_msg junk data n ni cb u s = Ret (ok, s')"
  shows "\<exists>ls. run (sc_step throws junk) (s, ts) ls (s', ts)"
proof -
  obtain host where h: "rd_at (sc_desired_hosts s) (unat ni) = Ret host"
    using assms by (auto simp: sc_send_msg_def cpp_bind_Ret_iff)
  let ?status = "map_at (sc_h_status s) hs_default host"
  let ?s1 = "s\<lparr>sc_h_status := map_emplace host hs_default (sc_h_status s)\<rparr>"
  have st: "sc_send_start ni s = Ret (?status, ?s1)" using h by (simp add: sc_send_start_def)
  note first = sc_send_step [OF st, of throws junk ts u cb data n]
  show ?thesis
  proof (cases "is_healthy ?status")
    case False
    then have "s' = ?s1" using assms h by (simp add: sc_send_msg_def Let_def)
    with first False show ?thesis by (auto intro: run_cons run_nil)
  next
    case True
    then obtain f where "pack_frame_ptr (u @ [CHR 0x00]) data n (replicate (unat (frame_size n)) junk) = Ret f"
      "sc_enqueue f (hs_ep_sfd ?status) (hs_sfd ?status) (sc_register (hs_sfd ?status) u cb ?s1) = Ret (ok, s')"
      using assms h by (auto simp: sc_send_msg_def Let_def cpp_bind_Ret_iff)
    from sc_enqueue_step [OF this, of throws "[]" ts] sc_register_step [of throws junk ?s1 "[]" ?status u cb data n ts] first True
    show ?thesis by (auto intro!: run_cons run_nil)
  qed
qed

end
