(* ===== verification/Client_Requests.thy ===== *)
theory Client_Requests
  imports Socket_Client
begin

text \<open>
  What the operations of \<open>Socket_Client\<close> do for a caller: replies reach the callbacks that wait for
  them, requests reach the queue of their host, connections are made, retried and reaped.
\<close>

subsection \<open>Properties: replies\<close>

text \<open>Specification: the calls of callbacks a sequence of replies causes, given who waits.\<close>

fun answers_for :: "(bytes \<rightharpoonup> 'cb) \<Rightarrow> (bytes \<times> bytes) list \<Rightarrow> ('cb \<times> bytes) list" where
  "answers_for waiting [] = []"
| "answers_for waiting ((u, m) # ums) =
     (case waiting u of None \<Rightarrow> [] | Some cb \<Rightarrow> [(cb, m)]) @ answers_for (map_erase u waiting) ums"

lemma sc_call_back_all:
  assumes "\<forall>f \<in> set fs. length f < 2 ^ 32"
  shows "\<exists>s'. for_each fs (sc_call_back throws now sfd) s = Ret s'
    \<and> sc_answers s' = sc_answers s @ answers_for (sc_cb s sfd) (map frame_parts fs)
    \<and> (\<forall>g v. sc_cb s' g v = (if g = sfd \<and> v \<in> set (map (fst \<circ> frame_parts) fs) then None else sc_cb s g v))
    \<and> sc_regs s' = sc_regs s \<and> sc_rrm s' = sc_rrm s \<and> sc_wrm s' = sc_wrm s \<and> sc_events s' = sc_events s
    \<and> ((\<forall>cb m. \<not> throws cb m) \<longrightarrow>
         sc_zm s' = sc_zm s \<and> sc_h_status s' = sc_h_status s \<and> sc_conns s' = sc_conns s)"
  using assms
proof (induction fs arbitrary: s)
  case (Cons f fs)
  obtain u m where um: "frame_parts f = (u, m)" by fastforce
  have "decode_frame (f @ [EOT]) = Ret (u, m)" using Cons.prems um by (simp add: decode_frame_parts)
  from sc_call_back_result [OF this, of throws now sfd s] obtain t where
    t: "sc_call_back throws now sfd f s = Ret t"
      "sc_answers t = sc_answers s @ (case sc_cb s sfd u of None \<Rightarrow> [] | Some cb \<Rightarrow> [(cb, m)])"
      "\<forall>g v. sc_cb t g v = (if g = sfd \<and> v = u then None else sc_cb s g v)"
      "sc_regs t = sc_regs s" "sc_rrm t = sc_rrm s" "sc_wrm t = sc_wrm s" "sc_events t = sc_events s"
      "(\<forall>cb m. \<not> throws cb m) \<longrightarrow>
         sc_zm t = sc_zm s \<and> sc_h_status t = sc_h_status s \<and> sc_conns t = sc_conns s"
    by (auto split: option.splits)
  have waiting: "sc_cb t sfd = map_erase u (sc_cb s sfd)" using t(3) by (auto simp: fun_eq_iff)
  from Cons.IH [of t] Cons.prems obtain s' where
    "for_each fs (sc_call_back throws now sfd) t = Ret s'"
    "sc_answers s' = sc_answers t @ answers_for (sc_cb t sfd) (map frame_parts fs)"
    "\<forall>g v. sc_cb s' g v = (if g = sfd \<and> v \<in> set (map (fst \<circ> frame_parts) fs) then None else sc_cb t g v)"
    "sc_regs s' = sc_regs t" "sc_rrm s' = sc_rrm t" "sc_wrm s' = sc_wrm t" "sc_events s' = sc_events t"
    "(\<forall>cb m. \<not> throws cb m) \<longrightarrow>
       sc_zm s' = sc_zm t \<and> sc_h_status s' = sc_h_status t \<and> sc_conns s' = sc_conns t" by auto
  with t um waiting show ?case by (intro exI [of _ s']) auto
qed simp

lemma sc_read_outcome:
  assumes "map_at (sc_rrm s) \<lparr>rr_br = br_new EOT, rr_valid = True\<rparr> sfd = rr" and "rr_valid rr" and "reader_ok EOT (rr_br rr)"
    and "\<forall>c \<in> set chunks. c \<noteq> []" and "length (br_buffer (rr_br rr)) + length (concat chunks) < 2 ^ 32"
    and "split_frames EOT (br_buffer (rr_br rr)) (concat chunks) = (fs, rest)"
    and "end_ans = R_bytes [] \<or> end_ans = R_err errno"
  shows "\<exists>s'. sc_read throws now ep_sfd sfd (map R_bytes chunks @ end_ans # as) s = Ret s'
    \<and> sc_answers s' = sc_answers s @ answers_for (sc_cb s sfd) (map frame_parts fs)
    \<and> (\<forall>g v. sc_cb s' g v = (if g = sfd \<and> v \<in> set (map (fst \<circ> frame_parts) fs) then None else sc_cb s g v))
    \<and> sc_rrm s' = (sc_rrm s)(sfd \<mapsto> \<lparr>rr_br = \<lparr>br_buffer = rest, br_del = EOT\<rparr>,
                                  rr_valid = (end_ans = R_err EAGAIN)\<rparr>)
    \<and> (if end_ans = R_err EAGAIN
       then armed EPOLLIN (sc_events s') sfd \<and> ((\<forall>cb m. \<not> throws cb m) \<longrightarrow> sc_zm s' = sc_zm s)
       else sc_zm s' sfd = Some now)"
proof -
  let ?cb = "sc_call_back throws now sfd" and ?nrr = "\<lparr>rr_br = br_new EOT, rr_valid = True\<rparr>"
  let ?s = "s\<lparr>sc_rrm := map_emplace sfd ?nrr (sc_rrm s)\<rparr>"
  have del: "br_del (rr_br rr) = EOT" "EOT \<notin> set (br_buffer (rr_br rr))"
    using assms(3) by (auto simp: reader_ok_def)
  have "\<forall>f \<in> set fs. length f < 2 ^ 32"
    using split_frames_length [OF assms(6) del(2)] assms(5) by (meson le_less_trans)
  from sc_call_back_all [OF this, of throws now sfd ?s, unfolded sc_cb_other] obtain s1 where
    s1: "for_each fs ?cb ?s = Ret s1"
      "sc_answers s1 = sc_answers s @ answers_for (sc_cb s sfd) (map frame_parts fs)"
      "\<forall>g v. sc_cb s1 g v = (if g = sfd \<and> v \<in> set (map (fst \<circ> frame_parts) fs) then None else sc_cb s g v)"
      "sc_rrm s1 = map_emplace sfd ?nrr (sc_rrm s)" "(\<forall>cb m. \<not> throws cb m) \<longrightarrow> sc_zm s1 = sc_zm s" by auto
  have br: "br_read ?cb (concat chunks) (rr_br rr, ?s) = Ret (\<lparr>br_buffer = rest, br_del = EOT\<rparr>, s1)"
    using del assms(6) s1(1) by (cases "rr_br rr") (simp add: br_read_frames)
  have "map_emplace sfd ?nrr (sc_rrm s) sfd = Some rr"
    using assms(1) by (simp add: map_at_def split: option.splits)
  with assms(1,2,4,7) s1(2-5) show ?thesis
    by (cases "end_ans = R_err EAGAIN")
      (auto simp: sc_read_def read_from_sfd_def read_loop_chunks br ReadR_updates sc_close_read_def sc_a_zombied_def
        Let_def)
qed

text \<open>
  C9: what one run of \<^verbatim>\<open>SocketClient::read\<close> does with any bytes of the server in any chunks, ended by any
  answer of the kernel. Each complete frame, in order, calls the callback that waits under its
  first 37 bytes on this descriptor, with the rest of the frame, and forgets it, so a second reply
  to the same request calls nothing; replies nobody waits for are ignored. The bytes after the
  last delimiter are kept. After \<^verbatim>\<open>EAGAIN\<close> the connection stays valid and is armed for
  \<^verbatim>\<open>EPOLLIN\<close>, and it is marked dead only by a callback that throws; otherwise it is
  invalid and marked for the reaper.
\<close>

theorem client_read_outcome:
  assumes "map_at (sc_rrm s) \<lparr>rr_br = br_new EOT, rr_valid = True\<rparr> sfd = rr" and "rr_valid rr" and "reader_ok EOT (rr_br rr)"
    and "\<forall>c \<in> set chunks. c \<noteq> []" and "length (br_buffer (rr_br rr)) + length (concat chunks) < 2 ^ 32"
    and "split_frames EOT (br_buffer (rr_br rr)) (concat chunks) = (fs, rest)"
    and "end_ans = R_bytes [] \<or> end_ans = R_err errno"
  shows "\<exists>s'. sc_read throws now ep_sfd sfd (map R_bytes chunks @ end_ans # as) s = Ret s'
    \<and> sc_answers s' = sc_answers s @ answers_for (sc_cb s sfd) (map frame_parts fs)
    \<and> (\<forall>g v. sc_cb s' g v = (if g = sfd \<and> v \<in> set (map (fst \<circ> frame_parts) fs) then None else sc_cb s g v))
    \<and> sc_rrm s' = (sc_rrm s)(sfd \<mapsto> \<lparr>rr_br = \<lparr>br_buffer = rest, br_del = EOT\<rparr>,
                                  rr_valid = (end_ans = R_err EAGAIN)\<rparr>)
    \<and> (if end_ans = R_err EAGAIN
       then armed EPOLLIN (sc_events s') sfd \<and> ((\<forall>cb m. \<not> throws cb m) \<longrightarrow> sc_zm s' = sc_zm s)
       else sc_zm s' sfd = Some now)"
  using assms by (rule sc_read_outcome)

text \<open>A client connected to one host, with callback 1 waiting for the reply to one request.\<close>

definition demo_uuid :: bytes where
  "demo_uuid = replicate 37 CHR ''u''"

definition demo_client :: "nat SocketClient" where
  "demo_client = (sc_new [''h:1''])\<lparr>sc_h_status := [''h:1'' \<mapsto> \<lparr>is_healthy = True, hs_sfd = 7, hs_ep_sfd = 8\<rparr>],
     sc_conns := [7 \<mapsto> ''h:1''], sc_call_backs := [7 \<mapsto> [demo_uuid \<mapsto> 1]], sc_regs := [1],
     sc_events := \<lparr>sfd_events = [7 \<mapsto> EPOLLIN], calls = [Epoll_add 8 7 EPOLLIN]\<rparr>\<rparr>"

lemmas demo_client_simps = demo_client_def sc_new_def demo_uuid_def

theorem client_read_outcome_witness:
  "\<exists>s'. sc_read (\<lambda>cb m. False) 5 8 7 (map R_bytes [demo_uuid @ ''hi'' @ [EOT]] @ R_err EAGAIN # []) demo_client = Ret s'
    \<and> sc_answers s' = [(1, ''hi'')] \<and> sc_cb s' 7 demo_uuid = None"
proof -
  let ?rr = "\<lparr>rr_br = br_new EOT, rr_valid = True\<rparr>" and ?f = "demo_uuid @ ''hi''"
  have "EOT \<notin> set ?f" by (simp add: demo_uuid_def EOT_def)
  then have "split_frames EOT [] (?f @ [EOT]) = ([?f], [])"
    using split_frames_stream [of "[?f]" EOT "[]"] by simp
  with client_read_outcome [of demo_client 7 ?rr "[?f @ [EOT]]" "[?f]" "[]" "R_err EAGAIN" EAGAIN "\<lambda>cb m. False" 5 8 "[]"]
  have "\<exists>s'. sc_read (\<lambda>cb m. False) 5 8 7 (map R_bytes [?f @ [EOT]] @ R_err EAGAIN # []) demo_client = Ret s'
    \<and> sc_answers s' = sc_answers demo_client @ answers_for (sc_cb demo_client 7) (map frame_parts [?f])
    \<and> (\<forall>g v. sc_cb s' g v = (if g = 7 \<and> v \<in> set (map (fst \<circ> frame_parts) [?f]) then None else sc_cb demo_client g v))"
    by (auto simp: demo_client_simps br_new_def reader_ok_def)
  moreover have "frame_parts ?f = (demo_uuid, ''hi'')" by (simp add: frame_parts_def demo_uuid_def)
  moreover have "sc_cb demo_client 7 demo_uuid = Some 1" "sc_answers demo_client = []"
    by (simp_all add: sc_cb_def demo_client_def sc_new_def)
  ultimately show ?thesis by auto
qed

lemma sc_call_back_regs: "sc_call_back throws now sfd f s = Ret s' \<Longrightarrow> sc_regs s' = sc_regs s"
  by (auto simp: sc_call_back_def cpp_bind_Ret_iff Let_def sc_a_zombied_def split: option.splits if_splits)

lemma sc_read_regs:
  assumes "sc_read throws now epf sfd as s = Ret s'" and "sc_conn_ok s"
  shows "sc_regs s' = sc_regs s"
proof -
  let ?nrr = "\<lparr>rr_br = br_new EOT, rr_valid = True\<rparr>"
  let ?rr = "map_at (sc_rrm s) ?nrr sfd" and ?s = "s\<lparr>sc_rrm := map_emplace sfd ?nrr (sc_rrm s)\<rparr>"
  show ?thesis
  proof (cases "rr_valid ?rr")
    case True
    then obtain br s1 where rd: "read_from_sfd sc_events_update (sc_call_back throws now sfd)
        (sc_close_read now sfd) epf sfd as (rr_br ?rr, ?s) = Ret (br, s1)" and s': "sc_regs s' = sc_regs s1"
      using assms(1) by (auto simp: sc_read_def Let_def cpp_bind_Ret_iff)
    from read_from_sfd_inv [OF rd sc_conn_ok_reader [OF assms(2)], of "\<lambda>t. sc_regs t = sc_regs s"] sc_call_back_regs
    show ?thesis unfolding s' by (fastforce simp: sc_close_read_def sc_a_zombied_def Let_def)
  qed (use assms(1) in \<open>auto simp: sc_read_def Let_def\<close>)
qed

text \<open>
  C5: a response callback is called at most once. In every state the client can reach, whatever the
  kernel, the server and the scheduler do, if no callback was registered twice then no callback
  was called twice, only registered callbacks were called, and a callback that still waits for its
  reply has not been called.
\<close>

theorem client_callbacks_at_most_once:
  assumes "reach sc_init (sc_step throws junk) (s, ts)" and "distinct (sc_regs s)"
  shows "distinct (map fst (sc_answers s)) \<and> fst ` set (sc_answers s) \<subseteq> set (sc_regs s)
    \<and> (\<forall>fd cbs u cb. sc_call_backs s fd = Some cbs \<longrightarrow> cbs u = Some cb \<longrightarrow>
         cb \<in> set (sc_regs s) \<and> cb \<notin> fst ` set (sc_answers s))"
proof -
  have once: "once_ok s" using sc.inv_reach [OF assms(1)] by (simp add: sc_inv_def)
  have "sc_cb s fd u = Some cb" if "sc_call_backs s fd = Some cbs" "cbs u = Some cb" for fd cbs u cb
    using that by (simp add: sc_cb_def)
  with once assms(2) show ?thesis unfolding once_ok_def by metis
qed

text \<open>A client that connected to its one host, on descriptor 7 with epoll descriptor 8.\<close>

definition demo_ans :: mc_ans where
  "demo_ans = \<lparr>mc_h_addr = Some [CHR 0x7f, CHR 0x00, CHR 0x00, CHR 0x01], mc_socket = 7, mc_connect = 0,
     mc_getfl = 2, mc_setfl = 0, mc_epoll_create = 8, mc_epoll_ctl = 0, mc_junk = (0, 0)\<rparr>"

definition demo_up :: "nat SocketClient" where
  "demo_up = (sc_new [''h:1''])\<lparr>sc_h_status := [''h:1'' \<mapsto> \<lparr>is_healthy = True, hs_sfd = 7, hs_ep_sfd = 8\<rparr>],
     sc_conns := [7 \<mapsto> ''h:1''],
     sc_events := \<lparr>sfd_events = [7 \<mapsto> EPOLLIN],
       calls = [Connect 7 [CHR 0x7f, CHR 0x00, CHR 0x00, CHR 0x01] (htons 1), Fcntl_setfl 7 (2 OR O_NONBLOCK),
                Epoll_add 8 7 EPOLLIN]\<rparr>\<rparr>"

lemma demo_up_connect: "connect_to_hosts (\<lambda>_. demo_ans) (sc_new [''h:1'']) = Ret (1, demo_up)"
proof -
  have "split ''h:1'' CHR '':'' = [''h'', ''1'']" "stoi ''1'' = Inr 1" by code_simp+
  then show ?thesis
    by (simp add: connect_to_hosts_def make_connection_eq demo_ans_def demo_up_def sc_new_def set_status_def
        unblock_socket_def create_and_config_epoll_def log_call_def Let_def)
qed

lemma sc_new_reach: "reach sc_init (sc_step throws junk) (sc_new hosts, [])"
  by (rule reach_init) (simp add: sc_init_def sc_new_def)

lemma demo_up_reach: "reach sc_init (sc_step throws junk) (demo_up, [])"
  using connect_run [OF demo_up_connect, of "[]"] reach_run [OF sc_new_reach] by (fastforce simp: eh_held_def)

text \<open>The client after it sent one request with callback 1, and an event announced the reply.\<close>

definition demo_sent :: "nat SocketClient" where
  "demo_sent = (sc_register 7 demo_uuid (Some 1) demo_up)
     \<lparr>sc_wrm := [7 \<mapsto> \<lparr>wr_bw = \<lparr>bw_buffer = demo_uuid @ ''x'' @ [EOT]\<rparr>, wr_valid = True\<rparr>],
      sc_events := arm EPOLLOUT 8 7 (sc_events demo_up)\<rparr>"

lemma demo_sent_send: "sc_send_msg junk ''x'' 1 0 (Some 1) demo_uuid demo_up = Ret (True, demo_sent)"
proof -
  have "pack_frame_ptr (demo_uuid @ [CHR 0x00]) ''x'' 1 (replicate (unat (frame_size 1)) junk) = Ret (demo_uuid @ ''x'' @ [EOT])"
    using make_frame_ok [of "demo_uuid @ [CHR 0x00]" "''x''" junk]
    by (simp add: make_frame_def pack_frame_overloads demo_uuid_def)
  then show ?thesis
    by (simp add: sc_send_msg_def sc_enqueue_def demo_up_def demo_sent_def sc_new_def new_wr_def sc_register_def
        bw_new_def bw_write_ok demo_uuid_def map_emplace_def map_at_def)
qed

lemma demo_sent_reach: "reach sc_init (sc_step throws junk) (demo_sent, [])"
  using send_run [OF demo_sent_send] reach_run [OF demo_up_reach] by fast

definition demo_event :: "nat SocketClient" where
  "demo_event = sc_process_epoll_events 5 8 (Some [(EPOLLIN, 7)]) demo_sent"

lemma demo_event_reach: "reach sc_init (sc_step throws junk) (demo_event, [])"
  by (rule reach_step [OF demo_sent_reach sc_events_step]) (simp_all add: demo_event_def z_held_def)

lemma demo_read_reach:
  assumes "sc_read throws 5 8 7 as (demo_event\<lparr>sc_r_tp := []\<rparr>) = Ret s"
  shows "reach sc_init (sc_step throws junk) (s, [])"
  by (rule reach_step [OF demo_event_reach sc_read_step [where before = "[]" and after = "[]"]])
    (use assms in \<open>simp_all add: z_held_def demo_event_def demo_sent_def sc_register_def demo_up_def sc_new_def
       sc_process_epoll_events_def sc_process_event_def sc_read_callback_def ev_bits\<close>)

lemmas demo_event_simps = demo_event_def demo_sent_def demo_up_def sc_new_def sc_register_def
  sc_process_epoll_events_def sc_process_event_def sc_read_callback_def

text \<open>The reply arrived and was read.\<close>

theorem client_callbacks_at_most_once_witness:
  "\<exists>s. reach sc_init (sc_step (\<lambda>cb m. False) CHR 0x00) (s, []) \<and> sc_regs s = [1 :: nat] \<and> sc_answers s = [(1, ''hi'')]
     \<and> distinct (map fst (sc_answers s)) \<and> (\<forall>cbs u cb. sc_call_backs s 7 = Some cbs \<longrightarrow> cbs u = Some cb \<longrightarrow> cb \<noteq> 1)"
proof -
  let ?f = "demo_uuid @ ''hi''" and ?s = "demo_event\<lparr>sc_r_tp := []\<rparr>"
  have "EOT \<notin> set ?f" by (simp add: demo_uuid_def EOT_def)
  then have "split_frames EOT [] (?f @ [EOT]) = ([?f], [])"
    using split_frames_stream [of "[?f]" EOT "[]"] by simp
  with sc_read_outcome [of ?s 7 "\<lparr>rr_br = br_new EOT, rr_valid = True\<rparr>" "[?f @ [EOT]]" "[?f]" "[]"
      "R_err EAGAIN" EAGAIN "\<lambda>cb m. False" 5 8 "[]"]
  obtain s where s: "sc_read (\<lambda>cb m. False) 5 8 7 [R_bytes (?f @ [EOT]), R_err EAGAIN] ?s = Ret s"
    "sc_answers s = sc_answers ?s @ answers_for (sc_cb ?s 7) (map frame_parts [?f])"
    by (auto simp: demo_event_simps br_new_def reader_ok_def demo_uuid_def ev_bits)
  have ok: "sc_conn_ok ?s"
    using sc.inv_reach [OF demo_event_reach [of "\<lambda>cb m. False" "CHR 0x00"]] by (simp add: sc_inv_def sc_threads_ok_def)
  have "sc_cb ?s 7 demo_uuid = Some 1" "sc_answers ?s = []" "sc_regs ?s = [1]"
    by (simp_all add: sc_cb_def demo_event_simps ev_bits)
  moreover have "frame_parts ?f = (demo_uuid, ''hi'')" by (simp add: frame_parts_def demo_uuid_def)
  ultimately have "sc_answers s = [(1, ''hi'')]" using s(2) by simp
  moreover have "sc_regs s = [1]" using sc_read_regs [OF s(1)] ok \<open>sc_regs ?s = [1]\<close> by simp
  moreover have r: "reach sc_init (sc_step (\<lambda>cb m. False) CHR 0x00) (s, [])" by (rule demo_read_reach [OF s(1)])
  moreover have "\<forall>cbs u cb. sc_call_backs s 7 = Some cbs \<longrightarrow> cbs u = Some cb \<longrightarrow> cb \<notin> fst ` set (sc_answers s)"
    "distinct (map fst (sc_answers s))"
    using client_callbacks_at_most_once [OF r] \<open>sc_regs s = [1]\<close> by simp_all
  ultimately show ?thesis by (intro exI [of _ s]) fastforce
qed

text \<open>
  C11: in every state the client can reach, with its connections made, retried and reaped and its
  messages sent one critical section at a time and any steps of other threads in between: every
  reader holds an unfinished frame free of the delimiter, resources that are no longer valid are
  marked for the reaper, and every event mask is made of \<^verbatim>\<open>EPOLLIN\<close> and \<^verbatim>\<open>EPOLLOUT\<close>. Nothing is
  claimed about the kernel here: a connection's mask may differ from what its epoll instance was
  asked for, because \<^verbatim>\<open>make_connection\<close> stores the mask without telling the kernel.
\<close>

theorem client_invariant:
  assumes "reach sc_init (sc_step throws junk) (s, ts)"
  shows "(\<forall>fd rr. sc_rrm s fd = Some rr \<longrightarrow>
         br_del (rr_br rr) = EOT \<and> EOT \<notin> set (br_buffer (rr_br rr)) \<and> (rr_valid rr \<or> fd \<in> dom (sc_zm s)))
    \<and> (\<forall>fd wr. sc_wrm s fd = Some wr \<longrightarrow> wr_valid wr \<or> fd \<in> dom (sc_zm s))
    \<and> (\<forall>fd e. sfd_events (sc_events s) fd = Some e \<longrightarrow> e \<in> {0, EPOLLIN, EPOLLOUT, EPOLLIN OR EPOLLOUT})"
proof -
  have "sc_conn_ok s" using sc.inv_reach [OF assms] by (simp add: sc_inv_def sc_threads_ok_def)
  then show ?thesis unfolding sc_conn_ok_def reader_ok_def masks_ok_def ev_mask_def
    by (intro conjI) (simp_all add: domIff, metis+)
qed

text \<open>The server sent the start of a reply and closed the connection.\<close>

theorem client_invariant_witness:
  "\<exists>s rr. reach sc_init (sc_step (\<lambda>cb m. False) CHR 0x00) (s :: nat SocketClient, []) \<and> sc_rrm s 7 = Some rr \<and> br_buffer (rr_br rr) = ''ab''
     \<and> \<not> rr_valid rr \<and> 7 \<in> dom (sc_zm s)"
proof -
  let ?s = "demo_event\<lparr>sc_r_tp := []\<rparr>"
  have "split_frames EOT [] ''ab'' = ([], ''ab'')" using split_frames_stream [of "[]" EOT "''ab''"] by (simp add: EOT_def)
  with sc_read_outcome [of ?s 7 "\<lparr>rr_br = br_new EOT, rr_valid = True\<rparr>" "[''ab'']" "[]" "''ab''"
      "R_bytes []" EAGAIN "\<lambda>cb m. False" 5 8 "[]"]
  obtain s where s: "sc_read (\<lambda>cb m. False) 5 8 7 [R_bytes ''ab'', R_bytes []] ?s = Ret s"
    "sc_rrm s 7 = Some \<lparr>rr_br = \<lparr>br_buffer = ''ab'', br_del = EOT\<rparr>, rr_valid = False\<rparr>"
    by (auto simp: demo_event_simps br_new_def reader_ok_def ev_bits)
  have r: "reach sc_init (sc_step (\<lambda>cb m. False) CHR 0x00) (s, [])" by (rule demo_read_reach [OF s(1)])
  have "\<forall>fd rr. sc_rrm s fd = Some rr \<longrightarrow> rr_valid rr \<or> fd \<in> dom (sc_zm s)" using client_invariant [OF r] by blast
  then have "7 \<in> dom (sc_zm s)" using s(2) by fastforce
  then show ?thesis using r s(2) by (intro exI [of _ s] exI [of _ "\<lparr>rr_br = \<lparr>br_buffer = ''ab'', br_del = EOT\<rparr>, rr_valid = False\<rparr>"]) simp
qed

subsection \<open>Properties: requests\<close>

lemma sc_send_msg_eq:
  assumes "unat ni < length (sc_desired_hosts s)" and "length u = 37" and "length data + 38 < 2 ^ 32"
    and host: "host = sc_desired_hosts s ! unat ni"
    and status: "status = map_at (sc_h_status s) hs_default host"
    and s1: "s1 = s\<lparr>sc_h_status := map_emplace host hs_default (sc_h_status s)\<rparr>"
    and s2: "s2 = sc_register (hs_sfd status) u cb s1"
    and wr: "wr = map_at (sc_wrm s) new_wr (hs_sfd status)"
  shows "sc_send_msg junk data (length data) ni cb u s = Ret
    (if \<not> is_healthy status then (False, s1)
     else if wr_valid wr
     then (True, s2\<lparr>sc_wrm := (sc_wrm s)(hs_sfd status \<mapsto>
             wr\<lparr>wr_bw := \<lparr>bw_buffer = bw_buffer (wr_bw wr) @ u @ data @ [EOT]\<rparr>\<rparr>),
             sc_events := arm EPOLLOUT (hs_ep_sfd status) (hs_sfd status) (sc_events s)\<rparr>)
     else (False, s2\<lparr>sc_wrm := map_emplace (hs_sfd status) new_wr (sc_wrm s)\<rparr>))"
proof -
  have "make_frame junk (u @ [CHR 0x00], data) = Ret (u @ data @ [EOT])"
    using assms(2,3) by (simp add: make_frame_ok)
  then have pack: "pack_frame_ptr (u @ [CHR 0x00]) data (length data)
      (replicate (unat (frame_size (length data))) junk) = Ret (u @ data @ [EOT])"
    by (simp add: make_frame_def pack_frame_overloads)
  have bw: "bw_write (u @ data @ [EOT]) w = Ret \<lparr>bw_buffer = bw_buffer w @ u @ data @ [EOT]\<rparr>" for w
    using assms(2,3) by (cases w) (simp add: bw_write_ok)
  have reg: "sc_wrm s2 = sc_wrm s" "sc_events s2 = sc_events s"
    by (simp_all add: s2 s1 sc_register_def split: option.splits)
  have "rd_at (sc_desired_hosts s) (unat ni) = Ret host" using assms(1) by (simp add: host)
  then have "sc_send_msg junk data (length data) ni cb u s =
      (if is_healthy status then sc_enqueue (u @ data @ [EOT]) (hs_ep_sfd status) (hs_sfd status) s2
       else Ret (False, s1))"
    by (simp add: sc_send_msg_def Let_def pack status s1 s2)
  then show ?thesis by (simp add: sc_enqueue_def Let_def reg bw wr)
qed

lemma sc_send_msg_ok:
  assumes "unat ni < length (sc_desired_hosts s)" and "length u = 37" and "length data + 38 < 2 ^ 32"
    and "sc_h_status s (sc_desired_hosts s ! unat ni) = Some status" and "is_healthy status"
    and "wr = map_at (sc_wrm s) new_wr (hs_sfd status)" and "wr_valid wr"
  shows "sc_send_msg junk data (length data) ni cb u s = Ret (True, (sc_register (hs_sfd status) u cb s)
     \<lparr>sc_wrm := (sc_wrm s)(hs_sfd status \<mapsto>
        wr\<lparr>wr_bw := \<lparr>bw_buffer = bw_buffer (wr_bw wr) @ u @ data @ [EOT]\<rparr>\<rparr>),
      sc_events := arm EPOLLOUT (hs_ep_sfd status) (hs_sfd status) (sc_events s)\<rparr>)"
proof -
  have "s\<lparr>sc_h_status := map_emplace (sc_desired_hosts s ! unat ni) hs_default (sc_h_status s)\<rparr> = s"
    using assms(4) by (simp add: map_emplace_def)
  then show ?thesis
    using sc_send_msg_eq [OF assms(1-3) refl refl refl refl refl, of junk cb] assms(4-7) by simp
qed

text \<open>
  C17: the non-blocking \<^verbatim>\<open>send_msg\<close> on every branch, for a host index in range, a uuid string of 37 bytes
  and a message whose frame size fits 32 bits. An unhealthy host: \<^verbatim>\<open>false\<close>, nothing is queued and
  nothing registered. A healthy host: the callback, if there is one, is stored under the uuid in the
  table of the host's descriptor. With a valid writer the result is \<^verbatim>\<open>true\<close>, the frame is at the
  end of the queue and the descriptor waits for \<^verbatim>\<open>EPOLLOUT\<close>. With a dead writer it is \<^verbatim>\<open>false\<close> and
  nothing is queued, but the callback stays stored. Nothing else changes, but that the status of an
  unknown host is created.
\<close>

theorem client_send_msg_result:
  assumes "unat ni < length (sc_desired_hosts s)" and "length u = 37" and "length data + 38 < 2 ^ 32"
    and host: "host = sc_desired_hosts s ! unat ni"
    and status: "status = map_at (sc_h_status s) hs_default host"
    and sfd: "sfd = hs_sfd status"
    and s1: "s1 = s\<lparr>sc_h_status := map_emplace host hs_default (sc_h_status s)\<rparr>"
    and s2: "s2 = (case cb of None \<Rightarrow> s1
      | Some c \<Rightarrow> s1\<lparr>sc_call_backs := (sc_call_backs s)(sfd \<mapsto> (map_at (sc_call_backs s) Map.empty sfd)(u \<mapsto> c)),
                     sc_regs := sc_regs s @ [c]\<rparr>)"
    and wr: "wr = map_at (sc_wrm s) new_wr sfd"
  shows "sc_send_msg junk data (length data) ni cb u s = Ret
    (if \<not> is_healthy status then (False, s1)
     else if wr_valid wr
     then (True, s2\<lparr>sc_wrm := (sc_wrm s)(sfd \<mapsto>
             wr\<lparr>wr_bw := \<lparr>bw_buffer = bw_buffer (wr_bw wr) @ u @ data @ [EOT]\<rparr>\<rparr>),
             sc_events := arm EPOLLOUT (hs_ep_sfd status) sfd (sc_events s)\<rparr>)
     else (False, s2\<lparr>sc_wrm := map_emplace sfd new_wr (sc_wrm s)\<rparr>))"
proof -
  have "s2 = sc_register (hs_sfd status) u cb s1" by (simp add: s2 s1 sfd sc_register_def split: option.splits)
  from sc_send_msg_eq [OF assms(1-4) status s1 this wr [unfolded sfd]] show ?thesis by (simp add: sfd)
qed

text \<open>The writer of the connection is dead: the send fails and callback 2 stays stored beside callback 1.\<close>

theorem client_send_msg_result_witness:
  "\<exists>s'. sc_send_msg CHR 0x00 ''x'' 1 0 (Some 2) (replicate 37 CHR ''v'')
        (demo_client\<lparr>sc_wrm := [7 \<mapsto> \<lparr>wr_bw = bw_new, wr_valid = False\<rparr>]\<rparr>) = Ret (False, s')
     \<and> sc_call_backs s' = [7 \<mapsto> [demo_uuid \<mapsto> 1, replicate 37 CHR ''v'' \<mapsto> 2]] \<and> sc_regs s' = [1, 2]"
  using client_send_msg_result [of 0 "demo_client\<lparr>sc_wrm := [7 \<mapsto> \<lparr>wr_bw = bw_new, wr_valid = False\<rparr>]\<rparr>"
      "replicate 37 CHR ''v''" "''x''", OF _ _ _ refl refl refl refl refl refl, of "CHR 0x00" "Some 2"]
  by (simp add: demo_client_def sc_new_def fun_upd_twist)

text \<open>
  C34: a key is always routed to one of the desired hosts, and only its last seven bytes count; with no
  hosts at all the remainder is a division by zero.
\<close>

theorem client_route_in_range:
  assumes "length key < 2 ^ 32"
  shows "(n = 0 \<longrightarrow> route key n = Undef)
    \<and> (0 < n \<and> n < 2 ^ 32 \<longrightarrow> (\<exists>ni. route key n = Ret ni \<and> unat ni < n
         \<and> (7 \<le> length key \<longrightarrow> route (drop (length key - 7) key) n = Ret ni)))"
proof -
  obtain h where h: "hash_it key = Ret h" using hash_fold [OF assms] by blast
  have "unat (of_nat (unat h mod n) :: u32) < n" if "0 < n" "n < 2 ^ 32"
    using that unat_of_nat_u32 [of "unat h mod n"] by (simp add: order_less_trans [OF mod_less_divisor])
  moreover have "hash_it (drop (length key - 7) key) = Ret h" if "7 \<le> length key"
    using hash_suffix [OF that assms] h by simp
  ultimately show ?thesis using h by (auto simp: route_def)
qed

theorem client_route_in_range_witness: "\<exists>ni. route ''user-0000001'' 3 = Ret ni \<and> unat ni < 3"
  using client_route_in_range [of "''user-0000001''" 3] by auto

lemma sc_send_msg_answers: "sc_send_msg junk data n ni cb u s = Ret (ok, s') \<Longrightarrow> sc_answers s' = sc_answers s"
  by (auto simp: sc_send_msg_def sc_enqueue_def sc_register_def cpp_bind_Ret_iff Let_def split: if_splits option.splits)

lemma reply_of_new:
  "sc_answers s' = sc_answers s @ replies \<Longrightarrow> reply_of cb (length (sc_answers s)) s' =
     (case filter (\<lambda>a. fst a = cb) replies of [] \<Rightarrow> None | as \<Rightarrow> Some (snd (last as)))"
  by (simp add: reply_of_def split: list.splits)

text \<open>
  C18: the blocking \<^verbatim>\<open>send_msg\<close> on every branch, whatever the other threads do between its steps. The
  state \<open>s1\<close> is the one the message is sent in, \<open>replies\<close> are the calls of callbacks from there to
  the end. It reports success iff the host is healthy and its writer valid in \<open>s1\<close>, so that the
  message was queued, or a reply to it came; its result is the last reply, or not assigned when
  there was none. So after a timeout it reports success with no result. On every branch it then
  removes what waits under its uuid on the descriptor the host had at the start, and nothing else.
  If the host has got another descriptor before the send and no reply came, its callback stays
  registered there, though the variables it refers to are gone.
\<close>

theorem client_block_result:
  assumes "unat ni < length (sc_desired_hosts s)" and "length out = 36" and "length data + 38 < 2 ^ 32"
    and host: "host = sc_desired_hosts s ! unat ni"
    and sfd: "sfd = hs_sfd (map_at (sc_h_status s) hs_default host)"
    and between: "between (s\<lparr>sc_h_status := map_emplace host hs_default (sc_h_status s)\<rparr>) = Ret s1"
      "sc_desired_hosts s1 = sc_desired_hosts s"
    and status: "status = map_at (sc_h_status s1) hs_default host"
    and queued: "queued \<longleftrightarrow> is_healthy status \<and> wr_valid (map_at (sc_wrm s1) new_wr (hs_sfd status))"
    and wait: "\<forall>s2. sc_send_msg junk data (length data) ni (Some cb) (out @ [CHR 0x00]) s1 = Ret (queued, s2) \<longrightarrow>
      wait queued s2 = Ret s3" "sc_answers s3 = sc_answers s1 @ replies"
    and mine: "mine = map snd (filter (\<lambda>a. fst a = cb) replies)"
  shows "\<exists>s'. sc_send_block junk data (length data) ni cb out between wait s =
      Ret ((queued \<or> mine \<noteq> [], if mine = [] then None else Some (last mine)), s')
    \<and> (\<forall>fd u. sc_cb s' fd u = (if fd = sfd \<and> u = out @ [CHR 0x00] then None else sc_cb s3 fd u))
    \<and> sc_answers s' = sc_answers s3 \<and> sc_wrm s' = sc_wrm s3 \<and> sc_regs s' = sc_regs s3
    \<and> (hs_sfd status \<noteq> sfd \<and> sc_cb s3 (hs_sfd status) (out @ [CHR 0x00]) = Some cb \<longrightarrow>
         sc_cb s' (hs_sfd status) (out @ [CHR 0x00]) = Some cb)"
proof -
  let ?u = "out @ [CHR 0x00]"
  have "unat ni < length (sc_desired_hosts s1)" "host = sc_desired_hosts s1 ! unat ni" using assms(1) host between(2) by simp_all
  from sc_send_msg_eq [OF this(1) _ assms(3) this(2) status refl refl refl, of ?u junk "Some cb"] assms(2)
  obtain s2 where send: "sc_send_msg junk data (length data) ni (Some cb) ?u s1 = Ret (queued, s2)"
    by (auto simp: queued split: if_splits)
  have w: "wait queued s2 = Ret s3" using wait(1) send by blast
  have ans: "sc_answers s2 = sc_answers s1" by (rule sc_send_msg_answers [OF send])
  have reply: "reply_of cb (length (sc_answers s1)) s3 = (if mine = [] then None else Some (last mine))"
    unfolding reply_of_new [OF wait(2)] by (auto simp: mine last_map split: list.splits)
  have "sc_send_block junk data (length data) ni cb out between wait s =
      Ret ((queued \<or> mine \<noteq> [], if mine = [] then None else Some (last mine)), sc_unregister sfd ?u s3)"
    using assms(1,2) between(1) send w by (simp add: sc_send_block_def build_uuid_str_def host sfd ans reply Let_def)
  moreover have "sc_cb (sc_unregister sfd ?u s3) fd u = (if fd = sfd \<and> u = ?u then None else sc_cb s3 fd u)" for fd u
    by (simp add: sc_cb_def sc_unregister_def)
  ultimately show ?thesis by (simp add: sc_unregister_def)
qed

text \<open>A timeout; and a host that is down when the message is sent.\<close>

theorem client_block_result_witness:
  "(\<exists>s'. sc_send_block CHR 0x00 ''ping'' (length ''ping'') 0 9 (replicate 36 CHR ''b'') Ret (\<lambda>_. Ret) demo_client = Ret ((True, None), s')
      \<and> sc_cb s' 7 (replicate 36 CHR ''b'' @ [CHR 0x00]) = None \<and> sc_cb s' 7 demo_uuid = Some 1)
   \<and> (\<exists>s'. sc_send_block CHR 0x00 ''ping'' (length ''ping'') 0 9 (replicate 36 CHR ''b'')
        (\<lambda>t. Ret (t\<lparr>sc_h_status := Map.empty\<rparr>)) (\<lambda>_. Ret) demo_client = Ret ((False, None), s'))"
  (is "?A \<and> ?B")
proof
  let ?out = "replicate 36 CHR ''b''" and ?u = "replicate 36 CHR ''b'' @ [CHR 0x00]"
  let ?st = "\<lparr>is_healthy = True, hs_sfd = 7, hs_ep_sfd = 8\<rparr>"
  have "hd demo_uuid \<noteq> hd ?u" by (simp add: demo_uuid_def hd_append)
  then have ne: "demo_uuid \<noteq> ?u" by metis
  obtain s2 where s2: "sc_send_msg CHR 0x00 ''ping'' (length ''ping'') 0 (Some 9) ?u demo_client = Ret (True, s2)"
      "sc_cb s2 7 demo_uuid = Some 1" "sc_answers s2 = []"
    using sc_send_msg_ok [of 0 demo_client ?u "''ping''" ?st, OF _ _ _ _ _ refl, of "CHR 0x00" "Some 9"]
    by (auto simp: demo_client_def sc_new_def new_wr_def sc_register_def sc_cb_def ne)
  have pre: "unat (0 :: u32) < length (sc_desired_hosts demo_client)" "length ?out = 36" "length ''ping'' + 38 < 2 ^ 32"
    "''h:1'' = sc_desired_hosts demo_client ! unat (0 :: u32)" "7 = hs_sfd (map_at (sc_h_status demo_client) hs_default ''h:1'')"
    by (simp_all add: demo_client_def sc_new_def)
  have same: "demo_client\<lparr>sc_h_status := map_emplace ''h:1'' hs_default (sc_h_status demo_client)\<rparr> = demo_client"
    "?st = map_at (sc_h_status demo_client) hs_default ''h:1''"
    "True \<longleftrightarrow> is_healthy ?st \<and> wr_valid (map_at (sc_wrm demo_client) new_wr (hs_sfd ?st))"
    by (simp_all add: demo_client_def sc_new_def map_emplace_def new_wr_def)
  have w: "\<forall>t. sc_send_msg CHR 0x00 ''ping'' (length ''ping'') 0 (Some 9) ?u demo_client = Ret (True, t) \<longrightarrow> Ret t = Ret s2"
    using s2(1) by auto
  have "sc_answers s2 = sc_answers demo_client @ []" using s2(3) by (simp add: demo_client_def sc_new_def)
  from client_block_result [where between = Ret and wait = "\<lambda>_. Ret" and replies = "[]", OF pre(1-5) _ refl same(2,3) w this refl] same(1)
  obtain s' where s': "sc_send_block CHR 0x00 ''ping'' (length ''ping'') 0 9 ?out Ret (\<lambda>_. Ret) demo_client = Ret ((True, None), s')"
    "\<forall>fd u. sc_cb s' fd u = (if fd = 7 \<and> u = ?u then None else sc_cb s2 fd u)" by auto
  from s'(2) have "sc_cb s' 7 demo_uuid = sc_cb s2 7 demo_uuid" using ne by metis
  moreover from s'(2) have "sc_cb s' 7 ?u = None" by simp
  ultimately show ?A using s'(1) s2(2) by metis
  let ?s1 = "demo_client\<lparr>sc_h_status := Map.empty\<rparr>" and ?s3 = "demo_client\<lparr>sc_h_status := [''h:1'' \<mapsto> hs_default]\<rparr>"
  have down: "hs_default = map_at (sc_h_status ?s1) hs_default ''h:1''"
    "False \<longleftrightarrow> is_healthy hs_default \<and> wr_valid (map_at (sc_wrm ?s1) new_wr (hs_sfd hs_default))"
    "sc_desired_hosts ?s1 = sc_desired_hosts demo_client" "sc_answers ?s3 = sc_answers ?s1 @ []"
    by (simp_all add: hs_default_def)
  have w: "\<forall>t. sc_send_msg CHR 0x00 ''ping'' (length ''ping'') 0 (Some 9) ?u ?s1 = Ret (False, t) \<longrightarrow> Ret t = Ret ?s3"
    by (auto simp: demo_client_def sc_new_def hs_default_def map_emplace_def sc_send_msg_def)
  from client_block_result [where between = "\<lambda>t. Ret (t\<lparr>sc_h_status := Map.empty\<rparr>)" and wait = "\<lambda>_. Ret" and replies = "[]",
      OF pre(1-5) _ down(3,1,2) w down(4) refl] show ?B by auto
qed

subsection \<open>Properties: writing\<close>

text \<open>
  \<^verbatim>\<open>SocketClient::write\<close> conserves the bytes of a connection as long as the kernel takes every chunk as
  a whole: it returns, the bytes sent so far followed by the bytes still queued are what they were
  before, and when bytes are left the descriptor waits for \<^verbatim>\<open>EPOLLOUT\<close>, or the connection failed
  and is invalid and marked for the reaper with the present time.
\<close>

lemma client_write_conserves:
  assumes "wr = map_at (sc_wrm s) new_wr sfd" and "wr_valid wr" and "full_writes (bw_size (wr_bw wr)) as"
  shows "\<exists>s' wr'. sc_write junk now epf sfd as s = Ret s' \<and> sc_wrm s' sfd = Some wr'
    \<and> sent_on sfd (calls (sc_events s')) @ bw_buffer (wr_bw wr') =
        sent_on sfd (calls (sc_events s)) @ bw_buffer (wr_bw wr)
    \<and> (bw_buffer (wr_bw wr') = [] \<or> armed EPOLLOUT (sc_events s') sfd
       \<or> \<not> wr_valid wr' \<and> sc_zm s' sfd = Some now)"
proof -
  let ?s = "s\<lparr>sc_wrm := map_emplace sfd new_wr (sc_wrm s)\<rparr>"
  let ?cl = "sc_close_write now sfd :: 'a SocketClient \<Rightarrow> 'a SocketClient"
  let ?closed = "\<lambda>t :: 'a SocketClient. (\<forall>wr. sc_wrm t sfd = Some wr \<longrightarrow> \<not> wr_valid wr) \<and> sc_zm t sfd = Some now"
  have cl: "sc_events (?cl t) = sc_events t" "?closed (?cl t)" for t
    by (auto simp: sc_close_write_def sc_a_zombied_def Let_def)
  obtain bw s1 where
    wt: "write_to_sfd sc_events_update ?cl junk epf sfd as (wr_bw wr, ?s) = Ret (bw, s1)"
    and sent: "sent_on sfd (calls (sc_events s1)) @ bw_buffer bw =
        sent_on sfd (calls (sc_events ?s)) @ bw_buffer (wr_bw wr)"
    and fin: "bw_buffer bw = [] \<or> armed EPOLLOUT (sc_events s1) sfd \<or> ?closed s1"
    using sce.write_conserves [where closed = ?closed, OF cl assms(3)] by blast
  have "sc_wrm s1 sfd \<noteq> None"
    by (rule write_to_sfd_inv [OF wt, of "\<lambda>t. sc_wrm t sfd \<noteq> None"])
      (auto simp: sc_close_write_def sc_a_zombied_def Let_def)
  then show ?thesis using assms(1,2) wt sent fin by (auto simp: sc_write_def Let_def)
qed

lemma sc_write_all:
  assumes "wr = map_at (sc_wrm s) new_wr sfd" and "wr_valid wr" and "full_writes (bw_size (wr_bw wr)) as"
    and "\<forall>a \<in> set as. \<forall>e. a \<noteq> W_err e"
  shows "\<exists>s'. sc_write junk now epf sfd as s = Ret s' \<and> sc_rrm s' = sc_rrm s \<and> sc_cb s' = sc_cb s
    \<and> sc_answers s' = sc_answers s
    \<and> sent_on sfd (calls (sc_events s')) = sent_on sfd (calls (sc_events s)) @ bw_buffer (wr_bw wr)"
proof -
  let ?s = "s\<lparr>sc_wrm := map_emplace sfd new_wr (sc_wrm s)\<rparr>"
  let ?P = "\<lambda>t. sc_rrm t = sc_rrm s \<and> sc_cb t = sc_cb s \<and> sc_answers t = sc_answers s"
  obtain s' where "write_to_sfd sc_events_update (sc_close_write now sfd) junk epf sfd as (wr_bw wr, ?s) =
      Ret (bw_new, s')" "?P s'"
    "sent_on sfd (calls (sc_events s')) = sent_on sfd (calls (sc_events s)) @ bw_buffer (wr_bw wr)"
    using sce.write_all [OF assms(3,4), of ?P ?s sfd "sc_close_write now sfd" junk epf] by auto
  then show ?thesis using assms(1,2) by (simp add: sc_write_def Let_def)
qed

subsection \<open>Properties: connecting\<close>

text \<open>Specification: how an attempt ends; it does not depend on the client.\<close>

definition mc_outcome :: "mc_ans \<Rightarrow> bytes \<Rightarrow> bool cpp" where
  "mc_outcome a node =
     (case split node CHR '':'' of
        host # port_str # others \<Rightarrow>
          (case stoi port_str of
             Inl e \<Rightarrow> Ret False
           | Inr port \<Rightarrow>
               if mc_socket a < 0 then Ret False
               else if mc_h_addr a = None then Undef
               else if mc_connect a < 0 then Ret False
               else if mc_getfl a < 0 \<or> mc_setfl a < 0 \<or> mc_epoll_create a < 0 \<or> mc_epoll_ctl a < 0
               then Exit 1
               else Ret True)
      | _ \<Rightarrow> Undef)"

lemma make_connection_outcome:
  "cpp_bind (make_connection a node s) (\<lambda>(ok, s'). Ret ok) = mc_outcome a node"
proof -
  consider "split node CHR '':'' = []" | h where "split node CHR '':'' = [h]"
    | h p others where "split node CHR '':'' = h # p # others" by (metis list.exhaust)
  then show ?thesis
  proof cases
    case (3 h p others)
    show ?thesis
    proof (cases "stoi p")
      case (Inr port)
      with 3 show ?thesis
        by (cases "mc_h_addr a")
          (simp_all add: make_connection_eq mc_outcome_def Let_def unblock_socket_def create_and_config_epoll_def)
    qed (use 3 in \<open>simp add: make_connection_eq mc_outcome_def Let_def\<close>)
  qed (simp_all add: make_connection_eq mc_outcome_def Let_def)
qed

lemma make_connection_ok:
  "mc_outcome a node = Ret ok \<Longrightarrow> \<exists>s'. make_connection a node s = Ret (ok, s')"
  using make_connection_outcome [of a node s] by (auto simp: cpp_bind_Ret_iff)

text \<open>
  C19: \<^verbatim>\<open>connect_to_hosts\<close> with attempts that end as \<open>oks\<close> says: it returns the number of successful
  attempts, appends exactly the hosts whose attempt failed to the retry list, in order, and every
  host has a status, healthy iff the last attempt for it succeeded.
\<close>

theorem client_connect_result:
  assumes "length oks = length (sc_desired_hosts s)"
    and "\<forall>i < length oks. mc_outcome (ans i) (sc_desired_hosts s ! i) = Ret (oks ! i)"
  shows "\<exists>s'. connect_to_hosts ans s = Ret (of_nat (length (filter (\<lambda>ok. ok) oks)), s')
    \<and> sc_e_hosts s' = sc_e_hosts s @ map fst (filter (\<lambda>(h, ok). \<not> ok) (zip (sc_desired_hosts s) oks))
    \<and> (\<forall>h. map_option is_healthy (sc_h_status s' h) =
         (case map_of (rev (zip (sc_desired_hosts s) oks)) h of
            None \<Rightarrow> map_option is_healthy (sc_h_status s h) | Some ok \<Rightarrow> Some ok))"
proof -
  let ?body = "\<lambda>(i, t) (s_conns :: u32, s). cpp_bind (make_connection (ans i) t s) (\<lambda>(ok, s).
      if ok then Ret (s_conns + 1, s) else Ret (s_conns, s\<lparr>sc_e_hosts := sc_e_hosts s @ [t]\<rparr>))"
  have "\<exists>s'. for_each (List.enumerate k hosts) ?body (n, s) = Ret (n + of_nat (length (filter (\<lambda>ok. ok) oks)), s')
    \<and> sc_e_hosts s' = sc_e_hosts s @ map fst (filter (\<lambda>(h, ok). \<not> ok) (zip hosts oks))
    \<and> (\<forall>h. map_option is_healthy (sc_h_status s' h) = (case map_of (rev (zip hosts oks)) h of
          None \<Rightarrow> map_option is_healthy (sc_h_status s h) | Some ok \<Rightarrow> Some ok))"
    if "length oks = length hosts" "\<forall>i < length oks. mc_outcome (ans (k + i)) (hosts ! i) = Ret (oks ! i)"
    for k n hosts oks and s :: "'a SocketClient"
    using that
  proof (induction hosts arbitrary: k n oks s)
    case (Cons h hosts)
    then obtain ok oks' where oks: "oks = ok # oks'" "length oks' = length hosts" by (cases oks) auto
    have "mc_outcome (ans k) h = Ret ok" using Cons.prems(2) oks by force
    from make_connection_ok [OF this, of s] obtain t where mc: "make_connection (ans k) h s = Ret (ok, t)" by blast
    let ?t = "if ok then t else t\<lparr>sc_e_hosts := sc_e_hosts t @ [h]\<rparr>" and ?n = "if ok then n + 1 else n"
    have "\<forall>i < length oks'. mc_outcome (ans (Suc k + i)) (hosts ! i) = Ret (oks' ! i)"
      using Cons.prems(2) oks by (metis Suc_less_eq add_Suc_shift length_Cons nth_Cons_Suc)
    from Cons.IH [OF oks(2) this, of ?n ?t] obtain s' where
      s': "for_each (List.enumerate (Suc k) hosts) ?body (?n, ?t) = Ret (?n + of_nat (length (filter (\<lambda>ok. ok) oks')), s')"
        "sc_e_hosts s' = sc_e_hosts ?t @ map fst (filter (\<lambda>(h, ok). \<not> ok) (zip hosts oks'))"
        "\<forall>g. map_option is_healthy (sc_h_status s' g) = (case map_of (rev (zip hosts oks')) g of
          None \<Rightarrow> map_option is_healthy (sc_h_status ?t g) | Some ok \<Rightarrow> Some ok)" by blast
    have "map_option is_healthy (sc_h_status ?t g) = (if g = h then Some ok else map_option is_healthy (sc_h_status s g))"
      for g using make_connection_frame(9) [OF mc] by auto
    with s'(3) have "map_option is_healthy (sc_h_status s' g) = (case map_of (rev (zip (h # hosts) oks)) g of
        None \<Rightarrow> map_option is_healthy (sc_h_status s g) | Some ok \<Rightarrow> Some ok)" for g
      by (cases "map_of (rev (zip hosts oks')) g") (simp_all add: oks map_add_def)
    with s'(1,2) mc oks make_connection_frame(4) [OF mc] show ?case
      by (intro exI [of _ s']) (simp add: ac_simps split: if_splits)
  qed simp
  from this [OF assms(1), of 0 0 s] assms(2) show ?thesis by (simp add: connect_to_hosts_def)
qed

lemma demo_outcomes: "mc_outcome demo_ans ''h:1'' = Ret True" "mc_outcome demo_ans ''h:x'' = Ret False"
  by code_simp+

theorem client_connect_result_witness:
  "\<exists>s'. connect_to_hosts (\<lambda>_. demo_ans) (sc_new [''h:1'', ''h:x''] :: nat SocketClient) = Ret (1, s')
    \<and> sc_e_hosts s' = [''h:x'']"
  using client_connect_result [of "[True, False]" "sc_new [''h:1'', ''h:x''] :: nat SocketClient" "\<lambda>_. demo_ans"]
  by (force simp: sc_new_def less_Suc_eq demo_outcomes)

text \<open>The two loops of \<^verbatim>\<open>retry_conn\<close>: the indices of the reconnected hosts, erased one after the other.\<close>

lemma retry_eq:
  fixes s :: "'a SocketClient"
  assumes "hosts = sc_e_hosts s" and "length hosts < 2 ^ 32"
    and "\<forall>i < length hosts. mc_outcome (ans i) (hosts ! i) = Ret (ok i)"
  shows "\<exists>s1. retry_conn ans s =
    cpp_bind (for_each (filter ok [0..<length hosts]) erase_at hosts) (\<lambda>h. Ret (s1\<lparr>sc_e_hosts := h\<rparr>))"
proof -
  let ?body = "\<lambda>i (sci, s). cpp_bind (rd_at (sc_e_hosts s) i) (\<lambda>node.
      cpp_bind (make_connection (ans i) node s) (\<lambda>(ok, s). Ret (if ok then sci @ [i] else sci, s)))"
  let ?P = "\<lambda>i (sci, t). sci = filter ok [0..<i] \<and> sc_e_hosts t = hosts"
  have "\<exists>st. for_each [0..<length hosts] ?body ([], s) = Ret st \<and> ?P (length hosts) st"
  proof (rule for_each_upt_inv)
    fix i and st :: "nat list \<times> 'a SocketClient"
    assume i: "i < length hosts" and P: "?P i st"
    obtain sci t where st: "st = (sci, t)" by fastforce
    obtain t' where mc: "make_connection (ans i) (hosts ! i) t = Ret (ok i, t')"
      using make_connection_ok assms(3) i by blast
    with i P st show "\<exists>st'. ?body i st = Ret st' \<and> ?P (Suc i) st'"
      using make_connection_frame(4) [OF mc] by simp
  qed (use assms(1) in simp_all)
  then obtain s1 where first: "for_u32 (length hosts) ?body ([], s) = Ret (filter ok [0..<length hosts], s1)"
    and s1: "sc_e_hosts s1 = hosts" using assms(2) by (auto simp: for_u32_bounded)
  have "length (filter ok [0..<length hosts]) < 2 ^ 32"
    using assms(2) le_less_trans [OF length_filter_le] by (metis length_upt diff_zero)
  moreover have "for_each [0..<length xs] (\<lambda>i. erase_at (xs ! i)) h = for_each xs erase_at h" for xs and h :: "bytes list"
    using for_each_map [of "(!) xs" "[0..<length xs]" erase_at h] by (simp add: map_nth)
  ultimately have "retry_conn ans s =
      cpp_bind (for_each (filter ok [0..<length hosts]) erase_at hosts) (\<lambda>h. Ret (s1\<lparr>sc_e_hosts := h\<rparr>))"
    using first s1 assms(1) by (simp add: retry_conn_def for_u32_bounded)
  then show ?thesis by blast
qed

lemma nths_erase:
  assumes "i < length xs" and "\<forall>b \<in> B. i \<le> b"
  shows "nths (take i xs @ drop (Suc i) xs) (- B) = nths xs (- insert i (Suc ` B))"
proof -
  have "xs = take i xs @ xs ! i # drop (Suc i) xs" using assms(1) by (simp add: id_take_nth_drop)
  then have "nths xs (- insert i (Suc ` B)) = nths (take i xs @ xs ! i # drop (Suc i) xs) (- insert i (Suc ` B))" by simp
  also have "\<dots> = nths (take i xs) (- insert i (Suc ` B)) @ nths (drop (Suc i) xs) {j. j + i \<notin> B}"
    using assms(1) by (auto simp: nths_append nths_Cons min_def intro!: arg_cong [of _ _ "nths (drop (Suc i) xs)"])
  also have "nths (take i xs) (- insert i (Suc ` B)) = take i xs"
    using assms by (intro nths_all) auto
  also have "take i xs = nths (take i xs) (- B)" using assms by (intro nths_all [symmetric]) auto
  finally show ?thesis using assms(1) by (simp add: nths_append min_def Compl_eq)
qed

text \<open>Erasing at indices taken before the first erase: the \<open>m\<close>th one hits what was \<open>m\<close> places further on.\<close>

lemma erase_stale:
  assumes "sorted_wrt (<) is"
  shows "for_each is erase_at xs =
    (if \<forall>m < length is. is ! m + m < length xs then Ret (nths xs (- {is ! m + m | m. m < length is})) else Undef)"
  using assms
proof (induction "is" arbitrary: xs)
  case Nil
  then show ?case by (simp add: nths_all)
next
  case (Cons i "is")
  let ?B = "{is ! m + m | m. m < length is}"
  have all: "(\<forall>m < length (i # is). (i # is) ! m + m < length xs) \<longleftrightarrow>
      i < length xs \<and> (\<forall>m < length is. is ! m + m < length xs - 1)"
    by (auto simp: All_less_Suc2 less_diff_conv)
  show ?case
  proof (cases "i < length xs")
    case True
    have "i \<le> b" if "b \<in> ?B" for b
      using that Cons.prems by (force dest: nth_mem)
    then have "nths (take i xs @ drop (Suc i) xs) (- ?B) = nths xs (- insert i (Suc ` ?B))"
      using nths_erase [OF True, of ?B] by blast
    moreover have coll: "{g m | m. m < n} = g ` {..<n}" for g :: "nat \<Rightarrow> nat" and n by auto
    have "insert i (Suc ` ?B) = {(i # is) ! m + m | m. m < length (i # is)}"
      by (simp add: coll lessThan_Suc_eq_insert_0 image_image)
    moreover have "length (take i xs @ drop (Suc i) xs) = length xs - 1" using True by simp
    ultimately show ?thesis
      using True Cons.IH [of "take i xs @ drop (Suc i) xs"] Cons.prems unfolding all by (simp add: erase_at_def)
  next
    case False
    then show ?thesis unfolding all by (simp add: erase_at_def)
  qed
qed

text \<open>
  C35: one round of \<^verbatim>\<open>retry_conn\<close>, for any outcomes of the attempts, where \<open>ok i\<close> says whether the attempt
  for the \<open>i\<close>th host of the retry list succeeds and \<open>ks\<close> are the indices of the successes in order. The
  indices are used after earlier ones were erased, so the \<open>m\<close>th success (from 0) removes the host at
  \<open>ks ! m + m\<close> of the list: the first one removes the right host, every later one a host \<open>m\<close> places
  further on. The hosts left are all the others, in order. If one of these places is past the end
  an iterator out of range is erased, which is undefined.
\<close>

theorem client_retry_result:
  assumes "hosts = sc_e_hosts s" and "length hosts < 2 ^ 32"
    and "\<forall>i < length hosts. mc_outcome (ans i) (hosts ! i) = Ret (ok i)"
    and "ks = filter ok [0..<length hosts]"
  shows "if \<forall>m < length ks. ks ! m + m < length hosts
    then \<exists>s'. retry_conn ans s = Ret s' \<and> sc_e_hosts s' = nths hosts (- {ks ! m + m | m. m < length ks})
    else retry_conn ans s = Undef"
proof -
  obtain s1 where eq: "retry_conn ans s = cpp_bind (for_each ks erase_at hosts) (\<lambda>h. Ret (s1\<lparr>sc_e_hosts := h\<rparr>))"
    using retry_eq [OF assms(1-3)] assms(4) by blast
  have "sorted_wrt (<) ks" unfolding assms(4) by (simp add: sorted_wrt_filter)
  from erase_stale [OF this, of hosts] show ?thesis by (simp add: eq)
qed

definition demo_retry :: "nat SocketClient" where
  "demo_retry = (sc_new [])\<lparr>sc_e_hosts := [''h:1'', ''h:x'', ''h:1'']\<rparr>"

text \<open>
  With successes at 0 and 2 of three hosts the second erase is out of range; with successes at 0 and
  1 of three the hosts at 0 and 2 leave the list, and the one at 1, now connected, stays.
\<close>

theorem client_retry_result_witness:
  "retry_conn (\<lambda>_. demo_ans) demo_retry = Undef
   \<and> (\<exists>s'. retry_conn (\<lambda>_. demo_ans) (demo_retry\<lparr>sc_e_hosts := [''h:1'', ''h:1'', ''h:x'']\<rparr>) = Ret s'
        \<and> sc_e_hosts s' = [''h:1''])"
proof -
  have sets: "{f m + m | m. m < Suc (Suc 0)} = {f 0, Suc (f (Suc 0))}" for f :: "nat \<Rightarrow> nat"
  proof -
    have "{f m + m | m. m < Suc (Suc 0)} = (\<lambda>m. f m + m) ` {..<Suc (Suc 0)}" by auto
    then show ?thesis by (simp add: lessThan_Suc insert_commute)
  qed
  have two: "[0, 1] = filter (\<lambda>i. i \<noteq> 2) [0..<3 :: nat]" by (simp add: upt_rec)
  have out: "[''h:1'', ''h:x'', ''h:1''] = sc_e_hosts demo_retry" "length [''h:1'', ''h:x'', ''h:1''] < 2 ^ 32"
    "\<forall>i < length [''h:1'', ''h:x'', ''h:1'']. mc_outcome demo_ans ([''h:1'', ''h:x'', ''h:1''] ! i) = Ret (i \<noteq> 1)"
    by (simp_all add: demo_retry_def All_less_Suc2 demo_outcomes)
  have "[0, 2] = filter (\<lambda>i. i \<noteq> 1) [0..<length [''h:1'', ''h:x'', ''h:1'']]" by (simp add: upt_rec)
  moreover have stale: "\<not> (\<forall>m < length [0, 2 :: nat]. [0, 2] ! m + m < length [''h:1'', ''h:x'', ''h:1''])"
    by (auto intro!: exI [of _ "Suc 0"])
  ultimately have "retry_conn (\<lambda>_. demo_ans) demo_retry = Undef"
    using client_retry_result [of "[''h:1'', ''h:x'', ''h:1'']" demo_retry "\<lambda>_. demo_ans" "\<lambda>i. i \<noteq> 1" "[0, 2]"] out
    unfolding if_not_P [OF stale] by blast
  then show ?thesis
    using client_retry_result [of "[''h:1'', ''h:1'', ''h:x'']" "demo_retry\<lparr>sc_e_hosts := [''h:1'', ''h:1'', ''h:x'']\<rparr>"
        "\<lambda>_. demo_ans" "\<lambda>i. i \<noteq> 2" "[0, 1]"] two
    by (simp add: demo_retry_def All_less_Suc2 demo_outcomes sets nths_Cons numeral_3_eq_3)
qed

text \<open>
  C20: one pass of the client's reaper over one connection that died more than 60000 ms ago. All its
  resources and waiting callbacks are dropped, its socket and its epoll descriptor are closed, one
  attempt to reconnect to its host is made, the host is healthy iff that attempt succeeded and
  goes to the retry list iff it failed, and the mark is withdrawn.
\<close>

theorem client_reap_result:
  assumes "sc_zm s = [sfd \<mapsto> death]" and "expired (now sfd) death" and "sc_conns s sfd = Some node"
    and "sc_h_status s node = Some st" and "mc_outcome (ans sfd) node = Ret ok"
  shows "\<exists>s' more st'. sc_reap now ans [sfd] s = Ret s' \<and> sc_zm s' = Map.empty
    \<and> sc_rrm s' = map_erase sfd (sc_rrm s) \<and> sc_wrm s' = map_erase sfd (sc_wrm s)
    \<and> sc_call_backs s' = map_erase sfd (sc_call_backs s)
    \<and> calls (sc_events s') = calls (sc_events s) @ [Close sfd, Close (hs_ep_sfd st)] @ more
    \<and> sc_h_status s' = (sc_h_status s)(node \<mapsto> st') \<and> is_healthy st' = ok
    \<and> sc_e_hosts s' = sc_e_hosts s @ (if ok then [] else [node])"
proof -
  let ?s = "sc_close_n_clean (hs_ep_sfd st) sfd s"
  obtain t where mc: "make_connection (ans sfd) node ?s = Ret (ok, t)" using make_connection_ok [OF assms(5)] by blast
  obtain more st' where "calls (sc_events t) = calls (sc_events ?s) @ more"
    "sc_h_status t = (sc_h_status ?s)(node \<mapsto> st')" "is_healthy st' = ok"
    using make_connection_calls [OF mc] make_connection_frame(9) [OF mc] by blast
  moreover have "s\<lparr>sc_h_status := map_emplace node hs_default (sc_h_status s)\<rparr> = s"
    using assms(4) by (simp add: map_emplace_def)
  then have "sc_reap_one now ans sfd (s, []) = Ret (if ok then t else t\<lparr>sc_e_hosts := sc_e_hosts t @ [node]\<rparr>, [sfd])"
    using assms(1-4) mc by (simp add: sc_reap_one_def Let_def)
  moreover have "map_erase sfd [sfd \<mapsto> death] = Map.empty" by (auto simp: fun_eq_iff)
  ultimately show ?thesis
    using assms(1) make_connection_frame(1-5) [OF mc]
    by (intro exI [of _ "(if ok then t else t\<lparr>sc_e_hosts := sc_e_hosts t @ [node]\<rparr>)\<lparr>sc_zm := Map.empty\<rparr>"]
        exI [of _ more] exI [of _ st']) (simp add: sc_reap_def sc_close_n_clean_eq)
qed

theorem client_reap_result_witness:
  "\<exists>s'. sc_reap (\<lambda>_. 70000) (\<lambda>_. demo_ans) [7] (demo_client\<lparr>sc_zm := [7 \<mapsto> 5000]\<rparr>) = Ret s' \<and> sc_zm s' = Map.empty
    \<and> sc_e_hosts s' = []"
  using client_reap_result [of "demo_client\<lparr>sc_zm := [7 \<mapsto> 5000]\<rparr>" 7 5000 "\<lambda>_. 70000" "''h:1''"
      "\<lparr>is_healthy = True, hs_sfd = 7, hs_ep_sfd = 8\<rparr>" "\<lambda>_. demo_ans" True]
  by (auto simp: demo_outcomes expired_def demo_client_simps)

text \<open>
  C40: a unit of read work that is still queued when its connection is reaped brings the reaper down.
  It finds the descriptor gone and marks it dead again, now without a host, and the next pass that
  takes the mark tries to connect to the host with the empty name, whose missing first field is
  read out of bounds.
\<close>

theorem client_reap_stray_read_undefined:
  assumes "sc_rrm s sfd = None" and "sc_conns s sfd = None" and "sc_zm s = Map.empty" and "errno \<noteq> EAGAIN"
    and "expired (now sfd) t"
  shows "\<exists>s'. sc_read throws t ep_sfd sfd (R_err errno # as) s = Ret s' \<and> sc_reap now ans [sfd] s' = Undef"
proof -
  have "make_connection a [] s = Undef" for a and s :: "'a SocketClient"
    by (simp add: make_connection_eq split_def)
  then show ?thesis
    using assms
    by (simp add: sc_read_def read_from_sfd_def sc_close_read_def sc_a_zombied_def sc_reap_def sc_reap_one_def
        Let_def)
qed

theorem client_reap_stray_read_undefined_witness:
  "\<exists>s'. sc_read (\<lambda>cb m. False) 5000 8 7 [R_err 9] (sc_new [''h:1''] :: nat SocketClient) = Ret s'
     \<and> sc_reap (\<lambda>_. 70000) (\<lambda>_. demo_ans) [7] s' = Undef"
  using client_reap_stray_read_undefined [of "sc_new [''h:1''] :: nat SocketClient" 7 9 "\<lambda>_. 70000" 5000
      "\<lambda>cb m. False" 8 "[]" "\<lambda>_. demo_ans"]
  by (simp add: sc_new_def expired_def EAGAIN_def)

end
