(* ===== verification/Samples.thy ===== *)
theory Samples
  imports Socket_Server Client_Requests Thread_Pool
begin

text \<open>
  The sample programs \<^verbatim>\<open>sserver/main.cpp\<close> and \<^verbatim>\<open>sclient/main.cpp\<close>: the handler of the server, the start of
  both, and the two ways the client sends its test messages. Printing and logging are not
  modelled; an exception nobody catches is the left side of a sum.
\<close>

subsection \<open>sserver\<close>

definition sserver_handler :: handler where
  "sserver_handler h uuid_v msg_v sfd = [(uuid_v, ''no way bro'', sfd)]"

lemma sserver_handler_replier: "sserver_handler = replier (\<lambda>_. ''no way bro'')"
  by (intro ext) (simp add: sserver_handler_def replier_def)

text \<open>\<open>args\<close> is \<^verbatim>\<open>argv\<close>, program name included.\<close>

definition sserver_main :: "bytes list \<Rightarrow> start_ans \<Rightarrow> (std_exception + SocketServer) cpp" where
  "sserver_main args a =
     (if length args < 2 \<or> length args > 2 then Exit 1
      else case stoi (args ! 1) of
        Inl e \<Rightarrow> Ret (Inl e)
      | Inr n \<Rightarrow> cpp_bind (sv_new (word_of_int n) a) (\<lambda>s. Ret (Inr s)))"

subsection \<open>sclient\<close>

definition sclient_hosts :: "bytes list" where
  "sclient_hosts = [''localhost:8080'', ''localhost:8081'']"

definition sclient_start :: "(nat \<Rightarrow> mc_ans) \<Rightarrow> nat SocketClient cpp" where
  "sclient_start ans =
     cpp_bind (connect_to_hosts ans (sc_new sclient_hosts)) (\<lambda>(c_conns, s).
       if c_conns = 0 then Exit 1 else Ret s)"

text \<open>\<^verbatim>\<open>std::to_string\<close> of a counter that is not negative.\<close>

fun to_string :: "nat \<Rightarrow> bytes" where
  "to_string n = (if n < 10 then [digit_char n] else to_string (n div 10) @ [digit_char (n mod 10)])"

declare to_string.simps [simp del]

text \<open>
  The loop of \<^verbatim>\<open>call_nblock\<close>: message \<open>i\<close> has the key \<open>to_string i\<close> and its own callback \<open>i\<close>, which
  decrements \<^verbatim>\<open>ip_calls\<close> when it is called; \<open>out i\<close> is the text of its uuid. A failed send is only
  logged. The result has the number of sends that succeeded.
\<close>

definition call_nblock_sends :: "char \<Rightarrow> (nat \<Rightarrow> bytes) \<Rightarrow> nat \<Rightarrow> nat SocketClient \<Rightarrow> (nat \<times> nat SocketClient) cpp" where
  "call_nblock_sends junk out tc s =
     for_each [0..<tc]
       (\<lambda>i (n, s). cpp_bind (sc_send_key junk ''blah blah'' (length ''blah blah'') (to_string i) (Some i) (out i) s)
          (\<lambda>(success, s). Ret (if success then Suc n else n, s)))
       (0, s)"

text \<open>
  What a callback does with \<^verbatim>\<open>ip_calls\<close>, for a call of callback \<open>fst a\<close>: the callbacks of
  \<^verbatim>\<open>call_nblock\<close> are those of its \<open>tc\<close> messages. \<open>ip_calls\<close> is the counter after all calls so far,
  \<open>nblock_done\<close> the condition the final loop waits for.
\<close>

definition nb_callback :: "nat \<Rightarrow> nat \<times> bytes \<Rightarrow> int \<Rightarrow> int" where
  "nb_callback tc a ip_calls = (if fst a < tc then ip_calls - 1 else ip_calls)"

definition ip_calls :: "nat \<Rightarrow> nat SocketClient \<Rightarrow> int" where
  "ip_calls tc s = fold (nb_callback tc) (sc_answers s) (int tc)"

definition nblock_done :: "nat \<Rightarrow> nat SocketClient \<Rightarrow> bool" where
  "nblock_done tc s \<longleftrightarrow> \<not> ip_calls tc s > 0"

text \<open>
  The send of one unit of work of \<^verbatim>\<open>call_block\<close>; the other threads and the timeout are in what
  \<open>between\<close> and \<open>wait\<close> do.
\<close>

definition call_block_work ::
  "char \<Rightarrow> nat \<Rightarrow> bytes \<Rightarrow> (nat SocketClient \<Rightarrow> nat SocketClient cpp) \<Rightarrow>
   (bool \<Rightarrow> nat SocketClient \<Rightarrow> nat SocketClient cpp) \<Rightarrow> nat SocketClient \<Rightarrow>
   ((bool \<times> bytes option) \<times> nat SocketClient) cpp" where
  "call_block_work junk i out between wait s =
     sc_send_block_key junk ''blah blah'' (length ''blah blah'') (to_string i) i out between wait s"

subsection \<open>Where the test messages go\<close>

lemma length_to_string: "length (to_string n) \<le> Suc n"
proof (induction n rule: to_string.induct)
  case (1 n)
  then show ?case by (subst to_string.simps) (auto intro: le_trans)
qed

text \<open>The descriptor message \<open>i\<close> is routed to, and what is queued on a descriptor.\<close>

definition sfd_of :: "nat SocketClient \<Rightarrow> nat \<Rightarrow> sfd" where
  "sfd_of s i =
     (case route (to_string i) (length (sc_desired_hosts s)) of
        Ret ni \<Rightarrow> hs_sfd (map_at (sc_h_status s) hs_default (sc_desired_hosts s ! unat ni))
      | _ \<Rightarrow> 0)"

definition queued :: "'cb SocketClient \<Rightarrow> sfd \<Rightarrow> bytes" where
  "queued s fd = bw_buffer (wr_bw (map_at (sc_wrm s) new_wr fd))"

definition test_frame :: "(nat \<Rightarrow> bytes) \<Rightarrow> nat \<Rightarrow> bytes" where
  "test_frame out i = out i @ [CHR 0x00] @ ''blah blah'' @ [EOT]"

text \<open>The state after the first \<open>k\<close> sends, when every host is healthy and every writer valid.\<close>

definition sends_inv :: "(nat \<Rightarrow> bytes) \<Rightarrow> nat SocketClient \<Rightarrow> nat \<Rightarrow> nat \<times> nat SocketClient \<Rightarrow> bool" where
  "sends_inv out s k x \<longleftrightarrow>
     (case x of (n, t) \<Rightarrow> n = k \<and> sc_desired_hosts t = sc_desired_hosts s \<and> sc_h_status t = sc_h_status s
        \<and> (\<forall>fd. wr_valid (map_at (sc_wrm t) new_wr fd)) \<and> sc_answers t = sc_answers s \<and> sc_regs t = sc_regs s @ [0..<k]
        \<and> (\<forall>fd. queued t fd = queued s fd @ concat (map (test_frame out) (filter (\<lambda>i. sfd_of s i = fd) [0..<k])))
        \<and> (\<forall>i < k. sc_cb t (sfd_of s i) (out i @ [CHR 0x00]) = Some i))"

lemma route_ok: "length key < 2 ^ 32 \<Longrightarrow> 0 < n \<Longrightarrow> n < 2 ^ 32 \<Longrightarrow> \<exists>ni. route key n = Ret ni \<and> unat ni < n"
proof -
  assume key: "length key < 2 ^ 32" and n: "0 < n" "n < 2 ^ 32"
  have "unat (of_nat (unat h mod n) :: u32) < n" for h :: u32
    using n unat_of_nat_u32 [of "unat h mod n"] by (simp add: order_less_trans [OF mod_less_divisor])
  then show ?thesis using hash_fold [OF key] n(1) by (simp add: route_def)
qed

lemma sends_step:
  assumes "sends_inv out s i (n, t)" and "0 < length (sc_desired_hosts s)" "length (sc_desired_hosts s) < 2 ^ 32"
    and "\<forall>h \<in> set (sc_desired_hosts s). \<exists>st. sc_h_status s h = Some st \<and> is_healthy st"
    and "length (out i) = 36" "\<forall>j < i. out j \<noteq> out i" and "i < 2 ^ 31"
  shows "\<exists>t'. sc_send_key junk ''blah blah'' (length ''blah blah'') (to_string i) (Some i) (out i) t = Ret (True, t')
    \<and> sends_inv out s (Suc i) (Suc n, t')"
proof -
  have t: "sc_desired_hosts t = sc_desired_hosts s" "sc_h_status t = sc_h_status s"
      "wr_valid (map_at (sc_wrm t) new_wr fd)" for fd
    using assms(1) by (auto simp: sends_inv_def)
  have "length (to_string i) < 2 ^ 32" using length_to_string [of i] assms(7) by simp
  from route_ok [OF this assms(2,3)]
  obtain ni where ni: "route (to_string i) (length (sc_desired_hosts s)) = Ret ni" "unat ni < length (sc_desired_hosts s)"
    by blast
  then obtain st where st: "sc_h_status s (sc_desired_hosts s ! unat ni) = Some st" "is_healthy st"
    using assms(4) nth_mem by blast
  have fd: "sfd_of s i = hs_sfd st" using ni st by (simp add: sfd_of_def)
  let ?u = "out i @ [CHR 0x00]" and ?wr = "map_at (sc_wrm t) new_wr (hs_sfd st)"
  let ?t = "(sc_register (hs_sfd st) ?u (Some i) t)
     \<lparr>sc_wrm := (sc_wrm t)(hs_sfd st \<mapsto>
        ?wr\<lparr>wr_bw := \<lparr>bw_buffer = bw_buffer (wr_bw ?wr) @ ?u @ ''blah blah'' @ [EOT]\<rparr>\<rparr>),
      sc_events := arm EPOLLOUT (hs_ep_sfd st) (hs_sfd st) (sc_events t)\<rparr>"
  have "sc_send_msg junk ''blah blah'' (length ''blah blah'') ni (Some i) ?u t = Ret (True, ?t)"
    by (rule sc_send_msg_ok [OF _ _ _ _ st(2) refl]) (use ni st t assms(5) in simp_all)
  then have "sc_send_key junk ''blah blah'' (length ''blah blah'') (to_string i) (Some i) (out i) t = Ret (True, ?t)"
    using ni(1) t(1) assms(5) by (simp add: sc_send_key_def build_uuid_str_def)
  moreover have "sends_inv out s (Suc i) (Suc n, ?t)"
    using assms(1,6) t(3) unfolding sends_inv_def
    by (auto simp: fd sc_register_def sc_cb_def queued_def test_frame_def map_at_def less_Suc_eq split: if_splits)
  ultimately show ?thesis by blast
qed

text \<open>
  C21: the sends of \<^verbatim>\<open>call_nblock\<close>, with every host healthy, every writer valid and different uuids, and
  no other thread in between. All of them succeed; every message is queued, framed, on the
  descriptor of the host its key is routed to, in the order of the sends; its callback waits there
  under its uuid. So nothing is done yet, and the callbacks that have to be called are exactly
  those of the messages.
\<close>

theorem sample_sends_all:
  assumes "0 < length (sc_desired_hosts s)" and "length (sc_desired_hosts s) < 2 ^ 32"
    and "\<forall>h \<in> set (sc_desired_hosts s). \<exists>st. sc_h_status s h = Some st \<and> is_healthy st"
    and "\<forall>fd. wr_valid (map_at (sc_wrm s) new_wr fd)"
    and "\<forall>i < tc. length (out i) = 36" and "inj_on out {..<tc}" and "tc < 2 ^ 31"
  shows "\<exists>s'. call_nblock_sends junk out tc s = Ret (tc, s')
    \<and> (\<forall>fd. queued s' fd = queued s fd @ concat (map (test_frame out) (filter (\<lambda>i. sfd_of s i = fd) [0..<tc])))
    \<and> (\<forall>i < tc. sc_cb s' (sfd_of s i) (out i @ [CHR 0x00]) = Some i)
    \<and> sc_regs s' = sc_regs s @ [0..<tc] \<and> ip_calls tc s' = ip_calls tc s"
proof -
  let ?body = "\<lambda>i (n, s). cpp_bind (sc_send_key junk ''blah blah'' (length ''blah blah'') (to_string i) (Some i) (out i) s)
      (\<lambda>(success, s). Ret (if success then Suc n else n, s))"
  have "\<exists>x'. for_each [0..<tc] ?body (0, s) = Ret x' \<and> sends_inv out s tc x'"
  proof (rule for_each_upt_inv)
    show "sends_inv out s 0 (0, s)" using assms(4) by (simp add: sends_inv_def)
    fix i x
    assume i: "i < tc" and inv: "sends_inv out s i x"
    have new: "\<forall>j < i. out j \<noteq> out i" using assms(6) i by (auto simp: inj_on_def)
    obtain n t where x: "x = (n, t)" by (cases x)
    obtain t' where "sc_send_key junk ''blah blah'' (length ''blah blah'') (to_string i) (Some i) (out i) t = Ret (True, t')"
        "sends_inv out s (Suc i) (Suc n, t')"
      using sends_step [OF inv [unfolded x] assms(1-3) _ new, of junk] i assms(5,7) by auto
    then show "\<exists>x'. ?body i x = Ret x' \<and> sends_inv out s (Suc i) x'" by (simp add: x)
  qed simp
  then obtain x' where x': "for_each [0..<tc] ?body (0, s) = Ret x'" "sends_inv out s tc x'" by blast
  obtain s' where "x' = (tc, s')" using x'(2) by (auto simp: sends_inv_def)
  with x' show ?thesis unfolding call_nblock_sends_def by (auto simp: sends_inv_def ip_calls_def)
qed

text \<open>A client with one healthy connection, on descriptor 7.\<close>

definition demo_idle :: "nat SocketClient" where
  "demo_idle = (sc_new [''h:1''])\<lparr>sc_h_status := [''h:1'' \<mapsto> \<lparr>is_healthy = True, hs_sfd = 7, hs_ep_sfd = 8\<rparr>],
     sc_conns := [7 \<mapsto> ''h:1''],
     sc_events := \<lparr>sfd_events = [7 \<mapsto> EPOLLIN], calls = [Epoll_add 8 7 EPOLLIN]\<rparr>\<rparr>"

theorem sample_sends_all_witness:
  "\<exists>s'. call_nblock_sends CHR 0x00 (\<lambda>i. replicate 35 CHR ''u'' @ [if i = 0 then CHR ''0'' else CHR ''1'']) 2 demo_idle = Ret (2, s')
    \<and> sc_regs s' = [0, 1] \<and> \<not> nblock_done 2 s'"
proof -
  have "inj_on (\<lambda>i :: nat. replicate 35 CHR ''u'' @ [if i = 0 then CHR ''0'' else CHR ''1'']) {..<2}"
    by (auto simp: inj_on_def)
  with sample_sends_all [of demo_idle 2 "\<lambda>i. replicate 35 CHR ''u'' @ [if i = 0 then CHR ''0'' else CHR ''1'']" "CHR 0x00"]
  show ?thesis by (force simp: demo_idle_def sc_new_def new_wr_def nblock_done_def ip_calls_def upt_rec)
qed

text \<open>Whether the host of message \<open>i\<close> is healthy, and the state after \<open>k\<close> sends when some are not.\<close>

definition routed_up :: "nat SocketClient \<Rightarrow> nat \<Rightarrow> bool" where
  "routed_up s i =
     (case route (to_string i) (length (sc_desired_hosts s)) of
        Ret ni \<Rightarrow> is_healthy (map_at (sc_h_status s) hs_default (sc_desired_hosts s ! unat ni))
      | _ \<Rightarrow> False)"

definition some_inv ::
  "(nat \<Rightarrow> bytes \<Rightarrow> bool) \<Rightarrow> char \<Rightarrow> nat thread list \<Rightarrow> nat SocketClient \<Rightarrow> nat \<Rightarrow> nat \<times> nat SocketClient \<Rightarrow> bool" where
  "some_inv throws junk ts s k x \<longleftrightarrow>
     (case x of (n, t) \<Rightarrow> n = length (filter (routed_up s) [0..<k]) \<and> sc_desired_hosts t = sc_desired_hosts s
        \<and> (\<forall>h. map_at (sc_h_status t) hs_default h = map_at (sc_h_status s) hs_default h)
        \<and> (\<forall>fd. wr_valid (map_at (sc_wrm t) new_wr fd))
        \<and> sc_regs t = sc_regs s @ filter (routed_up s) [0..<k]
        \<and> (\<exists>ls. run (sc_step throws junk) (s, ts) ls (t, ts)))"

lemma some_step:
  assumes "some_inv throws junk ts s i (n, t)" and "0 < length (sc_desired_hosts s)" "length (sc_desired_hosts s) < 2 ^ 32"
    and "length (out i) = 36" and "i < 2 ^ 31"
  shows "\<exists>ok t'. sc_send_key junk ''blah blah'' (length ''blah blah'') (to_string i) (Some i) (out i) t = Ret (ok, t')
    \<and> some_inv throws junk ts s (Suc i) (if ok then Suc n else n, t')"
proof -
  have t: "sc_desired_hosts t = sc_desired_hosts s" "map_at (sc_h_status t) hs_default h = map_at (sc_h_status s) hs_default h"
      "wr_valid (map_at (sc_wrm t) new_wr fd)" "\<exists>ls. run (sc_step throws junk) (s, ts) ls (t, ts)" for fd h
    using assms(1) by (auto simp: some_inv_def)
  have "length (to_string i) < 2 ^ 32" using length_to_string [of i] assms(5) by simp
  from route_ok [OF this assms(2,3)]
  obtain ni where ni: "route (to_string i) (length (sc_desired_hosts s)) = Ret ni" "unat ni < length (sc_desired_hosts s)"
    by blast
  let ?u = "out i @ [CHR 0x00]" and ?host = "sc_desired_hosts t ! unat ni" and ?m = "''blah blah''"
  let ?st = "map_at (sc_h_status t) hs_default ?host"
  let ?s1 = "t\<lparr>sc_h_status := map_emplace ?host hs_default (sc_h_status t)\<rparr>"
  let ?wr = "map_at (sc_wrm t) new_wr (hs_sfd ?st)"
  let ?t = "if is_healthy ?st then (sc_register (hs_sfd ?st) ?u (Some i) ?s1)
     \<lparr>sc_wrm := (sc_wrm t)(hs_sfd ?st \<mapsto>
        ?wr\<lparr>wr_bw := \<lparr>bw_buffer = bw_buffer (wr_bw ?wr) @ ?u @ ?m @ [EOT]\<rparr>\<rparr>),
      sc_events := arm EPOLLOUT (hs_ep_sfd ?st) (hs_sfd ?st) (sc_events t)\<rparr> else ?s1"
  have "sc_send_msg junk ?m (length ?m) ni (Some i) ?u t = Ret (is_healthy ?st, ?t)"
    using sc_send_msg_eq [of ni t ?u ?m, OF _ _ _ refl refl refl refl refl, of junk "Some i"] ni t assms(4) by simp
  moreover have up: "routed_up s i \<longleftrightarrow> is_healthy ?st" using ni t by (simp add: routed_up_def)
  moreover have "some_inv throws junk ts s (Suc i) (if is_healthy ?st then Suc n else n, ?t)"
  proof -
    have "\<exists>ls. run (sc_step throws junk) (s, ts) ls (?t, ts)"
      using t(4) send_run [OF calculation(1)] by (rule run_ex_append)
    moreover have "map_at (map_emplace ?host hs_default (sc_h_status t)) hs_default h = map_at (sc_h_status s) hs_default h" for h
      unfolding t(2) [symmetric] by (simp add: map_at_def map_emplace_def)
    ultimately show ?thesis
      using assms(1) t(3) up unfolding some_inv_def
      by (auto simp: sc_register_def map_at_def split: if_splits)
  qed
  moreover have "sc_send_key junk ?m (length ?m) (to_string i) (Some i) (out i) t =
      sc_send_msg junk ?m (length ?m) ni (Some i) ?u t"
    using ni(1) t(1) assms(4) by (simp add: sc_send_key_def build_uuid_str_def)
  ultimately show ?thesis by auto
qed

lemma some_sends:
  assumes "0 < length (sc_desired_hosts s)" and "length (sc_desired_hosts s) < 2 ^ 32"
    and "\<forall>fd. wr_valid (map_at (sc_wrm s) new_wr fd)" and "\<forall>i < tc. length (out i) = 36" and "tc < 2 ^ 31"
  shows "\<exists>x. call_nblock_sends junk out tc s = Ret x \<and> some_inv throws junk ts s tc x"
  unfolding call_nblock_sends_def
proof (rule for_each_upt_inv)
  show "some_inv throws junk ts s 0 (0, s)" using assms(3) by (auto simp: some_inv_def intro: run_nil)
  fix i x
  assume i: "i < tc" and inv: "some_inv throws junk ts s i x"
  obtain n t where x: "x = (n, t)" by (cases x)
  from some_step [OF inv [unfolded x] assms(1,2), of out] i assms(4,5)
  show "\<exists>x'. (case x of (n, s) \<Rightarrow> cpp_bind (sc_send_key junk ''blah blah'' (length ''blah blah'') (to_string i) (Some i) (out i) s)
      (\<lambda>(success, s). Ret (if success then Suc n else n, s))) = Ret x' \<and> some_inv throws junk ts s (Suc i) x'"
    by (auto simp: x)
qed simp

text \<open>Only a send registers callbacks.\<close>

fun is_sender :: "'cb thread \<Rightarrow> bool" where
  "is_sender (Send_register status u cb data n) = True"
| "is_sender t = False"

lemma sc_write_regs: "sc_write junk now epf sfd as s = Ret s' \<Longrightarrow> sc_regs s' = sc_regs s"
  by (auto simp: sc_write_def Let_def cpp_bind_Ret_iff sc_close_write_def sc_a_zombied_def split: if_splits
      elim!: write_to_sfd_inv [where P = "\<lambda>t. sc_regs t = sc_regs s"])

lemma process_events_regs: "sc_regs (sc_process_epoll_events now epf evs s) = sc_regs s"
proof -
  have "sc_regs (sc_process_event now epf ev t) = sc_regs t" for ev and t :: "'a SocketClient"
    by (simp add: sc_process_event_def sc_read_callback_def sc_write_callback_def sc_a_zombied_def Let_def split: prod.splits)
  then have "sc_regs (fold (sc_process_event now epf) es t) = sc_regs t" for es and t :: "'a SocketClient"
    by (induction es arbitrary: t) simp_all
  then show ?thesis by (simp add: sc_process_epoll_events_def split: option.splits)
qed

lemma step_regs:
  "sc_step throws junk x l y \<Longrightarrow> sc_conn_ok (fst x) \<Longrightarrow> (\<forall>u. l \<noteq> C_send u) \<Longrightarrow> \<not> list_ex is_sender (snd x) \<Longrightarrow>
     sc_regs (fst y) = sc_regs (fst x) \<and> \<not> list_ex is_sender (snd y)"
proof (induction rule: sc_step.induct)
  case (sc_dial_step c s node a pc s' ts1 ts2)
  then show ?case by (auto dest!: mc_start_frame)
next
  case (sc_section_step pc s r s' ts1 c ts2)
  from sc_section_step(1) show ?case
    by (rule mc_section_cases) (use sc_section_step(4) in \<open>auto simp: mc_events_def\<close>)
next
  case (sc_made_step c ok ts1 ts2 s c' s')
  from sc_made_step(2) show ?case by (rule made_cases) (use sc_made_step(5) in simp)
next
  case (sc_look_step now sfd order zv s c' s' ts1 ts2)
  then show ?case by (auto simp: sc_reap_look_def Let_def split: option.splits if_splits)
next
  case (sc_clean_step s ts1 k ks node ep_sfd sfd order zv ts2)
  then show ?case by (cases k) auto
next
  case (sc_read_step s before ep_sfd sfd after now as s' ts)
  then show ?case using sc_read_regs [OF sc_read_step(2)] by simp
next
  case (sc_write_step s before ep_sfd sfd after now as s' ts)
  then show ?case using sc_write_regs [OF sc_write_step(2)] by simp
next
  case (sc_enqueue_step uuid_str data n msg_frame status s ok s' ts1 ts2)
  then show ?case by (auto simp: sc_enqueue_def Let_def cpp_bind_Ret_iff split: if_splits)
qed (auto simp: process_events_regs sc_unregister_def)

lemma run_regs:
  "run (sc_step throws junk) x ls y \<Longrightarrow> sc_inv x \<Longrightarrow> (\<forall>l \<in> set ls. \<forall>u. l \<noteq> C_send u) \<Longrightarrow> \<not> list_ex is_sender (snd x) \<Longrightarrow>
     sc_regs (fst y) = sc_regs (fst x) \<and> sc_inv y"
proof (induction rule: run.induct)
  case (run_cons x l y ls z)
  have "sc_conn_ok (fst x)" using run_cons.prems(1) by (simp add: sc_inv_def sc_threads_ok_def)
  with step_regs [OF run_cons.hyps(1)] run_cons sc.inv_step [OF run_cons.prems(1) run_cons.hyps(1)] show ?case by auto
qed simp

lemma ip_calls_count: "ip_calls tc s = int tc - int (length (filter (\<lambda>a. fst a < tc) (sc_answers s)))"
proof -
  have "fold (nb_callback tc) as i = i - int (length (filter (\<lambda>a. fst a < tc) as))" for as i
    by (induction as arbitrary: i) (simp_all add: nb_callback_def)
  then show ?thesis by (simp add: ip_calls_def)
qed

text \<open>
  C23: a send to a host that is down keeps \<^verbatim>\<open>call_nblock\<close> waiting for ever. From any state the client can
  reach, with no callback registered yet, no other thread in a send and valid writers, and the key of
  some message routed to a host that is not healthy: the loop of sends returns, with fewer than \<open>tc\<close>
  successes, and in every state reached from there, whatever replies arrive and whatever the other
  threads do short of sending more, the counter is positive and the condition of the final loop
  is not met.
\<close>

theorem sample_failed_send_waits:
  assumes "reach sc_init (sc_step throws junk) (s, ts)" and "sc_regs s = []" and "\<not> list_ex is_sender ts"
    and "0 < length (sc_desired_hosts s)" and "length (sc_desired_hosts s) < 2 ^ 32"
    and "\<forall>fd. wr_valid (map_at (sc_wrm s) new_wr fd)" and "\<forall>i < tc. length (out i) = 36" and "tc < 2 ^ 31"
    and "i < tc" and "\<not> routed_up s i"
  shows "\<exists>n s'. call_nblock_sends junk out tc s = Ret (n, s') \<and> n < tc
    \<and> (\<forall>ls t ts'. run (sc_step throws junk) (s', ts) ls (t, ts') \<and> (\<forall>l \<in> set ls. \<forall>u. l \<noteq> C_send u) \<longrightarrow>
         0 < ip_calls tc t \<and> \<not> nblock_done tc t)"
proof -
  obtain n s' ls where sends: "call_nblock_sends junk out tc s = Ret (n, s')"
    and n: "n = length (filter (routed_up s) [0..<tc])" and regs: "sc_regs s' = filter (routed_up s) [0..<tc]"
    and run: "run (sc_step throws junk) (s, ts) ls (s', ts)"
    using some_sends [OF assms(4-8), of junk throws ts] assms(2) by (auto simp: some_inv_def)
  have "n < tc"
    using length_filter_less [of i "[0..<tc]" "routed_up s"] assms(9,10) by (simp add: n)
  have inv: "sc_inv (s', ts)" using sc.inv_run [OF run sc.inv_reach [OF assms(1)]] .
  have "0 < ip_calls tc t"
    if "run (sc_step throws junk) (s', ts) ls (t, ts')" "\<forall>l \<in> set ls. \<forall>u. l \<noteq> C_send u" for ls t ts'
  proof -
    have t: "sc_regs t = filter (routed_up s) [0..<tc]" "once_ok t"
      using run_regs [OF that(1) inv that(2)] assms(3) regs by (simp_all add: sc_inv_def)
    then have ans: "distinct (map fst (sc_answers t))" "set (map fst (sc_answers t)) \<subseteq> set (sc_regs t)"
      by (simp_all add: once_ok_def)
    have "length (map fst (sc_answers t)) = card (set (map fst (sc_answers t)))"
      using ans(1) by (simp only: distinct_card)
    also have "\<dots> \<le> n" using card_mono [OF _ ans(2)] card_length [of "sc_regs t"] by (simp add: t(1) n)
    finally have "length (sc_answers t) \<le> n" by simp
    then have "length (filter (\<lambda>a. fst a < tc) (sc_answers t)) \<le> n" by (rule le_trans [OF length_filter_le])
    then show ?thesis using \<open>n < tc\<close> by (simp add: ip_calls_count)
  qed
  then show ?thesis using sends \<open>n < tc\<close> by (auto simp: nblock_done_def)
qed

text \<open>A client that has not connected to its host.\<close>

theorem sample_failed_send_waits_witness:
  "\<exists>n s'. call_nblock_sends CHR 0x00 (\<lambda>_. replicate 36 CHR ''u'') 3 (sc_new [''h:1'']) = Ret (n, s') \<and> n < 3
     \<and> (\<forall>ls t ts'. run (sc_step (\<lambda>cb m. False) CHR 0x00) (s', []) ls (t, ts') \<and> (\<forall>l \<in> set ls. \<forall>u. l \<noteq> C_send u) \<longrightarrow>
          0 < ip_calls 3 t \<and> \<not> nblock_done 3 t)"
  by (rule sample_failed_send_waits [OF sc_new_reach, where i = 0])
    (simp_all add: sc_new_def new_wr_def routed_up_def hs_default_def split: cpp.splits)

subsection \<open>The loop of the blocking calls\<close>

text \<open>
  \<^verbatim>\<open>call_block\<close> and its thread pool of 8. The main thread is the only producer: it adds the units of
  work \<open>0\<close> to \<open>tc - 1\<close> in turn (\<open>cb_i\<close> is its loop counter), then locks \<^verbatim>\<open>ipc_mutex\<close> and waits while
  \<^verbatim>\<open>ip_calls\<close> is positive. A worker that runs unit \<open>x\<close> sends its message, which returns with any
  result, decrements \<^verbatim>\<open>ip_calls\<close> under \<^verbatim>\<open>ipc_mutex\<close>, notifies and returns to the pool; \<open>cb_unit x\<close> is
  where it is. \<^verbatim>\<open>cv.wait\<close> releases the mutex and blocks in one step.
\<close>

datatype unit_pc = U_send | U_lock | U_notify | U_end

datatype main_pc = M_add | M_lock | M_test | M_wait | M_done

record cb_state =
  cb_i :: nat
  cb_tp :: "nat pool"
  cb_ip_calls :: int
  cb_unit :: "nat \<Rightarrow> unit_pc"
  cb_main :: main_pc

datatype cb_event =
    Pool "nat tp_event"
  | Unit_sent nat bool       \<comment> \<open>\<^verbatim>\<open>send_msg\<close> returned \<^verbatim>\<open>succss\<close>\<close>
  | Unit_dec nat
  | Unit_notify nat
  | Unit_done nat
  | Main
  | Main_spurious

definition running :: "nat \<Rightarrow> cb_state \<Rightarrow> bool" where
  "running x s \<longleftrightarrow> W_Run x \<in> set (workers (cb_tp s))"

inductive cb_step :: "nat \<Rightarrow> cb_state \<Rightarrow> cb_event \<Rightarrow> cb_state \<Rightarrow> bool" for tc where
  cb_add_work: "cb_main s = M_add \<Longrightarrow> cb_i s < tc \<Longrightarrow> tp_step (cb_tp s) (Call 0 (cb_i s)) p' \<Longrightarrow>
    cb_step tc s (Pool (Call 0 (cb_i s))) (s\<lparr>cb_i := Suc (cb_i s), cb_tp := p'\<rparr>)"
| cb_pool: "tp_step (cb_tp s) e p' \<Longrightarrow> \<forall>i w. e \<noteq> Call i w \<Longrightarrow> finished p' = finished (cb_tp s) \<Longrightarrow>
    cb_step tc s (Pool e) (s\<lparr>cb_tp := p'\<rparr>)"
| cb_sent: "running x s \<Longrightarrow> cb_unit s x = U_send \<Longrightarrow>
    cb_step tc s (Unit_sent x succss) (s\<lparr>cb_unit := (cb_unit s)(x := U_lock)\<rparr>)"
| cb_dec: "running x s \<Longrightarrow> cb_unit s x = U_lock \<Longrightarrow> cb_main s \<noteq> M_test \<Longrightarrow>
    cb_step tc s (Unit_dec x) (s\<lparr>cb_ip_calls := cb_ip_calls s - 1, cb_unit := (cb_unit s)(x := U_notify)\<rparr>)"
| cb_notify: "running x s \<Longrightarrow> cb_unit s x = U_notify \<Longrightarrow>
    cb_step tc s (Unit_notify x) (s\<lparr>cb_unit := (cb_unit s)(x := U_end),
      cb_main := (if cb_main s = M_wait then M_lock else cb_main s)\<rparr>)"
| cb_return: "cb_unit s x = U_end \<Longrightarrow> tp_step (cb_tp s) Tau p' \<Longrightarrow> finished p' = finished (cb_tp s) @ [x] \<Longrightarrow>
    cb_step tc s (Unit_done x) (s\<lparr>cb_tp := p'\<rparr>)"
| cb_loop_end: "cb_main s = M_add \<Longrightarrow> \<not> cb_i s < tc \<Longrightarrow> producers (cb_tp s) = [P_Idle] \<Longrightarrow>
    cb_step tc s Main (s\<lparr>cb_main := M_lock\<rparr>)"
| cb_lock: "cb_main s = M_lock \<Longrightarrow> cb_step tc s Main (s\<lparr>cb_main := M_test\<rparr>)"
| cb_test: "cb_main s = M_test \<Longrightarrow>
    cb_step tc s Main (s\<lparr>cb_main := (if cb_ip_calls s > 0 then M_wait else M_done)\<rparr>)"
| cb_spurious: "cb_main s = M_wait \<Longrightarrow> cb_step tc s Main_spurious (s\<lparr>cb_main := M_lock\<rparr>)"

definition cb_new :: "nat \<Rightarrow> cb_state" where
  "cb_new tc = \<lparr>cb_i = 0, cb_tp = tp_new 8 1, cb_ip_calls = int tc, cb_unit = (\<lambda>_. U_send), cb_main = M_add\<rparr>"

definition cb_init :: "nat \<Rightarrow> cb_state \<Rightarrow> bool" where
  "cb_init tc s \<longleftrightarrow> s = cb_new tc"

text \<open>Neither a thread of the pool nor the main thread wakes up without a notification.\<close>

fun notified :: "cb_event \<Rightarrow> bool" where
  "notified (Pool Spurious) = False"
| "notified Main_spurious = False"
| "notified e = True"

text \<open>The work a producer has not pushed yet, and whether a unit has decremented the counter.\<close>

fun in_call :: "'w ppc \<Rightarrow> 'w list" where
  "in_call (P_Lock w) = [w]"
| "in_call (P_Crit w) = [w]"
| "in_call (P_Wait w) = [w]"
| "in_call q = []"

definition counted :: "unit_pc \<Rightarrow> bool" where
  "counted u \<longleftrightarrow> u = U_notify \<or> u = U_end"

definition cb_inv :: "nat \<Rightarrow> cb_state \<Rightarrow> bool" where
  "cb_inv tc s \<longleftrightarrow> cb_i s \<le> tc \<and> tp_inv (cb_tp s) \<and> p_size (cb_tp s) = 8
     \<and> (\<exists>q. producers (cb_tp s) = [q] \<and> pushed (cb_tp s) @ in_call q = [0..<cb_i s])
     \<and> (\<forall>x \<in> set (finished (cb_tp s)). cb_unit s x = U_end)
     \<and> cb_ip_calls s = int tc - int (card {x. x < tc \<and> counted (cb_unit s x)})
     \<and> (cb_main s \<noteq> M_add \<longrightarrow> cb_i s = tc)
     \<and> (cb_main s = M_wait \<longrightarrow> cb_ip_calls s > 0 \<or> (\<exists>x. running x s \<and> cb_unit s x = U_notify))"

lemma one_producer: "tp_step p e p' \<Longrightarrow> producers p = [q] \<Longrightarrow> \<exists>q'. producers p' = [q'] \<and>
    pushed p' @ in_call q' = pushed p @ in_call q @ (case e of Call i w \<Rightarrow> [w] | _ \<Rightarrow> [])"
  by (induction rule: tp_step.induct) (auto simp: tp_crit_defs split: list.splits)

text \<open>A unit that runs was added, and goes on running until it returns.\<close>

lemma running_added: "cb_inv tc s \<Longrightarrow> running x s \<Longrightarrow> x < tc"
proof -
  assume inv: "cb_inv tc s" and x: "running x s"
  obtain q where p: "history_ok (cb_tp s)" "pushed (cb_tp s) @ in_call q = [0..<cb_i s]" "cb_i s \<le> tc"
    using inv by (auto simp: cb_inv_def tp_inv_def)
  have "x \<in># in_hand (workers (cb_tp s))"
    using x unfolding running_def in_hand_def by (induction "workers (cb_tp s)") (auto, force)
  then have "x \<in># mset (popped (cb_tp s))" using p(1) by (simp add: history_ok_def)
  then have "x \<in> set (pushed (cb_tp s) @ in_call q)" using p(1) by (auto simp: history_ok_def)
  then show ?thesis using p(2,3) by simp
qed

lemma mem_list_update: "w \<in> set ws \<Longrightarrow> ws ! j \<noteq> w \<Longrightarrow> w \<in> set (ws[j := v])"
  by (auto simp: in_set_conv_nth) (metis nth_list_update_neq)

lemma still_running: "tp_step p e p' \<Longrightarrow> finished p' = finished p \<Longrightarrow> W_Run x \<in> set (workers p) \<Longrightarrow> W_Run x \<in> set (workers p')"
  by (induction rule: tp_step.induct) (auto simp: tp_crit_defs mem_list_update split: list.splits)

lemma running_except: "tp_step p e p' \<Longrightarrow> finished p' = finished p @ [y] \<Longrightarrow> x \<noteq> y \<Longrightarrow>
    W_Run x \<in> set (workers p) \<Longrightarrow> W_Run x \<in> set (workers p')"
  by (induction rule: tp_step.induct) (auto simp: tp_crit_defs mem_list_update split: list.splits if_splits)

lemma finishes_running: "tp_step p e p' \<Longrightarrow> finished p' \<noteq> finished p \<Longrightarrow> \<exists>x. W_Run x \<in> set (workers p)"
  by (induction rule: tp_step.induct) (auto simp: tp_crit_defs split: list.splits if_splits, metis nth_mem)

lemma cb_inv_pool:
  assumes "cb_inv tc s" and "tp_step (cb_tp s) e p'" and "\<forall>i w. e \<noteq> Call i w"
  shows "tp_inv p' \<and> p_size p' = 8 \<and> (\<exists>q. producers p' = [q] \<and> pushed p' @ in_call q = [0..<cb_i s])"
proof -
  obtain q where q: "producers (cb_tp s) = [q]" "pushed (cb_tp s) @ in_call q = [0..<cb_i s]"
    using assms(1) by (auto simp: cb_inv_def)
  from one_producer [OF assms(2) q(1)] q(2) assms(3)
  have "\<exists>q'. producers p' = [q'] \<and> pushed p' @ in_call q' = [0..<cb_i s]" by (cases e) auto
  then show ?thesis
    using assms(1) tp_inv_step [OF _ assms(2)] tp_step_size [OF assms(2)] by (simp add: cb_inv_def)
qed

lemma counted_simps [simp]: "\<not> counted U_send" "\<not> counted U_lock" "counted U_notify" "counted U_end"
  by (simp_all add: counted_def)

lemma counted_update:
  fixes x tc :: nat
  assumes "x < tc" and "\<not> counted (f x)"
  shows "card {y. y < tc \<and> counted ((f(x := u)) y)} = card {y. y < tc \<and> counted (f y)} + (if counted u then 1 else 0)"
proof (cases "counted u")
  case True
  then have "{y. y < tc \<and> counted ((f(x := u)) y)} = insert x {y. y < tc \<and> counted (f y)}" using assms(1) by auto
  moreover have "finite {y. y < tc \<and> counted (f y)}" "x \<notin> {y. y < tc \<and> counted (f y)}" using assms(2) by simp_all
  ultimately show ?thesis using True card_insert_disjoint [of "{y. y < tc \<and> counted (f y)}" x] by (simp only: if_True) simp
next
  case False
  then have "{y. y < tc \<and> counted ((f(x := u)) y)} = {y. y < tc \<and> counted (f y)}" using assms(2) by auto
  with False show ?thesis by simp
qed

lemma counted_same: "counted (f x) \<Longrightarrow> counted u \<Longrightarrow> {y. y < tc \<and> counted ((f(x := u)) y)} = {y. y < tc \<and> counted (f y)}"
  by auto

lemma cb_inv_step: "cb_step tc s e s' \<Longrightarrow> cb_inv tc s \<Longrightarrow> cb_inv tc s'"
proof (induction rule: cb_step.induct)
  case (cb_add_work s p')
  then obtain q where q: "producers (cb_tp s) = [q]" "pushed (cb_tp s) @ in_call q = [0..<cb_i s]" by (auto simp: cb_inv_def)
  from one_producer [OF cb_add_work(3) q(1)] q(2)
  obtain q' where "producers p' = [q']" "pushed p' @ in_call q' = [0..<cb_i s] @ [cb_i s]" by auto
  moreover have "finished p' = finished (cb_tp s)" using cb_add_work(3) by (cases rule: tp_step.cases) simp_all
  ultimately show ?case
    using cb_add_work tp_inv_step [OF _ cb_add_work(3)] tp_step_size [OF cb_add_work(3)] by (simp add: cb_inv_def)
next
  case (cb_pool s e p')
  then show ?case
    using cb_inv_pool [OF cb_pool(4,1,2)] still_running [OF cb_pool(1,3)] by (auto simp: cb_inv_def running_def)
next
  case (cb_sent x s succss)
  let ?f = "(cb_unit s)(x := U_lock)"
  have "card {y. y < tc \<and> counted (?f y)} = card {y. y < tc \<and> counted (cb_unit s y)}"
    using counted_update [OF running_added [OF cb_sent(3,1)], of "cb_unit s" U_lock] cb_sent(2) by simp
  moreover have "\<forall>y \<in> set (finished (cb_tp s)). ?f y = U_end" using cb_sent(2,3) by (auto simp: cb_inv_def)
  moreover have "\<exists>y. running y s \<and> ?f y = U_notify" if "\<exists>y. running y s \<and> cb_unit s y = U_notify"
    using that cb_sent(2) by (metis fun_upd_other unit_pc.distinct(3))
  ultimately show ?case
    using cb_sent(3) by (auto simp: cb_inv_def running_def simp del: fun_upd_apply)
next
  case (cb_dec x s)
  let ?f = "(cb_unit s)(x := U_notify)"
  have "card {y. y < tc \<and> counted (?f y)} = card {y. y < tc \<and> counted (cb_unit s y)} + 1"
    using counted_update [OF running_added [OF cb_dec(4,1)], of "cb_unit s" U_notify] cb_dec(2) by simp
  moreover have "\<forall>y \<in> set (finished (cb_tp s)). ?f y = U_end" using cb_dec(2,4) by (auto simp: cb_inv_def)
  moreover have "?f x = U_notify" by simp
  ultimately show ?case
    using cb_dec(1,4) by (auto simp: cb_inv_def running_def simp del: fun_upd_apply)
next
  case (cb_notify x s)
  have "{y. y < tc \<and> counted (((cb_unit s)(x := U_end)) y)} = {y. y < tc \<and> counted (cb_unit s y)}"
    by (rule counted_same) (use cb_notify(2) in \<open>simp_all add: counted_def\<close>)
  with cb_notify show ?case by (auto simp: cb_inv_def running_def)
next
  case (cb_return s x p')
  have "running y (s\<lparr>cb_tp := p'\<rparr>)" if "running y s" "cb_unit s y = U_notify" for y
  proof -
    have "y \<noteq> x" using that(2) cb_return(1) by auto
    with running_except [OF cb_return(2,3)] that(1) show ?thesis by (simp add: running_def)
  qed
  with cb_return cb_inv_pool [OF cb_return(4,2)] show ?case by (auto simp: cb_inv_def)
qed (auto simp: cb_inv_def running_def)

fun unit_weight :: "unit_pc \<Rightarrow> nat" where
  "unit_weight U_send = 6"
| "unit_weight U_lock = 5"
| "unit_weight U_notify = 4"
| "unit_weight U_end = 0"

fun main_weight :: "main_pc \<Rightarrow> nat" where
  "main_weight M_add = 4"
| "main_weight M_lock = 3"
| "main_weight M_test = 2"
| "main_weight M_wait = 1"
| "main_weight M_done = 0"

definition cb_weight :: "nat \<Rightarrow> cb_state \<Rightarrow> nat" where
  "cb_weight tc s = 12 * (tc - cb_i s) + nat (tp_weight (cb_tp s)) + (\<Sum>x<tc. unit_weight (cb_unit s x)) + main_weight (cb_main s)"

lemma call_weight: "tp_step p (Call i w) p' \<Longrightarrow> tp_weight p' = tp_weight p + 11"
  by (cases rule: tp_step.cases) (auto simp: tp_weight_def)

lemma unit_weight_update:
  fixes x tc :: nat
  assumes "x < tc"
  shows "(\<Sum>y<tc. unit_weight ((f(x := u)) y)) + unit_weight (f x) = (\<Sum>y<tc. unit_weight (f y)) + unit_weight u"
proof -
  have "(\<Sum>y<tc. g y) = g x + (\<Sum>y \<in> {..<tc} - {x}. g y)" for g :: "nat \<Rightarrow> nat"
    using assms by (intro sum.remove) simp_all
  from this [of "\<lambda>y. unit_weight ((f(x := u)) y)"] this [of "\<lambda>y. unit_weight (f y)"] show ?thesis by simp
qed

lemma cb_weight_step: "cb_step tc s e s' \<Longrightarrow> cb_inv tc s \<Longrightarrow> notified e \<Longrightarrow> cb_weight tc s' < cb_weight tc s"
proof (induction rule: cb_step.induct)
  case (cb_add_work s p')
  then show ?case using call_weight [OF cb_add_work(3)] tp_weight_nonneg [of "cb_tp s"] by (simp add: cb_weight_def)
next
  case (cb_pool s e p')
  then have "internal_ev e" by (cases e) auto
  then show ?case using tp_weight_step [OF cb_pool(1)] tp_weight_nonneg [of p'] by (simp add: cb_weight_def)
next
  case (cb_sent x s succss)
  then show ?case using unit_weight_update [OF running_added [OF cb_sent(3,1)], of "cb_unit s" U_lock] by (simp add: cb_weight_def)
next
  case (cb_dec x s)
  then show ?case using unit_weight_update [OF running_added [OF cb_dec(4,1)], of "cb_unit s" U_notify] by (simp add: cb_weight_def)
next
  case (cb_notify x s)
  then show ?case using unit_weight_update [OF running_added [OF cb_notify(3,1)], of "cb_unit s" U_end] by (simp add: cb_weight_def)
next
  case (cb_return s x p')
  then show ?case using tp_weight_step [OF cb_return(2)] tp_weight_nonneg [of p'] by (simp add: cb_weight_def)
qed (simp_all add: cb_weight_def)

interpretation cb: step_measure "cb_step tc" "cb_init tc" "cb_inv tc" notified "cb_weight tc"
proof
  show "cb_inv tc s" if "cb_init tc s" for s
    using that tp_inv_new [of 8 1]
    by (simp add: cb_init_def cb_new_def cb_inv_def tp_new_def build_worker_threads_def counted_def)
qed (auto intro: cb_inv_step cb_weight_step)

text \<open>No step left but a wake up without notification.\<close>

definition cb_rest :: "nat \<Rightarrow> cb_state \<Rightarrow> bool" where
  "cb_rest tc s \<longleftrightarrow> \<not> (\<exists>e s'. cb_step tc s e s' \<and> notified e)"

lemma cb_restD: "cb_rest tc s \<Longrightarrow> cb_step tc s e s' \<Longrightarrow> notified e \<Longrightarrow> False"
  by (auto simp: cb_rest_def)

text \<open>The main thread has ended its loops or waits; no unit is under way.\<close>

lemma rest_main: "cb_rest tc s \<Longrightarrow> cb_main s \<notin> {M_lock, M_test}"
  using cb_restD [of tc s Main] cb_lock cb_test by fastforce

lemma rest_units: "cb_rest tc s \<Longrightarrow> W_Run x \<notin> set (workers (cb_tp s))"
proof
  assume rest: "cb_rest tc s" and w: "W_Run x \<in> set (workers (cb_tp s))"
  then have r: "running x s" by (simp add: running_def)
  obtain j where j: "j < length (workers (cb_tp s))" "workers (cb_tp s) ! j = W_Run x" using w by (auto simp: in_set_conv_nth)
  show False
  proof (cases "cb_unit s x")
    case U_send
    then show ?thesis using cb_restD [OF rest cb_sent [OF r]] by auto
  next
    case U_lock
    then show ?thesis using cb_restD [OF rest cb_dec [OF r]] rest_main [OF rest] by auto
  next
    case U_notify
    then show ?thesis using cb_restD [OF rest cb_notify [OF r]] by auto
  next
    case U_end
    then show ?thesis using cb_restD [OF rest cb_return [OF _ w_done [OF j]]] by auto
  qed
qed

lemma rest_pool: "cb_rest tc s \<Longrightarrow> at_rest (cb_tp s)"
proof -
  assume rest: "cb_rest tc s"
  have "False" if st: "tp_step (cb_tp s) e p'" and e: "internal_ev e" for e p'
  proof (cases "finished p' = finished (cb_tp s)")
    case True
    have "\<forall>i w. e \<noteq> Call i w" "notified (Pool e)" using e by (cases e; simp)+
    then show ?thesis using cb_restD [OF rest cb_pool [OF st _ True]] by blast
  next
    case False
    then have "\<exists>x. W_Run x \<in> set (workers (cb_tp s))" by (rule finishes_running [OF st])
    then show ?thesis using rest_units [OF rest] by blast
  qed
  then show ?thesis by (auto simp: at_rest_def)
qed

lemma cb_rest_done:
  assumes "cb_inv tc s" and "cb_rest tc s"
  shows "cb_main s = M_done \<and> mset (finished (cb_tp s)) = mset [0..<tc] \<and> cb_ip_calls s = 0"
proof -
  let ?p = "cb_tp s"
  obtain q where inv: "cb_i s \<le> tc" "tp_inv ?p" "p_size ?p = 8" "producers ?p = [q]" "pushed ?p @ in_call q = [0..<cb_i s]"
    using assms(1) by (auto simp: cb_inv_def)
  have p: "q = P_Idle" "mset (finished ?p) = mset (pushed ?p)"
    using at_rest_all_done [OF inv(2) rest_pool [OF assms(2)]] inv(3,4) by auto
  have add: "cb_main s \<noteq> M_add"
  proof
    assume m: "cb_main s = M_add"
    have "tp_step ?p (Call 0 (cb_i s)) (?p\<lparr>producers := (producers ?p)[0 := P_Lock (cb_i s)]\<rparr>)"
      using inv(4) p(1) by (intro call) auto
    then have "\<not> cb_i s < tc" using cb_restD [OF assms(2) cb_add_work [OF m]] by auto
    then show False using cb_restD [OF assms(2) cb_loop_end [OF m]] inv(4) p(1) by auto
  qed
  then have fin: "mset (finished ?p) = mset [0..<tc]" using assms(1) p inv(5) by (simp add: cb_inv_def)
  then have "set (finished ?p) = {..<tc}" using mset_eq_setD by fastforce
  then have "{x. x < tc \<and> counted (cb_unit s x)} = {..<tc}" using assms(1) by (auto simp: cb_inv_def counted_def)
  then have ip: "cb_ip_calls s = 0" using assms(1) by (simp add: cb_inv_def)
  then have "cb_main s \<noteq> M_wait"
    using assms(1) rest_units [OF assms(2)] by (auto simp: cb_inv_def running_def)
  then show ?thesis using add rest_main [OF assms(2)] fin ip by (cases "cb_main s") auto
qed

text \<open>
  C22: \<^verbatim>\<open>call_block\<close> gets all its work done and returns, whatever its sends return. From every state it
  can reach, every run in which no thread wakes up without a notification is finite, one to the end
  exists, and whenever no further step but such a wake up is possible every unit of work from \<open>0\<close> to
  \<open>tc - 1\<close> has been executed exactly once, \<^verbatim>\<open>ip_calls\<close> is 0 and the main thread is past its final
  loop. (Wake ups without a notification can go on for ever, so runs with them need not be finite.)
\<close>

theorem sample_block_completes:
  assumes "reach (cb_init tc) (cb_step tc) s"
  shows "(\<forall>es s'. run (cb_step tc) s es s' \<and> (\<forall>e \<in> set es. notified e) \<longrightarrow> length es \<le> cb_weight tc s
      \<and> (cb_rest tc s' \<longrightarrow>
           cb_main s' = M_done \<and> mset (finished (cb_tp s')) = mset [0..<tc] \<and> cb_ip_calls s' = 0))
    \<and> (\<exists>es s'. run (cb_step tc) s es s' \<and> (\<forall>e \<in> set es. notified e) \<and> cb_rest tc s')"
proof -
  note inv = cb.inv_reach [OF assms]
  have "\<exists>es s'. run (cb_step tc) s es s' \<and> (\<forall>e \<in> set es. notified e) \<and> cb_rest tc s'"
    using cb.internal_run_to_rest [OF inv] by (simp add: cb_rest_def)
  moreover have "length es \<le> cb_weight tc s \<and> (cb_rest tc s' \<longrightarrow>
      cb_main s' = M_done \<and> mset (finished (cb_tp s')) = mset [0..<tc] \<and> cb_ip_calls s' = 0)"
    if "run (cb_step tc) s es s'" "\<forall>e \<in> set es. notified e" for es s'
    using cb.internal_run_bounded [OF that(1) inv that(2)] cb_rest_done [OF cb.inv_run [OF that(1) inv]] by simp
  ultimately show ?thesis by blast
qed

theorem sample_block_completes_witness:
  "\<exists>es s'. run (cb_step 1000000) (cb_new 1000000) es s' \<and> (\<forall>e \<in> set es. notified e)
     \<and> cb_main s' = M_done \<and> cb_ip_calls s' = 0"
proof -
  have "reach (cb_init 1000000) (cb_step 1000000) (cb_new 1000000)" by (rule reach_init) (simp add: cb_init_def)
  from sample_block_completes [OF this] show ?thesis by blast
qed

end

