(* ===== verification/Spec2Isabelle.thy ===== *)
theory Spec2Isabelle
  imports Exec Compare Thread_Pool Locks Http Samples
begin

text \<open>
  \<^bold>\<open>libasutils\<close>: a C++ library with a thread pool, a framed socket server and client over epoll, a
  wrapper around libmicrohttpd and a collection of utilities. This development models its code and
  proves what makes it correct, and where it is not, what it does instead.

  \<^bold>\<open>The program.\<close> \<^verbatim>\<open>SocketServer\<close> accepts connections, reads the bytes of each through a
  \<^verbatim>\<open>BufferedReader\<close> that cuts them into frames at the byte 4, hands every frame to a handler, and sends
  what the handler answers through a \<^verbatim>\<open>BufferedWriter\<close>. \<^verbatim>\<open>SocketClient\<close> is the other end: it keeps one
  connection per host, sends a message under a fresh uuid, and calls the callback registered under the
  uuid of a reply. Both share the epoll routines and the frame format of \<^verbatim>\<open>SocketUtils\<close>, do their work
  on \<^verbatim>\<open>ThreadPool\<close>s, and leave dead connections to a reaper thread. \<^verbatim>\<open>HttpServer\<close> routes the requests of
  libmicrohttpd to handlers. \<^verbatim>\<open>Utils\<close> has string, time, hash, digest, comparison and process helpers.

  \<^bold>\<open>Theories\<close>, with the files under \<^verbatim>\<open>src/src/main/cpp\<close> and \<^verbatim>\<open>src/inc\<close> they model:

  \<^item> \<open>Prelude\<close>: the type \<open>cpp\<close> of outcomes of C++ code (a value, undefined behaviour, \<^verbatim>\<open>exit\<close>, no
    return), checked array accesses, loops with 32 bit counters, the operations of \<^verbatim>\<open>unordered_map\<close>.
  \<^item> \<open>Transition\<close>: runs of step relations and the locales \<open>step_inv\<close>, \<open>step_measure\<close> and
    \<open>step_refine\<close> that the state machines below interpret.
  \<^item> \<open>Buffers\<close> (\<^verbatim>\<open>buffered_reader.cpp\<close>, \<^verbatim>\<open>buffered_writer.cpp\<close>) and \<open>Frames\<close> (\<^verbatim>\<open>pack_frame\<close> and
    \<^verbatim>\<open>unpack_frame\<close> of \<^verbatim>\<open>socket_utils.cpp\<close>): a reader delivers exactly the complete frames of its
    stream whatever the chunks, a writer is a queue of bytes, packing and unpacking are inverse, and
    exactly which messages can be framed.
  \<^item> \<open>Thread_Pool\<close> (\<^verbatim>\<open>thread_pool.cpp\<close>): producers, workers, mutex and condition variables as a step
    relation with spurious wake ups; it refines a bounded queue, is never stuck and completes all work.
  \<^item> \<open>Utils\<close>, \<open>Compare\<close>, \<open>Digest\<close>, \<open>Exec\<close> (\<^verbatim>\<open>utils.cpp\<close>): splitting, time stamps against the
    Gregorian calendar, the hash, the comparison of \<^verbatim>\<open>float\<close> and \<^verbatim>\<open>double\<close> numbers with their rounding,
    digests and uuids, the lines of a process.
  \<^item> \<open>Socket_Utils\<close> (\<^verbatim>\<open>socket_utils.cpp\<close>): the loops that accept, read and write, over any answers of
    the kernel; event masks against what the kernel was told.
  \<^item> \<open>Socket_Server\<close> (\<^verbatim>\<open>socket_server.cpp\<close>) and \<open>Socket_Client\<close>, \<open>Client_Requests\<close>
    (\<^verbatim>\<open>socket_client.cpp\<close>): the classes as records, every method and callback as a definition, their
    threads as a step relation with an invariant, and the behaviour of each method on its branches.
    The steps that share no mutex with the rest of their method are steps of their own; lemmas show
    that their uninterrupted sequence is the method (\<open>sv_accept_run\<close>, \<open>sv_reap_run\<close>, \<open>make_connection_run\<close>,
    \<open>connect_run\<close>, \<open>reap_run\<close>, \<open>send_run\<close>).
  \<^item> \<open>Locks\<close>: the mutexes of both classes, method by method; absence of deadlock from a rank of the
    mutexes, and the deadlock a throwing callback of the client causes.
  \<^item> \<open>Http\<close> (\<^verbatim>\<open>http_request.cpp\<close>, \<^verbatim>\<open>http_response.cpp\<close>, \<^verbatim>\<open>http_server.cpp\<close>, \<^verbatim>\<open>http_wrapper.cpp\<close>,
    \<^verbatim>\<open>default_handler.cpp\<close>, \<^verbatim>\<open>httpserver/main.cpp\<close>): the hook as a state machine over the calls the
    library makes, those of the iterator from \<^verbatim>\<open>MHD_post_process\<close> and \<^verbatim>\<open>MHD_destroy_post_processor\<close>
    included; every attempt to queue a response for an upload with its body, and what \<^verbatim>\<open>MHD_YES\<close> means.
  \<^item> \<open>Samples\<close> (\<^verbatim>\<open>sserver/main.cpp\<close>, \<^verbatim>\<open>sclient/main.cpp\<close>): the handler of the sample server and the
    calls of the sample client, where its messages are queued, that a send to a host that is down makes
    it wait for ever, and that the blocking calls on a thread pool all get done and counted. The
    \<^verbatim>\<open>cv.wait\<close> of the samples, called with a lock that is not recorded as owned, is taken to release
    the mutex and block.
  \<^item> This theory: a request and its reply through client and server together.

  \<^bold>\<open>Conventions.\<close> An access out of bounds, an iterator past the end, a null pointer and a division by
  zero are \<open>Undef\<close>; a loop whose 32 bit counter can never reach its bound is \<open>Diverge\<close>; \<^verbatim>\<open>exit\<close> is
  \<open>Exit\<close>; theorems that code returns say so, as \<open>f x = Ret y\<close>. Integers have their width. The
  kernel, the resolver, SHA-1, libuuid, libmicrohttpd, boost and the callbacks of the user are
  parameters: their answers are arguments of the definitions, and the theorems hold for all answers
  or name what they rely on. The list of answers bounds the loops over system calls: a list that ends
  early stands for a call that blocks, and the theorems say which lists let a call return. Mutable
  histories (\<open>calls\<close>, \<open>sv_delivered\<close>, \<open>sc_answers\<close>, \<open>sc_regs\<close>, \<open>rs_calls\<close>, \<open>pushed\<close>, \<open>popped\<close>)
  record what happened and are read by no code; the answers of the library to the attempts to queue a
  response are indexed by the length of \<open>rs_calls\<close>.

  \<^bold>\<open>Grain of the steps.\<close> In \<open>Thread_Pool\<close>, \<open>Locks\<close> and \<open>Samples\<close> threads interleave at every lock, wait
  and notification. In \<open>sv_step\<close> a thread of the accept pool is interrupted after each \<^verbatim>\<open>epoll_ctl\<close>
  that adds a connection and between the three critical sections of \<^verbatim>\<open>add\<close>, and the reaper before each
  zombie and between the sections of \<^verbatim>\<open>close_n_clean\<close>. In \<open>sc_step\<close> \<^verbatim>\<open>connect_to_hosts\<close>,
  \<^verbatim>\<open>retry_conn\<close> and \<^verbatim>\<open>reap_resources\<close> are interrupted before and after each connection attempt and
  each zombie, \<^verbatim>\<open>make_connection\<close> between its system calls and each of its critical sections,
  \<^verbatim>\<open>close_n_clean\<close> between its sections, and \<^verbatim>\<open>send_msg\<close> between the look at the host, the
  registration of the callback and the queueing of the frame. The guards of the steps are the mutexes
  held meanwhile: \<^verbatim>\<open>eh_mutex\<close> during a round of \<^verbatim>\<open>retry_conn\<close>, \<^verbatim>\<open>z_mutex\<close> during a pass of a reaper. A
  unit of read or write work, which holds the mutex of its resource throughout, is one step, and so
  are a \<^verbatim>\<open>send_msg\<close> of the server and a batch of events. In the blocking \<^verbatim>\<open>send_msg\<close> what other
  threads do is a parameter at each of its points of interruption.

  \<^bold>\<open>Not modelled.\<close> Logging (log4cpp) and console output, which change no state. The lifetime of
  objects other than the wrapper of a request and the pipe of \<^verbatim>\<open>exec\<close>: destructors, and the use of a
  mutex the reaper has deleted. Data races on fields read without their mutex. Timing, beyond the age test of the reaper.
  Tests and build files.
\<close>

subsection \<open>Client and server together\<close>

text \<open>
  C1: a request and its reply, end to end. A client sends a message to a healthy host and drains its
  queue; the server reads the bytes that were sent, in any chunks; its handler answers with the
  same uuid; the server drains its queue; the client reads the bytes of the answer, in any chunks.
  Then every step returns, the server's handler got exactly this message on this connection, the
  callback of the request was called exactly once, with the answer, and waits no longer.
\<close>

theorem request_response:
  assumes client: "unat ni < length (sc_desired_hosts c)" "sc_h_status c (sc_desired_hosts c ! unat ni) = Some st"
      "is_healthy st" "sc_wrm c (hs_sfd st) = None" "sc_rrm c (hs_sfd st) = None"
    and server: "sv_rrm v f = Some \<lparr>rr_br = br_new EOT, rr_valid = True\<rparr>"
      "sv_wrm v f = Some \<lparr>wr_bw = bw_new, wr_valid = True\<rparr>"
    and message: "valid_msg (u, m)" "EOT \<notin> set (rep m)" "length (rep m) + 38 < 2 ^ 32"
    and wire: "\<forall>x \<in> set there. x \<noteq> []" "concat there = u @ m @ [EOT]"
      "\<forall>x \<in> set back. x \<noteq> []" "concat back = u @ rep m @ [EOT]"
    and kernel: "full_writes (length m + 38) as" "\<forall>a \<in> set as. \<forall>e. a \<noteq> W_err e"
      "full_writes (length (rep m) + 38) bs" "\<forall>a \<in> set bs. \<forall>e. a \<noteq> W_err e"
  shows "\<exists>c1 c2 v1 v2 c3.
      sc_send_msg junk m (length m) ni (Some cb) u c = Ret (True, c1)
    \<and> sc_write junk now (hs_ep_sfd st) (hs_sfd st) as c1 = Ret c2
    \<and> sent_on (hs_sfd st) (calls (sc_events c2)) = sent_on (hs_sfd st) (calls (sc_events c)) @ concat there
    \<and> sv_read (replier rep) junk now f (map R_bytes there @ [R_err EAGAIN]) v = Ret v1
    \<and> sv_delivered v1 = sv_delivered v @ [(u, m, f)]
    \<and> sv_write junk now f bs v1 = Ret v2
    \<and> sent_on f (calls (sv_events v2)) = sent_on f (calls (sv_events v)) @ concat back
    \<and> sc_read throws now (hs_ep_sfd st) (hs_sfd st) (map R_bytes back @ [R_err EAGAIN]) c2 = Ret c3
    \<and> sc_answers c3 = sc_answers c @ [(cb, rep m)] \<and> sc_cb c3 (hs_sfd st) u = None"
proof -
  let ?fd = "hs_sfd st"
  have u: "length u = 37" "EOT \<notin> set (u @ rep m)" "length m + 38 < 2 ^ 32"
    using message by (auto simp: valid_msg_def)
  have k: "full_writes (38 + length m) as" "full_writes (38 + length (rep m)) bs"
    using kernel(1,3) by (simp_all add: add.commute)
  have new: "map_at (sc_wrm c) new_wr ?fd = new_wr" "wr_valid new_wr" "bw_buffer (wr_bw new_wr) = []"
    using client(4) by (simp_all add: new_wr_def)
  obtain c1 where c1: "sc_send_msg junk m (length m) ni (Some cb) u c = Ret (True, c1)"
      "sc_wrm c1 ?fd = Some (new_wr\<lparr>wr_bw := \<lparr>bw_buffer = u @ m @ [EOT]\<rparr>\<rparr>)" "sc_rrm c1 ?fd = None"
      "sc_answers c1 = sc_answers c" "sc_cb c1 ?fd u = Some cb"
      "sent_on ?fd (calls (sc_events c1)) = sent_on ?fd (calls (sc_events c))"
    using sc_send_msg_ok [OF client(1) u(1) u(3) client(2,3) refl, of junk "Some cb"] new client(5)
    by (simp add: sc_register_def sc_cb_def)
  obtain c2 where c2: "sc_write junk now (hs_ep_sfd st) ?fd as c1 = Ret c2" "sc_rrm c2 = sc_rrm c1"
      "sc_cb c2 = sc_cb c1" "sc_answers c2 = sc_answers c1"
      "sent_on ?fd (calls (sc_events c2)) = sent_on ?fd (calls (sc_events c)) @ u @ m @ [EOT]"
    using sc_write_all [OF refl, of c1 ?fd as junk now "hs_ep_sfd st"] c1 k(1) kernel(2) u(1)
    by (auto simp: new_wr_def bw_size_def)
  obtain v1 where v1: "sv_read (replier rep) junk now f (map R_bytes there @ [R_err EAGAIN]) v = Ret v1"
      "sv_delivered v1 = sv_delivered v @ [(u, m, f)]"
      "sv_wrm v1 f = Some \<lparr>wr_bw = \<lparr>bw_buffer = u @ rep m @ [EOT]\<rparr>, wr_valid = True\<rparr>"
      "sent_on f (calls (sv_events v1)) = sent_on f (calls (sv_events v))"
    using sv_read_one [of v f "\<lparr>wr_bw = bw_new, wr_valid = True\<rparr>" u m rep there junk now] server message(1,3) wire(1,2)
    by (auto simp: bw_new_def)
  obtain v2 where v2: "sv_write junk now f bs v1 = Ret v2"
      "sent_on f (calls (sv_events v2)) = sent_on f (calls (sv_events v)) @ u @ rep m @ [EOT]"
    using sv_write_all [OF v1(3), of bs junk now] v1(4) k(2) kernel(4) u(1) by (auto simp: bw_size_def)
  have "split_frames EOT [] (concat back) = ([u @ rep m], [])" using split_one_frame [OF u(2)] wire(4) by simp
  moreover have "length (concat back) < 2 ^ 32" using wire(4) u(1) message(3) by simp
  ultimately obtain c3 where
    "sc_read throws now (hs_ep_sfd st) ?fd (map R_bytes back @ [R_err EAGAIN]) c2 = Ret c3"
    "sc_answers c3 = sc_answers c2 @ answers_for (sc_cb c2 ?fd) (map frame_parts [u @ rep m])"
    "\<forall>g w. sc_cb c3 g w = (if g = ?fd \<and> w \<in> set (map (fst \<circ> frame_parts) [u @ rep m]) then None else sc_cb c2 g w)"
    using sc_read_outcome [of c2 ?fd "\<lparr>rr_br = br_new EOT, rr_valid = True\<rparr>" "back" "[u @ rep m]" "[]" "R_err EAGAIN"
        EAGAIN throws now "hs_ep_sfd st" "[]"] wire(3) c1(3) c2(2) by (auto simp: br_new_def reader_ok_def)
  moreover have "frame_parts (u @ rep m) = (u, rep m)" using u(1) by (simp add: frame_parts_def)
  ultimately have c3: "sc_read throws now (hs_ep_sfd st) ?fd (map R_bytes back @ [R_err EAGAIN]) c2 = Ret c3"
    "sc_answers c3 = sc_answers c @ [(cb, rep m)]" "sc_cb c3 ?fd u = None"
    using c1(4,5) c2(3,4) by simp_all
  show ?thesis using c1(1) c2(1,5) v1(1,2) v2 c3 wire(2,4) by auto
qed

theorem request_response_witness:
  "\<exists>c1 c2 v1 v2 c3.
      sc_send_msg CHR 0x00 ''blah blah'' (length ''blah blah'') 0 (Some 3) demo_uuid demo_idle = Ret (True, c1)
    \<and> sc_write CHR 0x00 5 8 7 [W_ok 47] c1 = Ret c2
    \<and> sv_read sserver_handler CHR 0x00 5 7
        (map R_bytes [demo_uuid @ ''bl'', ''ah blah'' @ [EOT]] @ [R_err EAGAIN]) (demo_server []) = Ret v1
    \<and> sv_write CHR 0x00 5 7 [W_ok 48] v1 = Ret v2
    \<and> sc_read (\<lambda>cb m. False) 5 8 7 (map R_bytes [demo_uuid @ ''no way bro'' @ [EOT]] @ [R_err EAGAIN]) c2 = Ret c3
    \<and> sc_answers c3 = [(3, ''no way bro'')] \<and> sc_cb c3 7 demo_uuid = None"
proof -
  have client: "unat (0 :: u32) < length (sc_desired_hosts demo_idle)"
      "sc_h_status demo_idle (sc_desired_hosts demo_idle ! unat (0 :: u32)) =
         Some \<lparr>is_healthy = True, hs_sfd = 7, hs_ep_sfd = 8\<rparr>"
      "sc_wrm demo_idle 7 = None" "sc_rrm demo_idle 7 = None" "sc_answers demo_idle = []"
    by (simp_all add: demo_idle_def sc_new_def)
  have server: "sv_rrm (demo_server []) 7 = Some \<lparr>rr_br = br_new EOT, rr_valid = True\<rparr>"
      "sv_wrm (demo_server []) 7 = Some \<lparr>wr_bw = bw_new, wr_valid = True\<rparr>"
    by (simp_all add: demo_server_def bw_new_def)
  have message: "valid_msg (demo_uuid, ''blah blah'')" "EOT \<notin> set ''no way bro''"
    by (simp_all add: valid_msg_def demo_uuid_def EOT_def)
  show ?thesis
    using request_response [of "0 :: u32" demo_idle "\<lparr>is_healthy = True, hs_sfd = 7, hs_ep_sfd = 8\<rparr>" "demo_server []" 7
        demo_uuid "''blah blah''" "\<lambda>_. ''no way bro''" "[demo_uuid @ ''bl'', ''ah blah'' @ [EOT]]"
        "[demo_uuid @ ''no way bro'' @ [EOT]]" "[W_ok 47]" "[W_ok 48]" "CHR 0x00" 3 5 "\<lambda>cb m. False"]
      client server message
    by (fastforce simp: sserver_handler_replier demo_uuid_def)
qed

end
